(* ===== verification/Prelude.thy ===== *)
theory Prelude
  imports Main "HOL-Library.Word" "HOL-Library.Monad_Syntax"
begin

text \<open>
  Shared vocabulary of the development: the machine word types of the LP64 target, the
  C string conventions (a string value is its bytes without the terminating NUL), the
  fact collections the component theories fill, and the generic lemmas on options and
  lists that several of them use.
\<close>

type_synonym u64 = "64 word"
type_synonym u32 = "32 word"
type_synonym bytes = "char list"

named_theorems harness_defs \<open>definitions of the harness operations, unfolded together\<close>
named_theorems frame \<open>what an operation leaves unchanged\<close>

subsection \<open>C strings\<close>

text \<open>The string a NUL-terminated read of a byte buffer sees.\<close>

definition c_string :: "bytes \<Rightarrow> string" where
  "c_string bs = takeWhile (\<lambda>c. c \<noteq> CHR 0x00) bs"

text \<open>\<open>snprintf(buf, cap, "%s", s)\<close> with \<open>cap > 0\<close>: at most \<open>cap - 1\<close> bytes are kept.\<close>

definition snprintf_s :: "nat \<Rightarrow> string \<Rightarrow> string" where
  "snprintf_s cap s = take (cap - 1) s"

lemma length_snprintf_s: "0 < cap \<Longrightarrow> length (snprintf_s cap s) < cap"
  by (simp add: snprintf_s_def)

lemma snprintf_s_id: "length s < cap \<Longrightarrow> snprintf_s cap s = s"
  by (simp add: snprintf_s_def)

lemma c_string_id: "CHR 0x00 \<notin> set bs \<Longrightarrow> c_string bs = bs"
  unfolding c_string_def by (induction bs) auto

subsection \<open>Options and lists\<close>

lemma bind_Some_iff [simp]:
  "(Option.bind m f = Some y) \<longleftrightarrow> (\<exists>x. m = Some x \<and> f x = Some y)"
  by (cases m) auto

lemma find_Some_set: "find P xs = Some x \<Longrightarrow> x \<in> set xs \<and> P x"
  by (induction xs) (auto split: if_splits)

lemma find_None_set: "find P xs = None \<longleftrightarrow> (\<forall>x \<in> set xs. \<not> P x)"
  by (induction xs) auto

lemma find_distinct:
  "distinct (map f xs) \<Longrightarrow> find (\<lambda>x. f x = k) xs = Some y \<longleftrightarrow> y \<in> set xs \<and> f y = k"
  by (induction xs) (auto simp: image_iff)

lemma take_list_update_ge: "n \<le> i \<Longrightarrow> take n (xs[i := x]) = take n xs"
  by (rule nth_equalityI) auto

lemma take_Suc_list_update:
  "n < length xs \<Longrightarrow> take (Suc n) (xs[n := x]) = take n xs @ [x]"
  by (simp add: take_Suc_conv_app_nth take_list_update_ge)

lemma restrict_keep: "x \<notin> A \<Longrightarrow> (m |` (- A)) x = m x"
  by (simp add: restrict_map_def)

lemma restrict_drop: "x \<in> A \<Longrightarrow> (m |` (- A)) x = None"
  by (simp add: restrict_map_def)

lemma sint_nonneg: "0 \<le> sint (x :: 'a :: len word) \<Longrightarrow> sint x = uint x"
proof -
  assume 0: "0 \<le> sint x"
  have "sint x < 2 ^ (LENGTH('a) - 1)" by (rule sint_lt)
  also have "\<dots> \<le> 2 ^ LENGTH('a)" by (rule power_increasing) auto
  finally show ?thesis using 0 by (simp add: uint_sint take_bit_int_eq_self)
qed

lemma sint_index: "0 \<le> sint (x :: 'a :: len word) \<Longrightarrow> sint x < int n \<Longrightarrow> unat x < n"
proof -
  assume "0 \<le> sint x" "sint x < int n"
  then have "nat (uint x) < n" using sint_nonneg [of x] by (simp only: nat_less_iff uint_ge_0)
  then show ?thesis by (simp only: unat_eq_nat_uint)
qed

lemma sint_int_unat: "sint (x :: 'a :: len word) = int n \<Longrightarrow> unat x = n"
  using sint_nonneg [of x] by (simp only: unat_eq_nat_uint)

subsection \<open>Interning tables\<close>

text \<open>Serving a list of requests one after the other.\<close>

fun run_list :: "('k \<Rightarrow> 's \<Rightarrow> 'h \<times> 's) \<Rightarrow> 'k list \<Rightarrow> 's \<Rightarrow> 'h list \<times> 's" where
  "run_list f [] s = ([], s)"
| "run_list f (k # ks) s = (let (h, s1) = f k s; (hs, s2) = run_list f ks s1 in (h # hs, s2))"

text \<open>The contract of a table that hands out one handle per key: a key that has a handle gets
  it again and nothing changes; while there is room a new handle is bound to its key; no
  request changes the key of a handle that is out.\<close>

locale intern_table =
  fixes intern :: "'k \<Rightarrow> 's \<Rightarrow> 'h \<times> 's"
    and null :: 'h
    and key_of :: "'s \<Rightarrow> 'h \<Rightarrow> 'k option"
    and room :: "'s \<Rightarrow> bool"
    and inv :: "'s \<Rightarrow> bool"
  assumes intern_inv: "inv s \<Longrightarrow> intern k s = (h, s') \<Longrightarrow> inv s'"
    and intern_keeps: "inv s \<Longrightarrow> intern k s = (h, s') \<Longrightarrow> key_of s h' = Some k' \<Longrightarrow> key_of s' h' = Some k'"
    and intern_binds: "inv s \<Longrightarrow> room s \<Longrightarrow> intern k s = (h, s') \<Longrightarrow> h \<noteq> null \<Longrightarrow> key_of s' h = Some k"
    and intern_hit: "inv s \<Longrightarrow> key_of s h = Some k \<Longrightarrow> intern k s = (h, s)"
begin

lemma run_list_keeps:
  "inv s \<Longrightarrow> run_list intern ks s = (hs, s') \<Longrightarrow> inv s' \<and> (\<forall>h k. key_of s h = Some k \<longrightarrow> key_of s' h = Some k)"
proof (induction ks arbitrary: s hs)
  case Nil
  then show ?case by simp
next
  case (Cons k ks)
  obtain h s1 where i: "intern k s = (h, s1)" by fastforce
  obtain hs' s2 where r: "run_list intern ks s1 = (hs', s2)" by fastforce
  with i Cons.prems have "s2 = s'" by simp
  with r have r: "run_list intern ks s1 = (hs', s')" by simp
  from Cons.IH [OF intern_inv [OF Cons.prems(1) i] r] intern_keeps [OF Cons.prems(1) i]
  show ?case by blast
qed

text \<open>The handle of a key stays its handle through any later requests.\<close>

lemma intern_stable:
  assumes "inv s" "room s" "intern k s = (h, s1)" "h \<noteq> null" "run_list intern ks s1 = (hs, s2)"
  shows "intern k s2 = (h, s2)"
  using assms intern_binds intern_inv run_list_keeps intern_hit by blast

text \<open>Different keys have different handles.\<close>

lemma intern_inj:
  assumes "inv s" "room s" "intern k s = (h, s1)" "h \<noteq> null"
    and "run_list intern ks s1 = (hs, s2)" "room s2" "intern k' s2 = (h', s3)" "h' \<noteq> null" "k \<noteq> k'"
  shows "h \<noteq> h'"
proof
  assume eq: "h = h'"
  have i1: "inv s1" and b: "key_of s1 h = Some k"
    using assms(1-4) intern_inv intern_binds by blast+
  have i2: "inv s2" and b2: "key_of s2 h = Some k" using run_list_keeps [OF i1 assms(5)] b by auto
  have "key_of s3 h = Some k" using intern_keeps [OF i2 assms(7) b2] .
  moreover have "key_of s3 h' = Some k'" using intern_binds [OF i2 assms(6-8)] .
  ultimately show False using eq assms(9) by simp
qed

end

subsection \<open>Indexed stores\<close>

text \<open>A list of writes, one after the other; \<open>None\<close> is a fault.\<close>

fun write_all :: "('k \<Rightarrow> 'v \<Rightarrow> 's \<Rightarrow> 's option) \<Rightarrow> ('k \<times> 'v) list \<Rightarrow> 's \<Rightarrow> 's option" where
  "write_all f [] s = Some s"
| "write_all f (w # ws) s = do { s' \<leftarrow> f (fst w) (snd w) s; write_all f ws s' }"

text \<open>The contract of a store with cells: a write to a cell in bounds changes that cell only, a
  write out of bounds changes nothing, and neither faults.\<close>

locale cell_store =
  fixes read_cell :: "'k \<Rightarrow> 's \<Rightarrow> 'v option"
    and write_cell :: "'k \<Rightarrow> 'v \<Rightarrow> 's \<Rightarrow> 's option"
    and valid :: "'s \<Rightarrow> bool"
    and inb :: "'k \<Rightarrow> bool"
  assumes write_total: "valid s \<Longrightarrow> \<exists>s'. write_cell k v s = Some s' \<and> valid s'"
    and read_write: "valid s \<Longrightarrow> write_cell k v s = Some s' \<Longrightarrow>
          read_cell j s' = (if j = k \<and> inb k then Some v else read_cell j s)"
begin

text \<open>After any writes a cell holds the last value written to it.\<close>

lemma last_write_wins:
  "valid s \<Longrightarrow> \<exists>s'. write_all write_cell ws s = Some s' \<and> valid s' \<and>
     (\<forall>j. read_cell j s' =
        (if inb j \<and> j \<in> fst ` set ws then map_of (rev ws) j else read_cell j s))"
proof (induction ws arbitrary: s)
  case Nil
  then show ?case by simp
next
  case (Cons w ws)
  obtain s1 where s1: "write_cell (fst w) (snd w) s = Some s1" "valid s1"
    using write_total [OF Cons.prems] by blast
  obtain s2 where s2: "write_all write_cell ws s1 = Some s2" "valid s2"
    "\<And>j. read_cell j s2 = (if inb j \<and> j \<in> fst ` set ws then map_of (rev ws) j else read_cell j s1)"
    using Cons.IH [OF s1(2)] by blast
  have "read_cell j s2 = (if inb j \<and> j \<in> fst ` set (w # ws) then map_of (rev (w # ws)) j else read_cell j s)" for j
  proof (cases "j \<in> fst ` set ws")
    case True
    then obtain v where "map_of (rev ws) j = Some v"
      by (cases "map_of (rev ws) j") (auto simp: map_of_eq_None_iff)
    with True show ?thesis
      by (simp add: s2(3) read_write [OF Cons.prems s1(1)] map_add_def)
  next
    case False
    then have "map_of (rev ws) j = None" by (simp add: map_of_eq_None_iff)
    with False show ?thesis
      by (cases w) (auto simp: s2(3) read_write [OF Cons.prems s1(1)] map_add_def)
  qed
  with s1(1) s2(1,2) show ?case by (intro exI [of _ s2]) simp
qed

end

subsection \<open>Bounded queues\<close>

text \<open>The contract of a bounded queue that drops its oldest entry when it is full.\<close>

locale bounded_queue =
  fixes push :: "'x \<Rightarrow> 's \<Rightarrow> 's"
    and contents :: "'s \<Rightarrow> 'x list"
    and cap :: nat
  assumes cap_pos: "0 < cap"
    and push_contents: "contents (push x s) =
          (if length (contents s) = cap then tl (contents s) else contents s) @ [x]"
begin

lemma push_bounded: "length (contents s) \<le> cap \<Longrightarrow> length (contents (push x s)) \<le> cap"
  using cap_pos by (auto simp: push_contents)

text \<open>After any pushes the queue holds the last \<open>cap\<close> entries, oldest first.\<close>

lemma fold_push:
  "length (contents s) \<le> cap \<Longrightarrow>
   contents (fold push xs s) = drop (length (contents s @ xs) - cap) (contents s @ xs)"
proof (induction xs arbitrary: s)
  case Nil
  then show ?case by simp
next
  case (Cons x xs)
  let ?q = "contents s"
  have "contents (fold push (x # xs) s) =
      drop (length (contents (push x s) @ xs) - cap) (contents (push x s) @ xs)"
    using Cons.IH [OF push_bounded [OF Cons.prems]] by simp
  also have "\<dots> = drop (length (?q @ x # xs) - cap) (?q @ x # xs)"
  proof (cases "length ?q = cap")
    case True
    then obtain y ys where q: "?q = y # ys" using cap_pos by (cases ?q) auto
    then have "length (?q @ x # xs) - cap = Suc (length (ys @ x # xs) - cap)" using True by simp
    then show ?thesis using True q by (simp add: push_contents)
  qed (simp add: push_contents)
  finally show ?case .
qed

end

subsection \<open>Decimal numbers\<close>

definition digit :: "char \<Rightarrow> bool" where
  "digit c \<longleftrightarrow> 48 \<le> (of_char c :: nat) \<and> (of_char c :: nat) \<le> 57"

fun dec :: "int \<Rightarrow> string \<Rightarrow> int \<times> string" where
  "dec n [] = (n, [])"
| "dec n (c # cs) = (if digit c then dec (10 * n + (of_char c - 48)) cs else (n, c # cs))"

definition isspace :: "char \<Rightarrow> bool" where
  "isspace c \<longleftrightarrow> c = CHR '' '' \<or> (9 \<le> (of_char c :: nat) \<and> (of_char c :: nat) \<le> 13)"

text \<open>\<open>strtol\<close> in base ten: the value, the rest of the string, and whether digits were read.\<close>

definition strtol :: "string \<Rightarrow> int \<times> string \<times> bool" where
  "strtol s =
     (let s1 = dropWhile isspace s;
          (neg, s2) = (case s1 of
              c # cs \<Rightarrow> if c = CHR ''-'' then (True, cs) else if c = CHR ''+'' then (False, cs) else (False, s1)
            | [] \<Rightarrow> (False, s1));
          (v, rest) = dec 0 s2
      in if s2 \<noteq> [] \<and> digit (hd s2) then (if neg then - v else v, rest, True) else (0, s, False))"

text \<open>\<open>atoi\<close>: for a number that is no \<open>int\<close> the C standard leaves the result open (glibc takes the low 32 bits); here
  it is the number.\<close>

definition atoi :: "string \<Rightarrow> int" where
  "atoi s = fst (strtol s)"

fun dec_string :: "nat \<Rightarrow> string" where
  "dec_string n = (if n < 10 then [char_of (48 + n)] else dec_string (n div 10) @ [char_of (48 + n mod 10)])"

declare dec_string.simps [simp del]

text \<open>\<open>printf\<close> of an integer.\<close>

definition show_int :: "int \<Rightarrow> string" where
  "show_int n = (if n < 0 then CHR ''-'' # dec_string (nat (- n)) else dec_string (nat n))"

lemma dec_string_digit: "c \<in> set (dec_string n) \<Longrightarrow> digit c"
proof (induction n rule: dec_string.induct)
  case (1 n)
  then show ?case by (subst (asm) dec_string.simps) (auto simp: digit_def split: if_split_asm)
qed

lemma dec_string_not_nil [simp]: "dec_string n \<noteq> []"
  by (subst dec_string.simps) simp

lemma dec_append:
  "list_all digit ds \<Longrightarrow> dec n (ds @ cs) = dec (fst (dec n ds)) cs"
  by (induction ds arbitrary: n) auto

lemma digit_char: "n < 10 \<Longrightarrow> of_char (char_of (48 + n) :: char) = 48 + int n"
  by (subst of_nat_of_char [symmetric]) simp

lemma dec_dec_string: "fst (dec 0 (dec_string n)) = int n"
proof (induction n rule: dec_string.induct)
  case (1 n)
  show ?case
  proof (cases "n < 10")
    case True
    then show ?thesis by (subst dec_string.simps) (simp add: digit_def digit_char)
  next
    case False
    have "list_all digit (dec_string (n div 10))" using dec_string_digit by (simp add: list_all_iff)
    moreover have "10 * int (n div 10) + int (n mod 10) = int n" by presburger
    ultimately show ?thesis using 1 False
      by (subst dec_string.simps) (simp add: dec_append digit_def digit_char)
  qed
qed

lemma atoi_show_int:
  assumes "cs = [] \<or> \<not> digit (hd cs)"
  shows "atoi (show_int n @ cs) = n"
proof -
  have stop: "dec k cs = (k, cs)" for k using assms by (cases cs) auto
  have d: "list_all digit (dec_string m)" for m using dec_string_digit by (simp add: list_all_iff)
  have v: "dec 0 (dec_string m @ cs) = (int m, cs)" for m
    by (simp add: dec_append [OF d] dec_dec_string stop)
  have h: "digit (hd (dec_string m @ cs))" for m using dec_string_digit [of "hd (dec_string m)" m] by simp
  have sp: "\<not> isspace c \<and> c \<noteq> CHR ''-'' \<and> c \<noteq> CHR ''+''" if "digit c" for c
    using that by (auto simp: digit_def isspace_def)
  show ?thesis
  proof (cases "n < 0")
    case True
    have "\<not> isspace (CHR ''-'')" by (simp add: isspace_def)
    then show ?thesis using True v h by (simp add: atoi_def strtol_def show_int_def)
  next
    case False
    obtain c ds where e: "dec_string (nat n) @ cs = c # ds" using dec_string_not_nil by (cases "dec_string (nat n) @ cs") auto
    then have "digit c" using h [of "nat n"] by simp
    then show ?thesis using False v [of "nat n"] sp [of c] by (simp add: atoi_def strtol_def show_int_def e)
  qed
qed

end
