(* ===== verification/Harness_Heap.thy ===== *)
theory Harness_Heap
  imports Prelude
begin

text \<open>
  The memory of the harness process (\<open>harness/jinterop.c\<close>): the fake Java objects and the
  buffers they own, as blocks of a heap that maps 64-bit addresses to typed blocks.

  An address with no block is freed or was never allocated: reading or freeing it is
  undefined behaviour in C, and an operation of the model that does so returns \<open>None\<close>.
  The C allocator is the list \<open>answers\<close>: each \<open>malloc\<close>, \<open>calloc\<close> or \<open>realloc\<close>
  consumes one answer, the address it returns, where 0 is a failed allocation; an answer
  that names a live block is not one a C allocator gives and counts as a failure, so that
  address reuse after \<open>free\<close> is covered and fresh blocks are always fresh.
\<close>

subsection \<open>Blocks\<close>

text \<open>\<open>JField\<close>: the value slot is pointer-sized and holds a pointer or the bits of a
  number, as \<open>type\<close> says.\<close>

record jfield =
  fname :: string
  ftype :: char
  fowned :: bool
  fval :: u64

record jobj =
  jmagic :: u64
  jcls :: string
  jfields :: "jfield list"

record jarr =
  aelem :: u64
  alen :: "32 word"

record jbytes =
  bmagic :: u64
  bdata :: u64
  blen :: u64

record jidtoken =
  tname :: string
  ttype :: char
  tsig :: string

datatype hobj =
    HObj jobj
  | HArr jarr
  | HBytes jbytes
  | HTok jidtoken
  | HStr string       \<comment> \<open>a NUL-terminated character buffer\<close>
  | HRaw bytes        \<comment> \<open>the data of a byte array\<close>
  | HVec "u64 list"   \<comment> \<open>the elements of an object array\<close>

definition JO_MAGIC :: u64 where "JO_MAGIC = 0x4a4f424a45435401"
definition JB_MAGIC :: u64 where "JB_MAGIC = 0x4a42595445530001"

record hmem =
  heap :: "u64 \<rightharpoonup> hobj"
  answers :: "u64 list"

subsection \<open>Allocation and access\<close>

definition malloc_blk :: "hobj \<Rightarrow> 'z hmem_scheme \<Rightarrow> u64 \<times> 'z hmem_scheme" where
  "malloc_blk b s = (case answers s of
       [] \<Rightarrow> (0, s)
     | a # as \<Rightarrow>
         if a = 0 \<or> heap s a \<noteq> None then (0, s\<lparr>answers := as\<rparr>)
         else (a, s\<lparr>answers := as, heap := (heap s)(a \<mapsto> b)\<rparr>))"

text \<open>An allocation that is released, or replaces an internal table, before any other
  block is allocated: only its success is visible.\<close>

definition malloc_tmp :: "'z hmem_scheme \<Rightarrow> bool \<times> 'z hmem_scheme" where
  "malloc_tmp s = (case answers s of
       [] \<Rightarrow> (False, s)
     | a # as \<Rightarrow> (a \<noteq> 0 \<and> heap s a = None, s\<lparr>answers := as\<rparr>))"

definition free_ptr :: "u64 \<Rightarrow> 'z hmem_scheme \<Rightarrow> 'z hmem_scheme option" where
  "free_ptr p s =
     (if p = 0 then Some s
      else case heap s p of
        None \<Rightarrow> None
      | Some _ \<Rightarrow> Some (s\<lparr>heap := (heap s)(p := None)\<rparr>))"

fun free_all :: "u64 list \<Rightarrow> 'z hmem_scheme \<Rightarrow> 'z hmem_scheme option" where
  "free_all [] s = Some s"
| "free_all (p # ps) s = do { s' \<leftarrow> free_ptr p s; free_all ps s' }"

definition put_blk :: "u64 \<Rightarrow> hobj \<Rightarrow> 'z hmem_scheme \<Rightarrow> 'z hmem_scheme" where
  "put_blk p b s = s\<lparr>heap := (heap s)(p \<mapsto> b)\<rparr>"

definition get_obj :: "u64 \<Rightarrow> 'z hmem_scheme \<Rightarrow> jobj option" where
  "get_obj p s = (case heap s p of Some (HObj ob) \<Rightarrow> Some ob | _ \<Rightarrow> None)"

definition get_arr :: "u64 \<Rightarrow> 'z hmem_scheme \<Rightarrow> jarr option" where
  "get_arr p s = (case heap s p of Some (HArr a) \<Rightarrow> Some a | _ \<Rightarrow> None)"

definition get_bytes :: "u64 \<Rightarrow> 'z hmem_scheme \<Rightarrow> jbytes option" where
  "get_bytes p s = (case heap s p of Some (HBytes b) \<Rightarrow> Some b | _ \<Rightarrow> None)"

definition get_str :: "u64 \<Rightarrow> 'z hmem_scheme \<Rightarrow> string option" where
  "get_str p s = (case heap s p of Some (HStr t) \<Rightarrow> Some t | _ \<Rightarrow> None)"

definition get_tok :: "u64 \<Rightarrow> 'z hmem_scheme \<Rightarrow> jidtoken option" where
  "get_tok p s = (case heap s p of Some (HTok t) \<Rightarrow> Some t | _ \<Rightarrow> None)"

subsection \<open>Fields of a fake object\<close>

text \<open>\<open>obj_get\<close>: the first field of that name.\<close>

definition obj_get :: "jobj \<Rightarrow> string \<Rightarrow> jfield option" where
  "obj_get ob name = find (\<lambda>f. fname f = name) (jfields ob)"

fun field_replace :: "jfield \<Rightarrow> jfield list \<Rightarrow> jfield list" where
  "field_replace g [] = []"
| "field_replace g (f # fs) =
     (if fname f = fname g then g # fs else f # field_replace g fs)"

text \<open>\<open>obj_setf\<close>: an existing field is replaced in place, releasing the string it owned; a
  new one is appended unless the 48 slots are used up, when the call is silently dropped.\<close>

definition obj_setf ::
    "u64 \<Rightarrow> string \<Rightarrow> char \<Rightarrow> u64 \<Rightarrow> bool \<Rightarrow> 'z hmem_scheme \<Rightarrow> 'z hmem_scheme option" where
  "obj_setf p name type v owned s =
     (if p = 0 then Some s
      else do {
        ob \<leftarrow> get_obj p s;
        let g = \<lparr>fname = name, ftype = type, fowned = owned, fval = v\<rparr>;
        case obj_get ob name of
          Some f \<Rightarrow> do {
            s1 \<leftarrow> (if ftype f = CHR ''s'' \<and> fowned f \<and> fval f \<noteq> v then free_ptr (fval f) s else Some s);
            Some (put_blk p (HObj (ob\<lparr>jfields := field_replace g (jfields ob)\<rparr>)) s1)
          }
        | None \<Rightarrow>
            if 48 \<le> length (jfields ob) then Some s
            else Some (put_blk p (HObj (ob\<lparr>jfields := jfields ob @ [g]\<rparr>)) s)
      })"

definition obj_set :: "u64 \<Rightarrow> string \<Rightarrow> char \<Rightarrow> u64 \<Rightarrow> 'z hmem_scheme \<Rightarrow> 'z hmem_scheme option" where
  "obj_set p name type v s = obj_setf p name type v False s"

text \<open>\<open>is_jobj\<close> reads the first word of the block: the magic of an object or a byte array,
  the element pointer of an object array (an address, never a magic).\<close>

definition is_jobj :: "u64 \<Rightarrow> 'z hmem_scheme \<Rightarrow> bool option" where
  "is_jobj p s =
     (if p = 0 then Some False
      else case heap s p of
        Some (HObj ob) \<Rightarrow> Some (jmagic ob = JO_MAGIC)
      | Some (HBytes b) \<Rightarrow> Some (bmagic b = JO_MAGIC)
      | Some (HArr a) \<Rightarrow> Some (aelem a = JO_MAGIC)
      | _ \<Rightarrow> None)"

subsection \<open>Ownership\<close>

text \<open>What releasing a block releases with it.\<close>

definition owns_string :: "jfield \<Rightarrow> bool" where
  "owns_string f \<longleftrightarrow> ftype f = CHR ''s'' \<and> fowned f \<and> fval f \<noteq> 0"

fun owned :: "hobj \<Rightarrow> u64 list" where
  "owned (HObj ob) = map fval (filter owns_string (jfields ob))"
| "owned (HArr a) = (if aelem a = 0 then [] else [aelem a])"
| "owned (HBytes b) = (if bdata b = 0 then [] else [bdata b])"
| "owned _ = []"

fun is_payload :: "hobj \<Rightarrow> bool" where
  "is_payload (HStr _) = True"
| "is_payload (HRaw _) = True"
| "is_payload (HVec _) = True"
| "is_payload _ = False"

fun shape_ok :: "hobj \<Rightarrow> bool" where
  "shape_ok (HObj ob) = (length (jfields ob) \<le> 48 \<and> distinct (map fname (jfields ob)))"
| "shape_ok _ = True"

definition footprint :: "(u64 \<rightharpoonup> hobj) \<Rightarrow> u64 \<Rightarrow> u64 set" where
  "footprint h p = (case h p of None \<Rightarrow> {} | Some b \<Rightarrow> insert p (set (owned b)))"

text \<open>The heap invariant: address 0 is never a block, objects keep to their 48 slots with one
  slot per name, and every owned buffer is a live payload block with exactly one owner.\<close>

definition heap_ok :: "(u64 \<rightharpoonup> hobj) \<Rightarrow> bool" where
  "heap_ok h \<longleftrightarrow>
     h 0 = None \<and>
     (\<forall>p b. h p = Some b \<longrightarrow>
        shape_ok b \<and> distinct (owned b) \<and>
        (\<forall>q \<in> set (owned b). \<exists>c. h q = Some c \<and> is_payload c)) \<and>
     (\<forall>p p' b b'. h p = Some b \<longrightarrow> h p' = Some b' \<longrightarrow> p \<noteq> p' \<longrightarrow>
        set (owned b) \<inter> set (owned b') = {})"

subsection \<open>Basic facts\<close>

lemma get_obj_Some [simp]: "get_obj p s = Some ob \<longleftrightarrow> heap s p = Some (HObj ob)"
  by (auto simp: get_obj_def split: option.splits hobj.splits)

lemma get_arr_Some [simp]: "get_arr p s = Some a \<longleftrightarrow> heap s p = Some (HArr a)"
  by (auto simp: get_arr_def split: option.splits hobj.splits)

lemma get_bytes_Some [simp]: "get_bytes p s = Some b \<longleftrightarrow> heap s p = Some (HBytes b)"
  by (auto simp: get_bytes_def split: option.splits hobj.splits)

lemma get_str_Some [simp]: "get_str p s = Some t \<longleftrightarrow> heap s p = Some (HStr t)"
  by (auto simp: get_str_def split: option.splits hobj.splits)

lemma get_tok_Some [simp]: "get_tok p s = Some t \<longleftrightarrow> heap s p = Some (HTok t)"
  by (auto simp: get_tok_def split: option.splits hobj.splits)

lemma heap_put_blk [simp]: "heap (put_blk p b s) = (heap s)(p \<mapsto> b)"
  by (simp add: put_blk_def)

lemma malloc_blk_cases:
  assumes "malloc_blk b s = (p, s')"
  obtains (fail) "p = 0" "heap s' = heap s"
  | (ok) "p \<noteq> 0" "heap s p = None" "heap s' = (heap s)(p \<mapsto> b)"
proof (cases "answers s")
  case Nil
  with assms show thesis by (intro fail) (auto simp: malloc_blk_def)
next
  case (Cons a as)
  show thesis
  proof (cases "a = 0 \<or> heap s a \<noteq> None")
    case True
    with Cons assms show thesis by (intro fail) (auto simp: malloc_blk_def split: if_splits)
  next
    case False
    with Cons assms show thesis by (intro ok) (auto simp: malloc_blk_def split: if_splits)
  qed
qed

lemma heap_malloc_tmp [simp]: "heap (snd (malloc_tmp s)) = heap s"
  by (simp add: malloc_tmp_def split: list.splits)

lemma malloc_tmp_ex: "\<exists>as. snd (malloc_tmp s) = s\<lparr>answers := as\<rparr>"
proof (cases "answers s")
  case Nil
  then have "snd (malloc_tmp s) = s\<lparr>answers := []\<rparr>" by (simp add: malloc_tmp_def)
  then show ?thesis ..
next
  case (Cons a as)
  then have "snd (malloc_tmp s) = s\<lparr>answers := as\<rparr>" by (simp add: malloc_tmp_def)
  then show ?thesis ..
qed

lemma malloc_tmp_ok: "fst (malloc_tmp s) \<Longrightarrow> \<exists>as. malloc_tmp s = (True, s\<lparr>answers := as\<rparr>)"
  using malloc_tmp_ex [of s] by (cases "malloc_tmp s") auto

lemma free_ptr_live: "heap s p = Some b \<Longrightarrow> p \<noteq> 0 \<Longrightarrow> free_ptr p s = Some (s\<lparr>heap := (heap s)(p := None)\<rparr>)"
  by (simp add: free_ptr_def)

lemma free_ptr_zero [simp]: "free_ptr 0 s = Some s"
  by (simp add: free_ptr_def)

text \<open>Freeing a list of distinct live blocks (null pointers are skipped) succeeds and removes
  exactly them.\<close>

lemma free_all_live:
  assumes "distinct (filter (\<lambda>p. p \<noteq> 0) ps)" and "\<forall>p \<in> set ps. p = 0 \<or> heap s p \<noteq> None"
  shows "free_all ps s = Some (s\<lparr>heap := heap s |` (- (set ps - {0}))\<rparr>)"
  using assms
proof (induction ps arbitrary: s)
  case Nil
  show ?case by simp
next
  case (Cons p ps)
  show ?case
  proof (cases "p = 0")
    case True
    with Cons show ?thesis by (auto simp: insert_Diff_if)
  next
    case False
    with Cons.prems obtain b where b: "heap s p = Some b" by auto
    let ?s = "s\<lparr>heap := (heap s)(p := None)\<rparr>"
    from Cons.prems False have "p \<notin> set ps" and "distinct (filter (\<lambda>p. p \<noteq> 0) ps)" by auto
    with Cons.prems have "free_all ps ?s = Some (?s\<lparr>heap := heap ?s |` (- (set ps - {0}))\<rparr>)"
      by (intro Cons.IH) auto
    moreover have "heap ?s |` (- (set ps - {0})) = heap s |` (- (set (p # ps) - {0}))"
      using False by (auto simp: restrict_map_def fun_eq_iff)
    ultimately show ?thesis
      using b False by (simp add: free_ptr_live)
  qed
qed

lemma obj_get_Some: "obj_get ob name = Some f \<Longrightarrow> f \<in> set (jfields ob) \<and> fname f = name"
  by (auto simp: obj_get_def dest: find_Some_set)

lemma obj_get_None: "obj_get ob name = None \<longleftrightarrow> name \<notin> fname ` set (jfields ob)"
  by (auto simp: obj_get_def find_None_set)

lemma map_fname_field_replace [simp]: "map fname (field_replace g fs) = map fname fs"
  by (induction fs) auto

lemma length_field_replace [simp]: "length (field_replace g fs) = length fs"
  by (induction fs) auto

lemma find_field_replace:
  "fname g \<in> fname ` set fs \<Longrightarrow>
   find (\<lambda>f. fname f = name) (field_replace g fs) =
     (if name = fname g then Some g else find (\<lambda>f. fname f = name) fs)"
  by (induction fs) auto

lemma find_field_append:
  "fname g \<notin> fname ` set fs \<Longrightarrow>
   find (\<lambda>f. fname f = name) (fs @ [g]) =
     (if name = fname g then Some g else find (\<lambda>f. fname f = name) fs)"
  by (induction fs) auto

subsection \<open>The heap invariant under the field operations\<close>

lemma heap_okI:
  assumes "h 0 = None"
    and "\<And>p b. h p = Some b \<Longrightarrow> shape_ok b"
    and "\<And>p b. h p = Some b \<Longrightarrow> distinct (owned b)"
    and "\<And>p b q. h p = Some b \<Longrightarrow> q \<in> set (owned b) \<Longrightarrow> \<exists>c. h q = Some c \<and> is_payload c"
    and "\<And>p p' b b'. h p = Some b \<Longrightarrow> h p' = Some b' \<Longrightarrow> p \<noteq> p' \<Longrightarrow>
           set (owned b) \<inter> set (owned b') = {}"
  shows "heap_ok h"
  unfolding heap_ok_def using assms by (intro conjI allI impI ballI) blast+

lemma heap_okD:
  assumes "heap_ok h"
  shows "h 0 = None"
    and "h p = Some b \<Longrightarrow> shape_ok b"
    and "h p = Some b \<Longrightarrow> distinct (owned b)"
    and "h p = Some b \<Longrightarrow> q \<in> set (owned b) \<Longrightarrow> \<exists>c. h q = Some c \<and> is_payload c"
    and "h p = Some b \<Longrightarrow> h p' = Some b' \<Longrightarrow> p \<noteq> p' \<Longrightarrow> set (owned b) \<inter> set (owned b') = {}"
  using assms unfolding heap_ok_def by blast+

lemma owned_payload_nil [simp]: "is_payload b \<Longrightarrow> owned b = []"
  by (cases b) auto

lemma owned_nonzero: "0 \<notin> set (owned b)"
  by (cases b) (auto simp: owns_string_def)

text \<open>Replacing one block by another of the same kind of role keeps the invariant, when the new
  block's owned buffers are live payloads that no other block owns.\<close>

lemma heap_ok_update:
  assumes ok: "heap_ok h" and p: "p \<noteq> 0"
    and old: "\<And>b0. h p = Some b0 \<Longrightarrow> \<not> is_payload b0"
    and new: "shape_ok b" "distinct (owned b)"
    and live: "\<And>q. q \<in> set (owned b) \<Longrightarrow> \<exists>c. h q = Some c \<and> is_payload c"
    and own: "\<And>p' b'. h p' = Some b' \<Longrightarrow> p' \<noteq> p \<Longrightarrow> set (owned b) \<inter> set (owned b') = {}"
  shows "heap_ok (h(p \<mapsto> b))"
proof (rule heap_okI)
  show "(h(p \<mapsto> b)) 0 = None" using heap_okD(1) [OF ok] p by simp
next
  fix p' b' assume "(h(p \<mapsto> b)) p' = Some b'"
  then show "shape_ok b'" and "distinct (owned b')"
    using new heap_okD(2,3) [OF ok] by (auto split: if_splits)
next
  fix p' b' q assume *: "(h(p \<mapsto> b)) p' = Some b'" and q: "q \<in> set (owned b')"
  from * have "b' = b \<or> h p' = Some b'" by (auto split: if_splits)
  with live q heap_okD(4) [OF ok] obtain c where c: "h q = Some c" "is_payload c" by blast
  with old have "q \<noteq> p" by blast
  with c show "\<exists>c. (h(p \<mapsto> b)) q = Some c \<and> is_payload c" by auto
next
  fix p1 p2 b1 b2
  assume "(h(p \<mapsto> b)) p1 = Some b1" and "(h(p \<mapsto> b)) p2 = Some b2" and "p1 \<noteq> p2"
  then show "set (owned b1) \<inter> set (owned b2) = {}"
    using own heap_okD(5) [OF ok] by (fastforce split: if_splits)
qed

text \<open>A block may be dropped together with what it owns, or alone when it owns nothing and is
  owned by nobody.\<close>

lemma heap_ok_restrict:
  assumes ok: "heap_ok h"
    and closed: "\<And>p b q. h p = Some b \<Longrightarrow> p \<notin> D \<Longrightarrow> q \<in> set (owned b) \<Longrightarrow> q \<notin> D"
  shows "heap_ok (h |` (- D))"
proof (rule heap_okI)
  show "(h |` (- D)) 0 = None" using heap_okD(1) [OF ok] by (simp add: restrict_map_def)
next
  fix p b assume "(h |` (- D)) p = Some b"
  then show "shape_ok b" and "distinct (owned b)"
    using heap_okD(2,3) [OF ok] by (auto simp: restrict_map_def split: if_splits)
next
  fix p b q assume "(h |` (- D)) p = Some b" and q: "q \<in> set (owned b)"
  then have p: "h p = Some b" "p \<notin> D" by (auto simp: restrict_map_def split: if_splits)
  with closed q have "q \<notin> D" by blast
  with heap_okD(4) [OF ok p(1) q] show "\<exists>c. (h |` (- D)) q = Some c \<and> is_payload c"
    by (auto simp: restrict_map_def)
next
  fix p p' b b' assume "(h |` (- D)) p = Some b" and "(h |` (- D)) p' = Some b'" and "p \<noteq> p'"
  then show "set (owned b) \<inter> set (owned b') = {}"
    using heap_okD(5) [OF ok] by (auto simp: restrict_map_def split: if_splits)
qed

lemma heap_ok_drop_footprint:
  assumes ok: "heap_ok h" and p: "h p = Some b" and np: "\<not> is_payload b"
  shows "heap_ok (h |` (- footprint h p))"
proof (rule heap_ok_restrict [OF ok])
  fix p' b' q assume p': "h p' = Some b'" and n: "p' \<notin> footprint h p" and q: "q \<in> set (owned b')"
  from p n have "p' \<noteq> p" by (auto simp: footprint_def)
  with heap_okD(5) [OF ok p' p] q have "q \<notin> set (owned b)" by auto
  moreover from heap_okD(4) [OF ok p' q] p np have "q \<noteq> p" by auto
  ultimately show "q \<notin> footprint h p" using p by (simp add: footprint_def)
qed

lemma owned_field_replace:
  assumes "distinct (map fval (filter owns_string fs))" and "distinct (map fname fs)"
    and "\<not> owns_string g"
  shows "distinct (map fval (filter owns_string (field_replace g fs)))
    \<and> set (map fval (filter owns_string (field_replace g fs)))
        = set (map fval (filter owns_string (filter (\<lambda>f. fname f \<noteq> fname g) fs)))"
  using assms
proof (induction fs)
  case Nil
  show ?case by simp
next
  case (Cons f fs)
  show ?case
  proof (cases "fname f = fname g")
    case True
    with Cons.prems(2) have "filter (\<lambda>f. fname f \<noteq> fname g) fs = fs"
      by (simp add: filter_id_conv) (metis imageI)
    with True Cons.prems show ?thesis by (auto split: if_splits)
  next
    case False
    with Cons show ?thesis by (auto split: if_splits)
  qed
qed

text \<open>The fields after an \<open>obj_setf\<close> that is not dropped.\<close>

definition set_fields :: "jobj \<Rightarrow> jfield \<Rightarrow> jobj" where
  "set_fields ob g =
     ob\<lparr>jfields := (if obj_get ob (fname g) = None then jfields ob @ [g] else field_replace g (jfields ob))\<rparr>"

lemma obj_get_set_fields:
  "obj_get (set_fields ob g) name = (if name = fname g then Some g else obj_get ob name)"
proof (cases "obj_get ob (fname g) = None")
  case True
  then show ?thesis
    using find_field_append [of g "jfields ob" name] obj_get_None [of ob "fname g"]
    by (simp add: set_fields_def obj_get_def)
next
  case False
  then have "fname g \<in> fname ` set (jfields ob)" using obj_get_None [of ob "fname g"] by simp
  with False show ?thesis
    using find_field_replace [of g "jfields ob" name] by (auto simp: set_fields_def obj_get_def)
qed

definition room_for :: "jobj \<Rightarrow> string \<Rightarrow> bool" where
  "room_for ob name \<longleftrightarrow> obj_get ob name \<noteq> None \<or> length (jfields ob) < 48"

lemma shape_ok_set_fields:
  assumes "shape_ok (HObj ob)" and "room_for ob (fname g)"
  shows "shape_ok (HObj (set_fields ob g))"
  using assms obj_get_None [of ob "fname g"] by (auto simp: set_fields_def room_for_def)

text \<open>What an unowned \<open>obj_setf\<close> releases: the string the replaced field owned, unless the
  new value is that very pointer.\<close>

definition released_by_set :: "jobj \<Rightarrow> string \<Rightarrow> u64 \<Rightarrow> u64 set" where
  "released_by_set ob name v = (case obj_get ob name of
       None \<Rightarrow> {}
     | Some f \<Rightarrow> if owns_string f \<and> fval f \<noteq> v then {fval f} else {})"

lemma owned_set_fields:
  assumes sh: "shape_ok (HObj ob)" and d: "distinct (owned (HObj ob))" and g: "\<not> owns_string g"
  shows "distinct (owned (HObj (set_fields ob g)))"
    and "set (owned (HObj (set_fields ob g))) \<subseteq> set (owned (HObj ob))"
    and "set (owned (HObj (set_fields ob g))) \<inter> released_by_set ob (fname g) v = {}"
proof -
  show "distinct (owned (HObj (set_fields ob g)))"
    using d g sh owned_field_replace [of "jfields ob" g] by (simp add: set_fields_def)
  show "set (owned (HObj (set_fields ob g))) \<subseteq> set (owned (HObj ob))"
    using d g sh owned_field_replace [of "jfields ob" g] by (auto simp: set_fields_def)
  show "set (owned (HObj (set_fields ob g))) \<inter> released_by_set ob (fname g) v = {}"
  proof (cases "obj_get ob (fname g)")
    case None
    then show ?thesis by (simp add: released_by_set_def)
  next
    case (Some f)
    then have f: "f \<in> set (jfields ob)" "fname f = fname g" by (auto dest: obj_get_Some)
    have "fval f \<notin> set (owned (HObj (set_fields ob g)))" if "owns_string f"
    proof
      assume "fval f \<in> set (owned (HObj (set_fields ob g)))"
      with Some d g sh obtain f' where f': "f' \<in> set (jfields ob)" "owns_string f'"
        "fname f' \<noteq> fname g" "fval f' = fval f"
        using owned_field_replace [of "jfields ob" g] by (auto simp: set_fields_def)
      with d f that have "f' = f" by (auto simp: distinct_map inj_on_def)
      with f f' show False by simp
    qed
    with Some show ?thesis by (auto simp: released_by_set_def)
  qed
qed

text \<open>An unowned store into a live object never faults; it sets exactly that field, releases
  exactly the string the field owned, and keeps the heap invariant.\<close>

lemma obj_set_effect:
  assumes ok: "heap_ok (heap s)" and p: "heap s p = Some (HObj ob)" and room: "room_for ob name"
  shows "obj_set p name type v s =
      Some (s\<lparr>heap := (heap s |` (- released_by_set ob name v))(p \<mapsto>
               HObj (set_fields ob \<lparr>fname = name, ftype = type, fowned = False, fval = v\<rparr>))\<rparr>)"
proof -
  from ok p have p0: "p \<noteq> 0" using heap_okD(1) by fastforce
  have np: "p \<notin> released_by_set ob name v"
  proof
    assume "p \<in> released_by_set ob name v"
    then obtain f where "obj_get ob name = Some f" "owns_string f" "fval f = p"
      by (auto simp: released_by_set_def split: option.splits if_splits)
    then have "p \<in> set (owned (HObj ob))" by (auto dest!: obj_get_Some)
    with heap_okD(4) [OF ok p] p show False by fastforce
  qed
  show ?thesis
  proof (cases "obj_get ob name")
    case None
    with p p0 room show ?thesis
      by (auto simp: obj_set_def obj_setf_def put_blk_def set_fields_def released_by_set_def
          room_for_def fun_eq_iff)
  next
    case (Some f)
    then have f: "f \<in> set (jfields ob)" by (auto dest: obj_get_Some)
    have "\<exists>c. heap s (fval f) = Some c" if "owns_string f"
      using heap_okD(4) [OF ok p, of "fval f"] f that by auto
    with Some p p0 np show ?thesis
      by (auto simp: obj_set_def obj_setf_def put_blk_def set_fields_def released_by_set_def
          owns_string_def free_ptr_def restrict_map_def fun_eq_iff intro!: arg_cong [of _ _ Some])
  qed
qed

lemma obj_set_full:
  "heap s p = Some (HObj ob) \<Longrightarrow> p \<noteq> 0 \<Longrightarrow> \<not> room_for ob name \<Longrightarrow> obj_set p name type v s = Some s"
  by (simp add: obj_set_def obj_setf_def room_for_def)

lemma heap_ok_obj_set:
  assumes ok: "heap_ok (heap s)" and p: "heap s p = Some (HObj ob)" and room: "room_for ob name"
    and g: "g = \<lparr>fname = name, ftype = type, fowned = False, fval = v\<rparr>"
  shows "heap_ok ((heap s |` (- released_by_set ob name v))(p \<mapsto> HObj (set_fields ob g)))"
proof -
  let ?D = "released_by_set ob name v" and ?b = "HObj (set_fields ob g)"
  have ng: "\<not> owns_string g" and gn: "fname g = name" by (auto simp: g owns_string_def)
  note ow12 = owned_set_fields(1,2) [OF heap_okD(2,3) [OF ok p] ng]
  note ow3 = owned_set_fields(3) [OF heap_okD(2,3) [OF ok p] ng, of v, unfolded gn]
  have D: "?D \<subseteq> set (owned (HObj ob))"
    by (auto simp: released_by_set_def split: option.splits dest!: obj_get_Some)
  let ?h = "(heap s)(p \<mapsto> ?b)"
  have 1: "heap_ok ?h"
  proof (rule heap_ok_update [OF ok])
    show "p \<noteq> 0" using ok p heap_okD(1) by fastforce
    show "shape_ok ?b" using shape_ok_set_fields [of ob g] heap_okD(2) [OF ok p] room gn by simp
    show "distinct (owned ?b)" by (rule ow12(1))
  next
    fix q assume "q \<in> set (owned ?b)"
    with ow12(2) heap_okD(4) [OF ok p] show "\<exists>c. heap s q = Some c \<and> is_payload c" by blast
  next
    fix p' b' assume "heap s p' = Some b'" and "p' \<noteq> p"
    with ow12(2) heap_okD(5) [OF ok p] show "set (owned ?b) \<inter> set (owned b') = {}" by blast
  qed (use p in auto)
  have "heap_ok (?h |` (- ?D))"
  proof (rule heap_ok_restrict [OF 1])
    fix p' b' q assume *: "?h p' = Some b'" and q: "q \<in> set (owned b')"
    show "q \<notin> ?D"
    proof (cases "p' = p")
      case True
      with * q ow3 show ?thesis by auto
    next
      case False
      with * q D heap_okD(5) [OF ok p, of p' b'] show ?thesis by auto
    qed
  qed
  moreover have "p \<notin> ?D" using D heap_okD(4) [OF ok p] p by fastforce
  then have "?h |` (- ?D) = (heap s |` (- ?D))(p \<mapsto> ?b)" by (auto simp: restrict_map_def)
  ultimately show ?thesis by simp
qed

subsection \<open>Checking concrete heaps\<close>

text \<open>An executable check of the heap invariant for a heap given by its blocks.\<close>

definition heap_chk :: "(u64 \<times> hobj) list \<Rightarrow> bool" where
  "heap_chk xs \<longleftrightarrow>
     distinct (map fst xs) \<and> 0 \<notin> set (map fst xs) \<and> list_all (shape_ok \<circ> snd) xs \<and>
     distinct (concat (map (owned \<circ> snd) xs)) \<and>
     list_all (\<lambda>q. case map_of xs q of None \<Rightarrow> False | Some b \<Rightarrow> is_payload b)
       (concat (map (owned \<circ> snd) xs))"

lemma distinct_concat_disjoint:
  "distinct (concat (map f xs)) \<Longrightarrow> x \<in> set xs \<Longrightarrow> y \<in> set xs \<Longrightarrow> x \<noteq> y \<Longrightarrow> set (f x) \<inter> set (f y) = {}"
  by (induction xs) fastforce+

lemma distinct_concat_each: "distinct (concat (map f xs)) \<Longrightarrow> x \<in> set xs \<Longrightarrow> distinct (f x)"
  by (induction xs) auto

lemma heap_ok_chk:
  assumes "heap_chk xs"
  shows "heap_ok (map_of xs)"
proof (rule heap_okI)
  have d: "distinct (concat (map (owned \<circ> snd) xs))" using assms by (simp add: heap_chk_def)
  show "map_of xs 0 = None" using assms by (auto simp: heap_chk_def map_of_eq_None_iff)
  fix p b assume p: "map_of xs p = Some b"
  then have in_xs: "(p, b) \<in> set xs" by (rule map_of_SomeD)
  then show "shape_ok b" using assms by (auto simp: heap_chk_def list_all_iff)
  show "distinct (owned b)" using distinct_concat_each [OF d in_xs] by simp
  show "\<exists>c. map_of xs q = Some c \<and> is_payload c" if "q \<in> set (owned b)" for q
  proof -
    from that in_xs have "q \<in> set (concat (map (owned \<circ> snd) xs))" by force
    with assms have "case map_of xs q of None \<Rightarrow> False | Some b \<Rightarrow> is_payload b"
      by (simp only: heap_chk_def list_all_iff)
    then show ?thesis by (auto split: option.splits)
  qed
  show "set (owned b) \<inter> set (owned b') = {}" if "map_of xs p' = Some b'" and "p \<noteq> p'" for p' b'
    using distinct_concat_disjoint [OF d in_xs map_of_SomeD [OF that(1)]] that(2) by simp
qed

end
