(* ===== verification/Registry.thy ===== *)
theory Registry
  imports Harness_Heap
begin

text \<open>
  The registry of the harness (\<open>g_reg\<close> in \<open>harness/jinterop.c\<close>): every heap object the fake
  JNI environment hands out is registered with its creation time and a pin count; objects
  are released explicitly (\<open>reg_release\<close>) or by the grace-period sweep (\<open>reg_sweep\<close>). The
  array is modelled as an array: \<open>slots\<close> are the entries written so far, of which the first
  \<open>regn\<close> are in use, so that stale slots behind \<open>regn\<close> are visible to the model.
\<close>

datatype rkind = R_JOBJ | R_JARR | R_JBYTES

record rent =
  rp :: u64
  rk :: rkind
  rt :: int
  rpin :: int

record hreg = hmem +
  clk :: int
  slots :: "rent list"
  regn :: nat
  regcap :: nat
  keep_from :: nat
  gc_grace :: int
  gc_off :: bool
  gc_freed :: nat
  pin_calls :: int
  last_bytes :: u64

subsection \<open>Operations\<close>

definition write_slot :: "nat \<Rightarrow> rent \<Rightarrow> rent list \<Rightarrow> rent list" where
  "write_slot i e xs = (if i < length xs then xs[i := e] else xs @ [e])"

text \<open>\<open>reg_add\<close>: the array doubles when full; if it cannot grow, the object stays
  unregistered.\<close>

definition reg_add :: "u64 \<Rightarrow> rkind \<Rightarrow> 'z hreg_scheme \<Rightarrow> 'z hreg_scheme" where
  "reg_add p k s =
     (if p = 0 then s
      else
        let (ok, s1) =
          (if regn s = regcap s
           then let nc = (if regcap s = 0 then 4096 else regcap s * 2); (ok, s') = malloc_tmp s
                in (ok, if ok then s'\<lparr>regcap := nc\<rparr> else s')
           else (True, s))
        in if \<not> ok then s1
           else s1\<lparr>slots := write_slot (regn s1) \<lparr>rp = p, rk = k, rt = clk s1, rpin = 0\<rparr> (slots s1),
                   regn := Suc (regn s1)\<rparr>)"

definition active :: "'z hreg_scheme \<Rightarrow> rent list" where
  "active s = take (regn s) (slots s)"

fun find_index_from :: "nat \<Rightarrow> u64 \<Rightarrow> rent list \<Rightarrow> nat option" where
  "find_index_from i p [] = None"
| "find_index_from i p (e # es) = (if rp e = p then Some i else find_index_from (Suc i) p es)"

definition reg_find_locked :: "u64 \<Rightarrow> 'z hreg_scheme \<Rightarrow> nat option" where
  "reg_find_locked p s = find_index_from 0 p (active s)"

definition reg_pin :: "u64 \<Rightarrow> int \<Rightarrow> 'z hreg_scheme \<Rightarrow> 'z hreg_scheme" where
  "reg_pin p delta s =
     (if p = 0 then s
      else
        let s1 = (if delta > 0 then s\<lparr>pin_calls := pin_calls s + delta\<rparr> else s) in
        case reg_find_locked p s1 of
          None \<Rightarrow> s1
        | Some i \<Rightarrow>
            let e = slots s1 ! i; n = rpin e + delta
            in s1\<lparr>slots := (slots s1)[i := e\<lparr>rpin := (if n < 0 then 0 else n)\<rparr>]\<rparr>)"

text \<open>\<open>reg_free_obj\<close>: an object with the strings it owns, a byte array with its data (and the
  pointer to the most recent byte array reset), an object array with its elements.\<close>

definition reg_free_obj :: "rent \<Rightarrow> 'z hreg_scheme \<Rightarrow> 'z hreg_scheme option" where
  "reg_free_obj e s = (case rk e of
       R_JOBJ \<Rightarrow> do {
         ob \<leftarrow> get_obj (rp e) s;
         s1 \<leftarrow> free_all (map fval (filter (\<lambda>f. ftype f = CHR ''s'' \<and> fowned f) (jfields ob))) s;
         free_ptr (rp e) s1
       }
     | R_JBYTES \<Rightarrow> do {
         b \<leftarrow> get_bytes (rp e) s;
         let s1 = (if rp e = last_bytes s then s\<lparr>last_bytes := 0\<rparr> else s);
         s2 \<leftarrow> free_ptr (bdata b) s1;
         free_ptr (rp e) s2
       }
     | R_JARR \<Rightarrow> do {
         a \<leftarrow> get_arr (rp e) s;
         s1 \<leftarrow> free_ptr (aelem a) s;
         free_ptr (rp e) s1
       })"

fun free_ents :: "rent list \<Rightarrow> 'z hreg_scheme \<Rightarrow> 'z hreg_scheme option" where
  "free_ents [] s = Some s"
| "free_ents (e # es) s = do { s1 \<leftarrow> reg_free_obj e s; free_ents es s1 }"

text \<open>\<open>reg_release\<close>: the released slot takes the last entry.\<close>

definition reg_release :: "u64 \<Rightarrow> 'z hreg_scheme \<Rightarrow> (bool \<times> 'z hreg_scheme) option" where
  "reg_release p s =
     (if p = 0 then Some (False, s)
      else case reg_find_locked p s of
        None \<Rightarrow> Some (False, s)
      | Some i \<Rightarrow>
          if rpin (slots s ! i) \<noteq> 0 then Some (False, s)
          else do {
            let e = slots s ! i;
            let s1 = s\<lparr>slots := (slots s)[i := slots s ! (regn s - 1)], regn := regn s - 1\<rparr>;
            s2 \<leftarrow> reg_free_obj e s1;
            Some (True, s2\<lparr>gc_freed := gc_freed s2 + 1\<rparr>)
          })"

definition expired :: "int \<Rightarrow> int \<Rightarrow> rent \<Rightarrow> bool" where
  "expired now grace e \<longleftrightarrow> rpin e = 0 \<and> now - rt e \<ge> grace"

text \<open>The compaction loop of \<open>reg_sweep\<close>, over the array it rewrites in place: \<open>i\<close> reads,
  \<open>w\<close> writes, \<open>k\<close> entries are left.\<close>

fun sweep_loop ::
    "int \<Rightarrow> int \<Rightarrow> nat \<Rightarrow> nat \<Rightarrow> nat \<Rightarrow> rent list \<Rightarrow> rent list \<Rightarrow> nat \<times> rent list \<times> rent list" where
  "sweep_loop now grace 0 i w xs dead = (w, xs, dead)"
| "sweep_loop now grace (Suc k) i w xs dead =
     (let e = xs ! i in
      if expired now grace e then sweep_loop now grace k (Suc i) w xs (dead @ [e])
      else sweep_loop now grace k (Suc i) (Suc w) (xs[w := e]) dead)"

definition reg_sweep :: "'z hreg_scheme \<Rightarrow> 'z hreg_scheme option" where
  "reg_sweep s =
     (if gc_off s then Some s
      else
        let (ok, s1) = malloc_tmp s in
        if \<not> ok then Some s1
        else
          let (w, xs, dead) =
            sweep_loop (clk s1) (gc_grace s1) (regn s1 - keep_from s1) (keep_from s1) (keep_from s1) (slots s1) []
          in do {
            s2 \<leftarrow> free_ents dead (s1\<lparr>slots := xs, regn := w\<rparr>);
            Some (s2\<lparr>gc_freed := gc_freed s2 + length dead\<rparr>)
          })"

subsection \<open>The registry invariant\<close>

fun kind_of :: "hobj \<Rightarrow> rkind option" where
  "kind_of (HObj _) = Some R_JOBJ"
| "kind_of (HArr _) = Some R_JARR"
| "kind_of (HBytes _) = Some R_JBYTES"
| "kind_of _ = None"

definition ent_live :: "(u64 \<rightharpoonup> hobj) \<Rightarrow> rent \<Rightarrow> bool" where
  "ent_live h e \<longleftrightarrow> (\<exists>b. h (rp e) = Some b \<and> kind_of b = Some (rk e))"

text \<open>Entries in use are distinct live blocks of the kind they say, pin counts are not
  negative, and the permanent prefix is inside the part in use.\<close>

definition reg_ok :: "'z hreg_scheme \<Rightarrow> bool" where
  "reg_ok s \<longleftrightarrow>
     heap_ok (heap s) \<and>
     keep_from s \<le> regn s \<and> regn s \<le> length (slots s) \<and> length (slots s) \<le> regcap s \<and>
     distinct (map rp (active s)) \<and>
     (\<forall>e \<in> set (active s). ent_live (heap s) e \<and> 0 \<le> rpin e)"

definition registered :: "'z hreg_scheme \<Rightarrow> u64 set" where
  "registered s = rp ` set (active s)"

lemma reg_okD:
  assumes "reg_ok s"
  shows "heap_ok (heap s)" "keep_from s \<le> regn s" "regn s \<le> length (slots s)"
    "length (slots s) \<le> regcap s" "distinct (map rp (active s))"
    "e \<in> set (active s) \<Longrightarrow> ent_live (heap s) e" "e \<in> set (active s) \<Longrightarrow> 0 \<le> rpin e"
  using assms by (auto simp: reg_ok_def)

subsection \<open>Releasing entries\<close>

lemma kind_not_payload: "kind_of b = Some k \<Longrightarrow> \<not> is_payload b"
  by (cases b) auto

lemma filter_owned_slots:
  "filter (\<lambda>p. p \<noteq> 0) (map fval (filter (\<lambda>f. ftype f = CHR ''s'' \<and> fowned f) fs)) =
   map fval (filter owns_string fs)"
  by (induction fs) (auto simp: owns_string_def)

lemma set_owned_slots:
  "set (map fval (filter (\<lambda>f. ftype f = CHR ''s'' \<and> fowned f) fs)) - {0} =
   set (map fval (filter owns_string fs))"
  by (auto simp: owns_string_def)

lemma reg_free_obj_live:
  assumes ok: "heap_ok (heap s)" and e: "ent_live (heap s) e"
  shows "\<exists>lb. reg_free_obj e s =
           Some (s\<lparr>heap := heap s |` (- footprint (heap s) (rp e)), last_bytes := lb\<rparr>)
         \<and> lb \<in> {last_bytes s, 0}"
proof -
  from e obtain b where b: "heap s (rp e) = Some b" "kind_of b = Some (rk e)"
    by (auto simp: ent_live_def)
  then have np: "\<not> is_payload b" and p0: "rp e \<noteq> 0"
    using kind_not_payload heap_okD(1) [OF ok] by auto
  have lv: "q \<in> set (owned b) \<Longrightarrow> (\<exists>c. heap s q = Some c) \<and> q \<noteq> rp e" for q
    using heap_okD(4) [OF ok b(1)] b np by fastforce
  show ?thesis
  proof (cases b)
    case (HObj ob)
    let ?ps = "map fval (filter (\<lambda>f. ftype f = CHR ''s'' \<and> fowned f) (jfields ob))"
    have fa: "free_all ?ps s = Some (s\<lparr>heap := heap s |` (- (set ?ps - {0}))\<rparr>)"
    proof (rule free_all_live)
      show "distinct (filter (\<lambda>p. p \<noteq> 0) ?ps)"
        using heap_okD(3) [OF ok b(1)] HObj by (simp only: filter_owned_slots owned.simps)
      have "set ?ps - {0} = set (owned b)" using HObj by (simp only: set_owned_slots owned.simps)
      then show "\<forall>p \<in> set ?ps. p = 0 \<or> heap s p \<noteq> None" using lv by blast
    qed
    have own: "set ?ps - {0} = set (owned b)" using HObj by (simp only: set_owned_slots owned.simps)
    let ?s1 = "s\<lparr>heap := heap s |` (- set (owned b))\<rparr>"
    have "heap ?s1 (rp e) = Some b" using b lv by (auto simp: restrict_map_def)
    then have fp: "free_ptr (rp e) ?s1 = Some (?s1\<lparr>heap := (heap ?s1)(rp e := None)\<rparr>)"
      using p0 by (rule free_ptr_live)
    have fin: "(heap ?s1)(rp e := None) = heap s |` (- footprint (heap s) (rp e))"
      using b by (auto simp: footprint_def restrict_map_def fun_eq_iff)
    from HObj b have rk: "rk e = R_JOBJ" by simp
    have "get_obj (rp e) s = Some ob" using b HObj by simp
    then have "reg_free_obj e s = free_ptr (rp e) ?s1"
      by (simp only: reg_free_obj_def rk rkind.case Option.bind.simps fa own)
    also have "\<dots> = Some (s\<lparr>heap := heap s |` (- footprint (heap s) (rp e))\<rparr>)"
      unfolding fp fin by simp
    finally have "reg_free_obj e s =
      Some (s\<lparr>heap := heap s |` (- footprint (heap s) (rp e)), last_bytes := last_bytes s\<rparr>)"
      by simp
    then show ?thesis by blast
  next
    case (HArr a)
    from HArr b have rk: "rk e = R_JARR" by simp
    have "reg_free_obj e s =
      Some (s\<lparr>heap := heap s |` (- footprint (heap s) (rp e)), last_bytes := last_bytes s\<rparr>)"
      unfolding reg_free_obj_def using rk HArr b p0 lv
      by (auto simp: free_ptr_def footprint_def restrict_map_def fun_eq_iff intro!: arg_cong [of _ _ Some])
    then show ?thesis by blast
  next
    case (HBytes c)
    from HBytes b have rk: "rk e = R_JBYTES" by simp
    have "reg_free_obj e s = Some (s\<lparr>heap := heap s |` (- footprint (heap s) (rp e)),
       last_bytes := (if rp e = last_bytes s then 0 else last_bytes s)\<rparr>)"
      unfolding reg_free_obj_def using rk HBytes b p0 lv
      by (auto simp: free_ptr_def footprint_def restrict_map_def fun_eq_iff intro!: arg_cong [of _ _ Some])
    then show ?thesis
      by (intro exI [of _ "if rp e = last_bytes s then 0 else last_bytes s"] conjI) simp_all
  qed (use b in auto)
qed

lemma footprint_restrict: "p \<notin> D \<Longrightarrow> footprint (h |` (- D)) p = footprint h p"
  by (simp add: footprint_def restrict_map_def)

lemma ent_live_restrict: "rp e \<notin> D \<Longrightarrow> ent_live (h |` (- D)) e = ent_live h e"
  by (simp add: ent_live_def restrict_map_def)

lemma other_not_in_footprint:
  assumes ok: "heap_ok h" and e: "ent_live h e" and e': "ent_live h e'" and ne: "rp e \<noteq> rp e'"
  shows "rp e' \<notin> footprint h (rp e)"
proof
  assume "rp e' \<in> footprint h (rp e)"
  with e ne obtain b where "h (rp e) = Some b" "rp e' \<in> set (owned b)"
    by (auto simp: footprint_def ent_live_def)
  with heap_okD(4) [OF ok] obtain c where "h (rp e') = Some c" "is_payload c" by blast
  with e' kind_not_payload show False by (auto simp: ent_live_def)
qed

lemma heap_ok_drop_ent: "heap_ok h \<Longrightarrow> ent_live h e \<Longrightarrow> heap_ok (h |` (- footprint h (rp e)))"
  by (auto simp: ent_live_def intro: heap_ok_drop_footprint dest: kind_not_payload)

text \<open>Releasing a list of distinct live entries succeeds: no block is freed twice, and the heap
  loses exactly the footprints of the entries.\<close>

lemma free_ents_live:
  assumes "heap_ok (heap s)" and "\<forall>e \<in> set es. ent_live (heap s) e" and "distinct (map rp es)"
  shows "\<exists>lb. free_ents es s =
             Some (s\<lparr>heap := heap s |` (- (\<Union>e \<in> set es. footprint (heap s) (rp e))), last_bytes := lb\<rparr>)
         \<and> heap_ok (heap s |` (- (\<Union>e \<in> set es. footprint (heap s) (rp e))))"
  using assms
proof (induction es arbitrary: s)
  case Nil
  have "s = s\<lparr>heap := heap s |` (- (\<Union>e \<in> set []. footprint (heap s) (rp e))), last_bytes := last_bytes s\<rparr>"
    by (simp add: restrict_map_def)
  with Nil show ?case by (intro exI [of _ "last_bytes s"]) simp
next
  case (Cons e es)
  let ?F = "footprint (heap s) (rp e)"
  obtain lb where fr: "reg_free_obj e s = Some (s\<lparr>heap := heap s |` (- ?F), last_bytes := lb\<rparr>)"
    using reg_free_obj_live [OF Cons.prems(1)] Cons.prems(2) by auto
  let ?s1 = "s\<lparr>heap := heap s |` (- ?F), last_bytes := lb\<rparr>"
  have nf: "rp e' \<notin> ?F" if "e' \<in> set es" for e'
    using that Cons.prems by (intro other_not_in_footprint) auto
  have ok1: "heap_ok (heap ?s1)" using Cons.prems by (simp add: heap_ok_drop_ent)
  have lv1: "\<forall>e' \<in> set es. ent_live (heap ?s1) e'"
    using nf Cons.prems(2) by (simp add: ent_live_restrict)
  have "(\<Union>e' \<in> set es. footprint (heap ?s1) (rp e')) = (\<Union>e' \<in> set es. footprint (heap s) (rp e'))"
    using nf by (simp add: footprint_restrict)
  then have un: "heap ?s1 |` (- (\<Union>e' \<in> set es. footprint (heap ?s1) (rp e'))) =
      heap s |` (- (\<Union>e' \<in> set (e # es). footprint (heap s) (rp e')))"
    by (auto simp: restrict_map_def fun_eq_iff)
  from Cons.IH [OF ok1 lv1] Cons.prems(3) obtain lb' where
    "free_ents es ?s1 = Some (?s1\<lparr>heap := heap s |` (- (\<Union>e' \<in> set (e # es). footprint (heap s) (rp e'))),
        last_bytes := lb'\<rparr>)"
    and "heap_ok (heap s |` (- (\<Union>e' \<in> set (e # es). footprint (heap s) (rp e'))))"
    unfolding un by auto
  with fr show ?case by (intro exI [of _ lb']) simp
qed

subsection \<open>The compaction loop\<close>

lemma sweep_loop_correct:
  assumes "w \<le> i" and "i + k \<le> length xs"
  shows "\<exists>ys. sweep_loop now grace k i w xs dead =
            (w + length (filter (\<lambda>e. \<not> expired now grace e) (take k (drop i xs))), ys,
             dead @ filter (expired now grace) (take k (drop i xs)))
       \<and> length ys = length xs
       \<and> take (w + length (filter (\<lambda>e. \<not> expired now grace e) (take k (drop i xs)))) ys =
           take w xs @ filter (\<lambda>e. \<not> expired now grace e) (take k (drop i xs))"
  using assms
proof (induction k arbitrary: i w xs dead)
  case 0
  then show ?case by simp
next
  case (Suc k)
  let ?e = "xs ! i"
  have tk: "take (Suc k) (drop i xs) = ?e # take k (drop (Suc i) xs)"
    using Suc.prems by (simp add: Cons_nth_drop_Suc [symmetric])
  show ?case
  proof (cases "expired now grace ?e")
    case True
    with Suc.prems Suc.IH [of w "Suc i" xs "dead @ [?e]"] show ?thesis by (simp add: tk)
  next
    case False
    let ?xs = "xs[w := ?e]"
    have dr: "drop (Suc i) ?xs = drop (Suc i) xs" using Suc.prems by simp
    have tw: "take (Suc w) ?xs = take w xs @ [?e]"
      using Suc.prems by (intro take_Suc_list_update) simp
    from Suc.prems Suc.IH [of "Suc w" "Suc i" ?xs dead] False
    show ?thesis unfolding tk by (simp add: dr tw Let_def)
  qed
qed

text \<open>What the sweep keeps and what it releases.\<close>

definition survivors :: "'z hreg_scheme \<Rightarrow> rent list" where
  "survivors s = take (keep_from s) (active s) @
     filter (\<lambda>e. \<not> expired (clk s) (gc_grace s) e) (drop (keep_from s) (active s))"

definition victims :: "'z hreg_scheme \<Rightarrow> rent list" where
  "victims s = filter (expired (clk s) (gc_grace s)) (drop (keep_from s) (active s))"

text \<open>The addresses the sweep takes off the heap.\<close>

definition swept :: "'z hreg_scheme \<Rightarrow> u64 set" where
  "swept s = (\<Union>e \<in> set (victims s). footprint (heap s) (rp e))"

lemma set_active_split: "set (active s) = set (survivors s) \<union> set (victims s)"
proof -
  have "set (active s) = set (take (keep_from s) (active s)) \<union> set (drop (keep_from s) (active s))"
    by (metis append_take_drop_id set_append)
  then show ?thesis by (auto simp: survivors_def victims_def)
qed

lemma distinct_survivors_victims:
  assumes "distinct (map rp (active s))"
  shows "distinct (map rp (survivors s))" and "distinct (map rp (victims s))"
    and "rp ` set (survivors s) \<inter> rp ` set (victims s) = {}"
proof -
  have d: "distinct (map rp (take (keep_from s) (active s) @ drop (keep_from s) (active s)))"
    using assms by simp
  show "distinct (map rp (survivors s))"
    using d by (auto simp: survivors_def distinct_map_filter simp del: append_take_drop_id)
  show "distinct (map rp (victims s))"
    using d by (simp add: victims_def distinct_map_filter del: append_take_drop_id)
  have "inj_on rp (set (active s))" using assms by (simp add: distinct_map)
  moreover have "set (survivors s) \<inter> set (victims s) = {}"
    using d by (auto simp: survivors_def victims_def distinct_map simp del: append_take_drop_id)
  ultimately show "rp ` set (survivors s) \<inter> rp ` set (victims s) = {}"
    by (simp add: inj_on_image_Int [symmetric] set_active_split)
qed

subsection \<open>The sweep\<close>

lemma active_loop:
  "reg_ok s \<Longrightarrow> take (regn s - keep_from s) (drop (keep_from s) (slots s)) = drop (keep_from s) (active s)"
  by (simp add: active_def drop_take)

lemma reg_ok_shrink:
  assumes ok: "reg_ok s" and h: "heap_ok h'"
    and sub: "set es \<subseteq> set (active s)" and d: "distinct (map rp es)"
    and lv: "\<forall>e \<in> set es. ent_live h' e"
    and s': "heap s' = h'" "active s' = es" "keep_from s' \<le> regn s'" "regn s' \<le> length (slots s')"
      "length (slots s') \<le> regcap s'"
  shows "reg_ok s'"
  using assms reg_okD(7) [OF ok] unfolding reg_ok_def by auto

lemma reg_sweep_effect:
  assumes ok: "reg_ok s" and on: "\<not> gc_off s" and mem: "fst (malloc_tmp s)"
  shows "\<exists>s'. reg_sweep s = Some s' \<and> reg_ok s' \<and> active s' = survivors s \<and>
    heap s' = heap s |` (- swept s) \<and>
    gc_freed s' = gc_freed s + length (victims s) \<and>
    clk s' = clk s \<and> gc_grace s' = gc_grace s \<and> gc_off s' = gc_off s \<and> keep_from s' = keep_from s"
proof -
  obtain as where m: "malloc_tmp s = (True, s\<lparr>answers := as\<rparr>)"
    using malloc_tmp_ok [OF mem] by blast
  let ?k = "keep_from s"
  let ?D = "swept s"
  obtain ys where lp: "sweep_loop (clk s) (gc_grace s) (regn s - ?k) ?k ?k (slots s) [] =
        (length (survivors s), ys, victims s)"
    and ly: "length ys = length (slots s)" and ty: "take (length (survivors s)) ys = survivors s"
  proof -
    have kl: "?k \<le> length (active s)" using reg_okD(2,3) [OF ok] by (simp add: active_def)
    have tk: "take ?k (slots s) = take ?k (active s)" using reg_okD(2) [OF ok] by (simp add: active_def)
    have "?k + (regn s - ?k) \<le> length (slots s)" using reg_okD(2,3) [OF ok] by simp
    from sweep_loop_correct [OF order_refl this, of "clk s" "gc_grace s" "[]"] that kl
    show thesis unfolding active_loop [OF ok] tk
      by (auto simp: survivors_def victims_def)
  qed
  note dst = distinct_survivors_victims [OF reg_okD(5) [OF ok]]
  have vl: "\<forall>e \<in> set (victims s). ent_live (heap s) e"
    using reg_okD(6) [OF ok] by (auto simp: set_active_split)
  let ?s1 = "s\<lparr>answers := as, slots := ys, regn := length (survivors s)\<rparr>"
  obtain lb where fr: "free_ents (victims s) ?s1 = Some (?s1\<lparr>heap := heap s |` (- ?D), last_bytes := lb\<rparr>)"
    and hok: "heap_ok (heap s |` (- ?D))"
    using free_ents_live [of ?s1 "victims s"] vl dst reg_okD(1) [OF ok] unfolding swept_def by auto
  let ?s' = "?s1\<lparr>heap := heap s |` (- ?D), last_bytes := lb, gc_freed := gc_freed s + length (victims s)\<rparr>"
  have sw: "reg_sweep s = Some ?s'"
    using on m lp fr by (simp add: reg_sweep_def)
  have len: "length (survivors s) \<le> regn s" and ge: "?k \<le> length (survivors s)"
    using reg_okD(2,3) [OF ok] length_filter_le [of "\<lambda>e. \<not> expired (clk s) (gc_grace s) e" "drop ?k (active s)"]
    by (auto simp: survivors_def active_def)
  have act: "active ?s' = survivors s" using ty by (simp add: active_def)
  have "reg_ok ?s'"
  proof (rule reg_ok_shrink [OF ok hok _ dst(1)])
    show "set (survivors s) \<subseteq> set (active s)" by (simp add: set_active_split)
    show "\<forall>e \<in> set (survivors s). ent_live (heap s |` (- ?D)) e"
    proof
      fix e assume e: "e \<in> set (survivors s)"
      then have le: "ent_live (heap s) e" using reg_okD(6) [OF ok] by (simp add: set_active_split)
      have "rp e \<notin> ?D"
        using other_not_in_footprint [OF reg_okD(1) [OF ok] _ le] vl dst(3) e
        unfolding swept_def by blast
      with le show "ent_live (heap s |` (- ?D)) e" by (simp add: ent_live_restrict)
    qed
  qed (use act ly len ge reg_okD [OF ok] in auto)
  with sw act show ?thesis by auto
qed

lemma reg_sweep_idle:
  assumes "gc_off s \<or> \<not> fst (malloc_tmp s)"
  shows "\<exists>as. reg_sweep s = Some (s\<lparr>answers := as\<rparr>)"
proof (cases "gc_off s")
  case True
  then have "reg_sweep s = Some (s\<lparr>answers := answers s\<rparr>)" by (simp add: reg_sweep_def)
  then show ?thesis ..
next
  case False
  with assms malloc_tmp_ex [of s] show ?thesis
    by (auto simp: reg_sweep_def split: prod.split)
qed

subsection \<open>Registering, pinning and explicit release\<close>

lemma find_index_from_Some:
  "find_index_from j p es = Some i \<Longrightarrow> j \<le> i \<and> i - j < length es \<and> rp (es ! (i - j)) = p"
proof (induction es arbitrary: j)
  case Nil
  then show ?case by simp
next
  case (Cons e es)
  show ?case
  proof (cases "rp e = p")
    case True
    with Cons.prems show ?thesis by simp
  next
    case False
    with Cons.prems Cons.IH [of "Suc j"] have "Suc j \<le> i" "i - Suc j < length es" "rp (es ! (i - Suc j)) = p"
      by auto
    moreover from this have "i - j = Suc (i - Suc j)" by simp
    ultimately show ?thesis by simp
  qed
qed

lemma find_index_from_None: "find_index_from j p es = None \<longleftrightarrow> p \<notin> rp ` set es"
  by (induction es arbitrary: j) auto

lemma reg_find_Some:
  assumes "reg_find_locked p s = Some i" and "reg_ok s"
  shows "i < regn s" and "i < length (slots s)" and "slots s ! i \<in> set (active s)"
    and "rp (slots s ! i) = p" and "active s ! i = slots s ! i"
proof -
  from assms have i: "i < length (active s)" "rp (active s ! i) = p"
    using find_index_from_Some by (fastforce simp: reg_find_locked_def)+
  then show "i < regn s" "i < length (slots s)" and e: "active s ! i = slots s ! i"
    by (auto simp: active_def)
  from i(1) have "active s ! i \<in> set (active s)" by (rule nth_mem)
  with i(2) e show "slots s ! i \<in> set (active s)" and "rp (slots s ! i) = p" by simp_all
qed

lemma reg_find_None: "reg_find_locked p s = None \<longleftrightarrow> p \<notin> registered s"
  by (simp add: reg_find_locked_def find_index_from_None registered_def)

lemma active_upd_pin:
  "i < regn s \<Longrightarrow> i < length (slots s) \<Longrightarrow> active (s\<lparr>slots := (slots s)[i := e]\<rparr>) = (active s)[i := e]"
  by (simp add: active_def take_update_swap)

lemma reg_ok_pin:
  assumes ok: "reg_ok s"
  shows "reg_ok (reg_pin p d s)"
proof -
  let ?s1 = "if d > 0 then s\<lparr>pin_calls := pin_calls s + d\<rparr> else s"
  have ok1: "reg_ok ?s1" using ok by (simp add: reg_ok_def active_def)
  show ?thesis
  proof (cases "p = 0 \<or> reg_find_locked p ?s1 = None")
    case True
    with ok ok1 show ?thesis by (auto simp: reg_pin_def Let_def)
  next
    case False
    then obtain i where i: "reg_find_locked p ?s1 = Some i" and p0: "p \<noteq> 0" by blast
    let ?e = "slots ?s1 ! i"
    define e' where "e' = ?e\<lparr>rpin := (if rpin ?e + d < 0 then 0 else rpin ?e + d)\<rparr>"
    note fi = reg_find_Some [OF i ok1]
    have pin: "reg_pin p d s = ?s1\<lparr>slots := (slots ?s1)[i := e']\<rparr>"
      using p0 i by (simp add: reg_pin_def e'_def Let_def split: if_splits)
    have act: "active (reg_pin p d s) = (active ?s1)[i := e']"
      unfolding pin by (rule active_upd_pin [OF fi(1,2)])
    have "i < length (active ?s1)" using fi(1,2) by (auto simp: active_def)
    with fi(4,5) have "map rp (active ?s1) ! i = rp e'" by (simp add: e'_def)
    then have "map rp (active (reg_pin p d s)) = map rp (active ?s1)"
      unfolding act map_update by (metis list_update_id)
    moreover have "set (active (reg_pin p d s)) \<subseteq> insert e' (set (active ?s1))"
      unfolding act by (rule set_update_subset_insert)
    moreover have "ent_live (heap ?s1) e' \<and> 0 \<le> rpin e'"
      using reg_okD(6) [OF ok1 fi(3)] by (simp add: ent_live_def e'_def)
    ultimately show ?thesis
      using ok1 unfolding reg_ok_def pin by (auto split: if_splits)
  qed
qed

text \<open>What the block at an address is, and whether it is registered with a positive pin count.\<close>

definition pinned :: "'z hreg_scheme \<Rightarrow> u64 \<Rightarrow> bool" where
  "pinned s p \<longleftrightarrow> (\<exists>e \<in> set (active s). rp e = p \<and> rpin e > 0)"

lemma reg_ok_add:
  assumes ok: "reg_ok s" and p: "heap s p = Some b" "kind_of b = Some k" and new: "p \<notin> registered s"
  shows "reg_ok (reg_add p k s)"
proof (cases "p = 0")
  case True
  with ok show ?thesis by (simp add: reg_add_def)
next
  case p0: False
  obtain as where m: "snd (malloc_tmp s) = s\<lparr>answers := as\<rparr>" using malloc_tmp_ex by blast
  let ?nc = "if regcap s = 0 then 4096 else regcap s * 2"
  have step: "reg_ok (s1\<lparr>slots := write_slot (regn s1) e (slots s1), regn := Suc (regn s1)\<rparr>)"
    if s1: "heap s1 = heap s" "slots s1 = slots s" "regn s1 = regn s" "keep_from s1 = keep_from s"
      "regcap s \<le> regcap s1" "regn s < regcap s1" and e: "rp e = p" "rk e = k" "rpin e = 0" for s1 :: "'a hreg_scheme" and e
  proof -
    have a: "active (s1\<lparr>slots := write_slot (regn s1) e (slots s1), regn := Suc (regn s1)\<rparr>) = active s @ [e]"
      using reg_okD(3) [OF ok] s1 by (auto simp: active_def write_slot_def take_Suc_list_update)
    have l: "length (write_slot (regn s) e (slots s)) \<le> regcap s1"
      "Suc (regn s) \<le> length (write_slot (regn s) e (slots s))"
      using reg_okD(3,4) [OF ok] s1 by (auto simp: write_slot_def)
    have "ent_live (heap s) e" using p e by (simp add: ent_live_def)
    then show ?thesis
      using reg_okD [OF ok] new s1 e l unfolding reg_ok_def a by (auto simp: registered_def)
  qed
  show ?thesis
  proof (cases "regn s = regcap s")
    case False
    then show ?thesis
      using step [of s] p0 reg_okD(3,4) [OF ok] by (simp add: reg_add_def)
  next
    case True
    show ?thesis
    proof (cases "fst (malloc_tmp s)")
      case ok2: True
      then have "malloc_tmp s = (True, s\<lparr>answers := as\<rparr>)" using m by (metis prod.collapse)
      then have "reg_add p k s = (let s1 = s\<lparr>answers := as, regcap := ?nc\<rparr>
          in s1\<lparr>slots := write_slot (regn s1) \<lparr>rp = p, rk = k, rt = clk s1, rpin = 0\<rparr> (slots s1),
                regn := Suc (regn s1)\<rparr>)"
        using True p0 by (simp add: reg_add_def Let_def)
      then show ?thesis using step [of "s\<lparr>answers := as, regcap := ?nc\<rparr>"] True
        by (simp add: Let_def)
    next
      case False
      then have "malloc_tmp s = (False, s\<lparr>answers := as\<rparr>)" using m by (metis prod.collapse)
      then have "reg_add p k s = s\<lparr>answers := as\<rparr>" using True p0 by (simp add: reg_add_def Let_def)
      with ok show ?thesis by (simp add: reg_ok_def active_def)
    qed
  qed
qed

text \<open>Removing an element by moving the last one into its place.\<close>

lemma swap_remove:
  assumes i: "i < length xs" and d: "distinct (map f xs)"
  defines "ys \<equiv> take (length xs - 1) (xs[i := xs ! (length xs - 1)])"
  shows "distinct (map f ys)" and "set ys = set xs - {xs ! i}"
proof -
  from i obtain zs z where xs: "xs = zs @ [z]" by (cases xs rule: rev_cases) auto
  with d have dz: "distinct zs" "z \<notin> set zs" by (auto simp: distinct_map)
  have set_eq: "set ys = set xs - {xs ! i} \<and> distinct ys"
  proof (cases "i = length zs")
    case True
    with dz show ?thesis by (auto simp: ys_def xs)
  next
    case False
    with i have ib: "i < length zs" by (simp add: xs)
    then have ys: "ys = zs[i := z]" and xi: "xs ! i = zs ! i"
      by (simp_all add: ys_def xs list_update_append nth_append)
    from ib have "zs ! i \<in> set zs" by simp
    with dz ib show ?thesis
      unfolding ys xi by (auto simp: xs set_update_distinct distinct_list_update)
  qed
  then show "set ys = set xs - {xs ! i}" by blast
  from set_eq have "distinct ys" "set ys \<subseteq> set xs" by auto
  with d show "distinct (map f ys)" by (auto simp: distinct_map intro: inj_on_subset)
qed

text \<open>An explicit release of an unpinned, registered object that was registered after the
  daemon started.\<close>

definition releasable :: "u64 \<Rightarrow> 'z hreg_scheme \<Rightarrow> bool" where
  "releasable p s \<longleftrightarrow>
     (\<exists>e \<in> set (active s). rp e = p \<and> rpin e = 0) \<and> p \<notin> rp ` set (take (keep_from s) (active s))"

text \<open>Releasing any unpinned entry; the registry stays sound unless it was a start-up entry.\<close>

lemma reg_release_unpinned:
  assumes ok: "reg_ok s" and r: "\<exists>e \<in> set (active s). rp e = p \<and> rpin e = 0"
  shows "\<exists>s'. reg_release p s = Some (True, s') \<and> (p \<notin> rp ` set (take (keep_from s) (active s)) \<longrightarrow> reg_ok s') \<and>
    heap s' = heap s |` (- footprint (heap s) p) \<and>
    (\<exists>e. rp e = p \<and> set (active s') = set (active s) - {e}) \<and>
    registered s' = registered s - {p} \<and> gc_freed s' = gc_freed s + 1 \<and> clk s' = clk s \<and>
    keep_from s' = keep_from s \<and> gc_grace s' = gc_grace s \<and> gc_off s' = gc_off s"
proof -
  from r obtain e0 where e0: "e0 \<in> set (active s)" "rp e0 = p" "rpin e0 = 0"
    by auto
  have lv0: "ent_live (heap s) e0" using reg_okD(6) [OF ok e0(1)] .
  have p0: "p \<noteq> 0" using lv0 e0 heap_okD(1) [OF reg_okD(1) [OF ok]] by (auto simp: ent_live_def)
  obtain i where i: "reg_find_locked p s = Some i"
    using e0 reg_find_None [of p s] by (cases "reg_find_locked p s") (auto simp: registered_def)
  note fi = reg_find_Some [OF i ok]
  let ?e = "slots s ! i" and ?n = "regn s - 1"
  have inj: "inj_on rp (set (active s))" using reg_okD(5) [OF ok] by (simp add: distinct_map)
  have ee: "?e = e0" using inj fi(3,4) e0(1,2) by (metis inj_onD)
  have la: "length (active s) = regn s" using reg_okD(3) [OF ok] by (simp add: active_def)
  have ki: "keep_from s \<le> i" if nk: "p \<notin> rp ` set (take (keep_from s) (active s))"
  proof (rule ccontr)
    assume "\<not> keep_from s \<le> i"
    then have "active s ! i \<in> set (take (keep_from s) (active s))"
      using fi(1) la by (auto simp: in_set_conv_nth intro!: exI [of _ i])
    with nk fi(4,5) show False by (metis imageI)
  qed
  let ?s1 = "s\<lparr>slots := (slots s)[i := slots s ! ?n], regn := ?n\<rparr>"
  have nn: "slots s ! ?n = active s ! ?n" using fi(1) by (simp add: active_def)
  have a1: "active ?s1 = take (length (active s) - 1) ((active s)[i := active s ! (length (active s) - 1)])"
    unfolding la nn [symmetric] by (simp add: active_def take_update_swap)
  have "i < length (active s)" using fi(1) la by simp
  note sr = swap_remove [OF this reg_okD(5) [OF ok], folded a1]
  have sa: "set (active ?s1) = set (active s) - {e0}" using sr(2) fi(5) ee by simp
  obtain lb where fr: "reg_free_obj ?e ?s1 = Some (?s1\<lparr>heap := heap s |` (- footprint (heap s) p), last_bytes := lb\<rparr>)"
    using reg_free_obj_live [of ?s1 ?e] lv0 ee e0(2) reg_okD(1) [OF ok] by auto
  let ?s' = "?s1\<lparr>heap := heap s |` (- footprint (heap s) p), last_bytes := lb, gc_freed := gc_freed s + 1\<rparr>"
  have rel: "reg_release p s = Some (True, ?s')"
    using p0 i ee e0(3) fr by (simp add: reg_release_def Let_def)
  have act': "active ?s' = active ?s1" by (simp add: active_def)
  have rok: "reg_ok ?s'" if nk: "p \<notin> rp ` set (take (keep_from s) (active s))"
  proof (rule reg_ok_shrink [OF ok heap_ok_drop_ent [OF reg_okD(1) [OF ok] lv0] _ sr(1)])
    show "set (active ?s1) \<subseteq> set (active s)" using sa by blast
    show "\<forall>e \<in> set (active ?s1). ent_live (heap s |` (- footprint (heap s) (rp e0))) e"
    proof
      fix e assume "e \<in> set (active ?s1)"
      with sa have e: "e \<in> set (active s)" "e \<noteq> e0" by auto
      then have "rp e0 \<noteq> rp e" using inj e0(1) by (metis inj_onD)
      then have "rp e \<notin> footprint (heap s) (rp e0)"
        using other_not_in_footprint [OF reg_okD(1) [OF ok] lv0] reg_okD(6) [OF ok e(1)] by blast
      with reg_okD(6) [OF ok e(1)] show "ent_live (heap s |` (- footprint (heap s) (rp e0))) e"
        by (simp add: ent_live_restrict)
    qed
  qed (use act' reg_okD [OF ok] ki [OF nk] fi(1) e0(2) in auto)
  have rg: "registered ?s' = registered s - {p}"
  proof -
    have "rp ` (set (active s) - {e0}) = rp ` set (active s) - {rp e0}"
      using inj e0(1) by (auto simp: inj_on_def)
    then show ?thesis by (simp only: registered_def act' sa e0(2))
  qed
  have se: "\<exists>e. rp e = p \<and> set (active ?s') = set (active s) - {e}"
    by (intro exI [of _ e0] conjI e0(2)) (simp only: act' sa)
  show ?thesis
  proof (intro exI [of _ ?s'] conjI)
    show "reg_release p s = Some (True, ?s')" by (rule rel)
    show "p \<notin> rp ` set (take (keep_from s) (active s)) \<longrightarrow> reg_ok ?s'" using rok by blast
    show "\<exists>e. rp e = p \<and> set (active ?s') = set (active s) - {e}" by (rule se)
    show "registered ?s' = registered s - {p}" by (rule rg)
  qed simp_all
qed

lemma reg_release_effect:
  assumes ok: "reg_ok s" and r: "releasable p s"
  shows "\<exists>s'. reg_release p s = Some (True, s') \<and> reg_ok s' \<and>
    heap s' = heap s |` (- footprint (heap s) p) \<and>
    (\<exists>e. rp e = p \<and> set (active s') = set (active s) - {e}) \<and>
    registered s' = registered s - {p} \<and> gc_freed s' = gc_freed s + 1 \<and> clk s' = clk s \<and>
    keep_from s' = keep_from s \<and> gc_grace s' = gc_grace s \<and> gc_off s' = gc_off s"
  using reg_release_unpinned [OF ok, of p] r unfolding releasable_def by blast

lemma reg_release_skip:
  assumes ok: "reg_ok s" and "p \<notin> registered s \<or> pinned s p"
  shows "reg_release p s = Some (False, s)"
proof (cases "reg_find_locked p s")
  case None
  then show ?thesis by (simp add: reg_release_def)
next
  case (Some i)
  note fi = reg_find_Some [OF Some ok]
  have "p \<in> registered s" using fi by (force simp: registered_def)
  with assms obtain e where e: "e \<in> set (active s)" "rp e = p" "rpin e > 0" by (auto simp: pinned_def)
  have "inj_on rp (set (active s))" using reg_okD(5) [OF ok] by (simp add: distinct_map)
  with e fi have "slots s ! i = e" by (metis inj_onD)
  with Some e show ?thesis by (simp add: reg_release_def)
qed

lemma footprints_disjoint:
  assumes ok: "heap_ok h" and e: "ent_live h e" and e': "ent_live h e'" and ne: "rp e \<noteq> rp e'"
  shows "footprint h (rp e) \<inter> footprint h (rp e') = {}"
proof -
  have "rp e' \<notin> footprint h (rp e)" "rp e \<notin> footprint h (rp e')"
    using other_not_in_footprint ok e e' ne by metis+
  moreover from e e' obtain b b' where b: "h (rp e) = Some b" "h (rp e') = Some b'"
    by (auto simp: ent_live_def)
  then have "set (owned b) \<inter> set (owned b') = {}" using heap_okD(5) [OF ok] ne by blast
  ultimately show ?thesis using b by (auto simp: footprint_def)
qed

subsection \<open>Frame facts\<close>

lemma heap_reg_add [simp]: "heap (reg_add p k s) = heap s"
  by (auto simp: reg_add_def Let_def malloc_tmp_def split: list.splits)

lemma heap_reg_pin [simp]: "heap (reg_pin p d s) = heap s"
  by (auto simp: reg_pin_def Let_def split: option.splits)

lemma active_write_slot:
  assumes "regn s \<le> length (slots s)" and "slots s1 = slots s" "regn s1 = regn s"
  shows "active (s1\<lparr>slots := write_slot (regn s1) e (slots s1), regn := Suc (regn s1)\<rparr>) = active s @ [e]"
  using assms by (auto simp: active_def write_slot_def take_Suc_list_update)

lemma active_reg_add:
  assumes "reg_ok s"
  shows "active (reg_add p k s) = active s \<or>
    active (reg_add p k s) = active s @ [\<lparr>rp = p, rk = k, rt = clk s, rpin = 0\<rparr>]"
proof -
  obtain b as where m: "malloc_tmp s = (b, s\<lparr>answers := as\<rparr>)"
    using malloc_tmp_ex [of s] by (cases "malloc_tmp s") auto
  note w = active_write_slot [OF reg_okD(3) [OF assms]]
  show ?thesis
  proof (cases "p = 0 \<or> (regn s = regcap s \<and> \<not> b)")
    case True
    then show ?thesis by (auto simp: reg_add_def m Let_def active_def)
  next
    case False
    let ?s1 = "if regn s = regcap s
      then s\<lparr>answers := as, regcap := (if regcap s = 0 then 4096 else regcap s * 2)\<rparr> else s"
    let ?e = "\<lparr>rp = p, rk = k, rt = clk s, rpin = 0\<rparr>"
    have eq: "reg_add p k s = ?s1\<lparr>slots := write_slot (regn ?s1) ?e (slots ?s1), regn := Suc (regn ?s1)\<rparr>"
      using False by (auto simp: reg_add_def m Let_def)
    have "active (reg_add p k s) = active s @ [?e]"
      unfolding eq by (rule w) simp_all
    then show ?thesis ..
  qed
qed

lemma active_reg_add_room:
  "reg_ok s \<Longrightarrow> regn s < regcap s \<Longrightarrow> p \<noteq> 0 \<Longrightarrow>
   active (reg_add p k s) = active s @ [\<lparr>rp = p, rk = k, rt = clk s, rpin = 0\<rparr>]"
  using active_write_slot [OF reg_okD(3)] by (auto simp: reg_add_def)

lemma pinned_reg_add: "reg_ok s \<Longrightarrow> pinned s q \<Longrightarrow> pinned (reg_add p k s) q"
  using active_reg_add [of s p k] by (auto simp: pinned_def)

lemma pinned_reg_pin:
  assumes ok: "reg_ok s" and pin: "pinned s q" and d: "0 \<le> d \<or> q \<noteq> p"
  shows "pinned (reg_pin p d s) q"
proof -
  let ?s1 = "if d > 0 then s\<lparr>pin_calls := pin_calls s + d\<rparr> else s"
  have a1: "active ?s1 = active s" and ok1: "reg_ok ?s1" using ok by (auto simp: active_def reg_ok_def)
  show ?thesis
  proof (cases "p = 0 \<or> reg_find_locked p ?s1 = None")
    case True
    then have "active (reg_pin p d s) = active s" using a1 by (auto simp: reg_pin_def Let_def)
    with pin show ?thesis by (simp add: pinned_def)
  next
    case False
    then obtain i where i: "reg_find_locked p ?s1 = Some i" and p0: "p \<noteq> 0" by blast
    note fi = reg_find_Some [OF i ok1]
    define e' where "e' = (slots ?s1 ! i)\<lparr>rpin := (if rpin (slots ?s1 ! i) + d < 0 then 0 else rpin (slots ?s1 ! i) + d)\<rparr>"
    have "reg_pin p d s = ?s1\<lparr>slots := (slots ?s1)[i := e']\<rparr>"
      using p0 i by (simp add: reg_pin_def e'_def Let_def split: if_splits)
    then have act: "active (reg_pin p d s) = (active s)[i := e']"
      using active_upd_pin [OF fi(1,2)] a1 by simp
    obtain e where e: "e \<in> set (active s)" "rp e = q" "rpin e > 0" using pin by (auto simp: pinned_def)
    have il: "i < length (active s)" using fi(1,2) by (auto simp: active_def split: if_splits)
    show ?thesis
    proof (cases "e = active s ! i")
      case True
      then have ei: "e = slots ?s1 ! i" using fi(5) a1 by simp
      with d e fi(4) have "rp e' = q" and "rpin e' > 0" by (auto simp: e'_def)
      moreover have "e' \<in> set (active (reg_pin p d s))"
        unfolding act using il by (rule set_update_memI)
      ultimately show ?thesis by (auto simp: pinned_def)
    next
      case False
      with e(1) obtain j where j: "j < length (active s)" "active s ! j = e" "j \<noteq> i"
        by (auto simp: in_set_conv_nth)
      then have "active (reg_pin p d s) ! j = e" and "j < length (active (reg_pin p d s))"
        unfolding act by simp_all
      then have "e \<in> set (active (reg_pin p d s))" by (metis nth_mem)
      with e show ?thesis by (auto simp: pinned_def)
    qed
  qed
qed

lemma pinned_live: "reg_ok s \<Longrightarrow> pinned s p \<Longrightarrow> \<exists>b k. heap s p = Some b \<and> kind_of b = Some k"
  by (auto simp: pinned_def reg_ok_def ent_live_def)

lemma pinned_sweep:
  assumes ok: "reg_ok s" and sw: "reg_sweep s = Some s'" and pin: "pinned s p"
  shows "reg_ok s' \<and> pinned s' p"
proof (cases "\<not> gc_off s \<and> fst (malloc_tmp s)")
  case True
  with reg_sweep_effect [OF ok] sw have s': "reg_ok s'" "active s' = survivors s" by auto
  have "e \<in> set (survivors s)" if "e \<in> set (active s)" "rpin e > 0" for e
    using that by (auto simp: set_active_split victims_def expired_def)
  with pin s' show ?thesis by (auto simp: pinned_def)
next
  case False
  with reg_sweep_idle [of s] sw obtain as where "s' = s\<lparr>answers := as\<rparr>" by auto
  with ok pin show ?thesis by (simp add: reg_ok_def pinned_def active_def)
qed

lemma reg_ok_frame:
  assumes "reg_ok s" and "heap_ok (heap s')" and "\<And>e. e \<in> set (active s) \<Longrightarrow> ent_live (heap s') e"
    and "slots s' = slots s" "regn s' = regn s" "regcap s' = regcap s" "keep_from s' = keep_from s"
  shows "reg_ok s'" and "active s' = active s"
proof -
  show "active s' = active s" using assms by (simp add: active_def)
  then show "reg_ok s'" using assms by (simp add: reg_ok_def)
qed

lemma heap_ok_new:
  assumes "heap_ok h" "h p = None" "p \<noteq> 0" "shape_ok b" "owned b = []"
  shows "heap_ok (h(p \<mapsto> b))"
  using assms by (intro heap_ok_update) auto

lemma ent_live_new: "h p = None \<Longrightarrow> ent_live h e \<Longrightarrow> ent_live (h(p \<mapsto> b)) e"
  by (auto simp: ent_live_def)

lemma malloc_blk_state:
  assumes "malloc_blk b s = (p, s')"
  obtains as where "s' = s\<lparr>answers := as, heap := heap s'\<rparr>"
proof (cases "answers s")
  case Nil
  with assms show thesis by (intro that [of "[]"]) (auto simp: malloc_blk_def)
next
  case (Cons a as)
  with assms show thesis by (intro that [of as]) (auto simp: malloc_blk_def split: if_splits)
qed

text \<open>A fresh block that owns nothing yet.\<close>

lemma malloc_blk_reg:
  fixes s :: "'z hreg_scheme"
  assumes ok: "reg_ok s" and m: "malloc_blk b s = (p, s')" and b: "shape_ok b" "owned b = []"
  shows "reg_ok s'" "active s' = active s" "clk s' = clk s" "p \<notin> registered s'"
    and "(p = 0 \<and> heap s' = heap s) \<or> (p \<noteq> 0 \<and> heap s p = None \<and> heap s' = (heap s)(p \<mapsto> b))"
proof -
  show cs: "(p = 0 \<and> heap s' = heap s) \<or> (p \<noteq> 0 \<and> heap s p = None \<and> heap s' = (heap s)(p \<mapsto> b))"
    using malloc_blk_cases [OF m] by blast
  obtain as where st: "s' = s\<lparr>answers := as, heap := heap s'\<rparr>" by (rule malloc_blk_state [OF m])
  have sl: "slots s' = slots s" "regn s' = regn s" "regcap s' = regcap s" "keep_from s' = keep_from s"
    by (subst st, simp)+
  have ok': "heap_ok (heap s')"
    using cs reg_okD(1) [OF ok] b by (auto intro: heap_ok_new)
  have lv: "ent_live (heap s') e" if "e \<in> set (active s)" for e
    using cs reg_okD(6) [OF ok that] by (auto intro: ent_live_new)
  show "reg_ok s'" and act: "active s' = active s" using reg_ok_frame [OF ok ok' lv sl] by blast+
  show "clk s' = clk s" by (subst st, simp)
  show "p \<notin> registered s'"
    using cs reg_okD(1,6) [OF ok] heap_okD(1) unfolding registered_def act by (force simp: ent_live_def)
qed

subsection \<open>What the registry operations leave alone\<close>

text \<open>Releasing and sweeping change the heap and the registry's own variables, nothing else.\<close>

definition reg_frame :: "'z hreg_scheme \<Rightarrow> 'z hreg_scheme \<Rightarrow> bool" where
  "reg_frame s s' \<longleftrightarrow> (\<exists>h as sl rn gf lb.
     s' = s\<lparr>heap := h, answers := as, slots := sl, regn := rn, gc_freed := gf, last_bytes := lb\<rparr>)"

lemma reg_frameI:
  "s' = s\<lparr>heap := h, answers := as, slots := sl, regn := rn, gc_freed := gf, last_bytes := lb\<rparr> \<Longrightarrow> reg_frame s s'"
  unfolding reg_frame_def by blast

lemma reg_frame_refl [simp]: "reg_frame s s"
  unfolding reg_frame_def by (intro exI [of _ "heap s"] exI [of _ "answers s"] exI [of _ "slots s"]
      exI [of _ "regn s"] exI [of _ "gc_freed s"] exI [of _ "last_bytes s"]) simp

lemma reg_frame_trans: "reg_frame s s1 \<Longrightarrow> reg_frame s1 s2 \<Longrightarrow> reg_frame s s2"
  unfolding reg_frame_def by (elim exE, hypsubst, intro exI) simp

lemma reg_frame_upd:
  "reg_frame s (s\<lparr>heap := h\<rparr>)" "reg_frame s (s\<lparr>answers := as\<rparr>)" "reg_frame s (s\<lparr>gc_freed := gf\<rparr>)"
  "reg_frame s (s\<lparr>last_bytes := lb\<rparr>)" "reg_frame s (s\<lparr>slots := sl, regn := rn\<rparr>)"
proof -
  show "reg_frame s (s\<lparr>heap := h\<rparr>)"
    by (rule reg_frameI [where h = h and as = "answers s" and sl = "slots s" and rn = "regn s"
        and gf = "gc_freed s" and lb = "last_bytes s"]) simp
  show "reg_frame s (s\<lparr>answers := as\<rparr>)"
    by (rule reg_frameI [where h = "heap s" and as = as and sl = "slots s" and rn = "regn s"
        and gf = "gc_freed s" and lb = "last_bytes s"]) simp
  show "reg_frame s (s\<lparr>gc_freed := gf\<rparr>)"
    by (rule reg_frameI [where h = "heap s" and as = "answers s" and sl = "slots s" and rn = "regn s"
        and gf = gf and lb = "last_bytes s"]) simp
  show "reg_frame s (s\<lparr>last_bytes := lb\<rparr>)"
    by (rule reg_frameI [where h = "heap s" and as = "answers s" and sl = "slots s" and rn = "regn s"
        and gf = "gc_freed s" and lb = lb]) simp
  show "reg_frame s (s\<lparr>slots := sl, regn := rn\<rparr>)"
    by (rule reg_frameI [where h = "heap s" and as = "answers s" and sl = sl and rn = rn
        and gf = "gc_freed s" and lb = "last_bytes s"]) simp
qed

lemma free_ptr_frame: "free_ptr p s = Some s' \<Longrightarrow> reg_frame s s'"
  by (auto simp: free_ptr_def reg_frame_upd split: if_split_asm option.split_asm)

lemma free_all_frame: "free_all ps s = Some s' \<Longrightarrow> reg_frame s s'"
  by (induction ps arbitrary: s) (auto intro: reg_frame_trans free_ptr_frame)

lemma reg_free_obj_frame: "reg_free_obj e s = Some s' \<Longrightarrow> reg_frame s s'"
proof (cases "rk e")
  case R_JOBJ
  assume "reg_free_obj e s = Some s'"
  with R_JOBJ show ?thesis
    by (auto simp: reg_free_obj_def intro: reg_frame_trans free_all_frame free_ptr_frame)
next
  case R_JBYTES
  assume "reg_free_obj e s = Some s'"
  with R_JBYTES obtain b :: jbytes and s2 where
    "free_ptr (bdata b) (if rp e = last_bytes s then s\<lparr>last_bytes := 0\<rparr> else s) = Some s2"
    "free_ptr (rp e) s2 = Some s'" by (simp add: reg_free_obj_def Let_def) blast
  then have "reg_frame (if rp e = last_bytes s then s\<lparr>last_bytes := 0\<rparr> else s) s'"
    using free_ptr_frame reg_frame_trans by blast
  then show ?thesis using reg_frame_trans [OF reg_frame_upd(4) [of s 0]] by (auto split: if_split_asm)
next
  case R_JARR
  assume "reg_free_obj e s = Some s'"
  with R_JARR show ?thesis by (auto simp: reg_free_obj_def intro: reg_frame_trans free_ptr_frame)
qed

lemma free_ents_frame: "free_ents es s = Some s' \<Longrightarrow> reg_frame s s'"
  by (induction es arbitrary: s) (auto intro: reg_frame_trans reg_free_obj_frame)

lemma reg_release_frame: "reg_release p s = Some (b, s') \<Longrightarrow> reg_frame s s'"
proof -
  assume r: "reg_release p s = Some (b, s')"
  show ?thesis
  proof (cases "s' = s")
    case False
    then obtain i s2 where
      "reg_free_obj (slots s ! i) (s\<lparr>slots := (slots s)[i := slots s ! (regn s - 1)], regn := regn s - 1\<rparr>) = Some s2"
      "s' = s2\<lparr>gc_freed := gc_freed s2 + 1\<rparr>"
      using r by (auto simp: reg_release_def Let_def split: if_split_asm option.split_asm)
    then show ?thesis
      using reg_frame_trans [OF reg_frame_upd(5) reg_frame_trans [OF reg_free_obj_frame reg_frame_upd(3)]] by simp
  qed simp
qed

lemma malloc_tmp_frame: "malloc_tmp s = (b, s') \<Longrightarrow> reg_frame s s'"
  using malloc_tmp_ex [of s] reg_frame_upd(2) by auto

lemma reg_sweep_frame: "reg_sweep s = Some s' \<Longrightarrow> reg_frame s s'"
proof -
  assume r: "reg_sweep s = Some s'"
  obtain ok s1 where m: "malloc_tmp s = (ok, s1)" by fastforce
  show ?thesis
  proof (cases "gc_off s \<or> \<not> ok")
    case True
    then have "s' = s \<or> s' = s1" using r m by (cases "gc_off s") (simp_all add: reg_sweep_def)
    then show ?thesis using malloc_tmp_frame [OF m] by auto
  next
    case False
    obtain w xs dead where l: "sweep_loop (clk s1) (gc_grace s1) (regn s1 - keep_from s1) (keep_from s1)
        (keep_from s1) (slots s1) [] = (w, xs, dead)" by (metis prod_cases3)
    obtain s2 where s2: "free_ents dead (s1\<lparr>slots := xs, regn := w\<rparr>) = Some s2"
      "s' = s2\<lparr>gc_freed := gc_freed s2 + length dead\<rparr>"
      using r m False l by (auto simp: reg_sweep_def Let_def)
    show ?thesis
      using reg_frame_trans [OF malloc_tmp_frame [OF m]
          reg_frame_trans [OF reg_frame_upd(5) reg_frame_trans [OF free_ents_frame [OF s2(1)] reg_frame_upd(3)]]] s2(2)
      by simp
  qed
qed

subsection \<open>Properties\<close>

text \<open>A registry with a permanent entry, an expired string object that owns its text, an
  expired but pinned object and a young byte array.\<close>

definition sample_blocks :: "(u64 \<times> hobj) list" where
  "sample_blocks =
     [(0x10, HObj \<lparr>jmagic = JO_MAGIC, jcls = ''DictInfo'', jfields = []\<rparr>),
      (0x20, HObj \<lparr>jmagic = JO_MAGIC, jcls = ''java/lang/String'',
               jfields = [\<lparr>fname = ''.str'', ftype = CHR ''s'', fowned = True, fval = 0x28\<rparr>]\<rparr>),
      (0x28, HStr ''ni''),
      (0x30, HObj \<lparr>jmagic = JO_MAGIC, jcls = ''Candidate'', jfields = []\<rparr>),
      (0x40, HBytes \<lparr>bmagic = JB_MAGIC, bdata = 0x48, blen = 1\<rparr>),
      (0x48, HRaw ''x'')]"

definition sample_reg :: hreg where
  "sample_reg =
     \<lparr>heap = map_of sample_blocks, answers = [0x50, 0x60, 0x70], clk = 5000,
      slots = [\<lparr>rp = 0x10, rk = R_JOBJ, rt = 0, rpin = 0\<rparr>,
               \<lparr>rp = 0x20, rk = R_JOBJ, rt = 1000, rpin = 0\<rparr>,
               \<lparr>rp = 0x30, rk = R_JOBJ, rt = 1000, rpin = 1\<rparr>,
               \<lparr>rp = 0x40, rk = R_JBYTES, rt = 4000, rpin = 0\<rparr>],
      regn = 4, regcap = 4096, keep_from = 1, gc_grace = 3000, gc_off = False,
      gc_freed = 0, pin_calls = 1, last_bytes = 0x40\<rparr>"

lemma sample_reg_sel:
  "heap sample_reg = map_of sample_blocks" "answers sample_reg = [0x50, 0x60, 0x70]"
  "clk sample_reg = 5000" "regn sample_reg = 4" "regcap sample_reg = 4096"
  "keep_from sample_reg = 1" "gc_grace sample_reg = 3000" "\<not> gc_off sample_reg"
  "slots sample_reg = [\<lparr>rp = 0x10, rk = R_JOBJ, rt = 0, rpin = 0\<rparr>,
     \<lparr>rp = 0x20, rk = R_JOBJ, rt = 1000, rpin = 0\<rparr>, \<lparr>rp = 0x30, rk = R_JOBJ, rt = 1000, rpin = 1\<rparr>,
     \<lparr>rp = 0x40, rk = R_JBYTES, rt = 4000, rpin = 0\<rparr>]"
  "active sample_reg = [\<lparr>rp = 0x10, rk = R_JOBJ, rt = 0, rpin = 0\<rparr>,
     \<lparr>rp = 0x20, rk = R_JOBJ, rt = 1000, rpin = 0\<rparr>, \<lparr>rp = 0x30, rk = R_JOBJ, rt = 1000, rpin = 1\<rparr>,
     \<lparr>rp = 0x40, rk = R_JBYTES, rt = 4000, rpin = 0\<rparr>]"
  by (simp_all add: sample_reg_def active_def)

lemma sample_reg_ok: "reg_ok sample_reg"
proof -
  have "heap_chk sample_blocks" by (simp add: heap_chk_def sample_blocks_def owns_string_def)
  then have "heap_ok (heap sample_reg)" by (simp add: sample_reg_sel heap_ok_chk)
  then show ?thesis
    by (simp add: reg_ok_def ent_live_def sample_reg_sel sample_blocks_def)
qed

text \<open>C1. The grace-period sweep, with memory for its work list and collection switched on:
  it never faults (no block is freed twice or after being freed), keeps the registry
  invariant, leaves registered exactly the permanent entries and the entries that are pinned
  or younger than the grace period, in their old order, takes off the heap exactly the
  blocks of the others with what they own, leaves every block of a survivor as it is, and
  counts what it freed.\<close>

theorem reg_sweep_collects:
  assumes "reg_ok s" and "\<not> gc_off s" and "fst (malloc_tmp s)"
  shows "\<exists>s'. reg_sweep s = Some s' \<and> reg_ok s' \<and>
    active s' = take (keep_from s) (active s) @
      filter (\<lambda>e. rpin e \<noteq> 0 \<or> clk s - rt e < gc_grace s) (drop (keep_from s) (active s)) \<and>
    heap s' = heap s |` (- swept s) \<and>
    (\<forall>e \<in> set (active s'). \<forall>q \<in> footprint (heap s) (rp e). heap s' q = heap s q) \<and>
    gc_freed s' = gc_freed s + (regn s - regn s')"
proof -
  obtain s' where s': "reg_sweep s = Some s'" "reg_ok s'" "active s' = survivors s"
    "heap s' = heap s |` (- swept s)" "gc_freed s' = gc_freed s + length (victims s)"
    using reg_sweep_effect [OF assms] by blast
  have "(\<lambda>e. \<not> expired (clk s) (gc_grace s) e) = (\<lambda>e. rpin e \<noteq> 0 \<or> clk s - rt e < gc_grace s)"
    by (auto simp: expired_def fun_eq_iff)
  then have act: "active s' = take (keep_from s) (active s) @
      filter (\<lambda>e. rpin e \<noteq> 0 \<or> clk s - rt e < gc_grace s) (drop (keep_from s) (active s))"
    by (simp add: s'(3) survivors_def)
  have keep: "\<forall>e \<in> set (active s'). \<forall>q \<in> footprint (heap s) (rp e). heap s' q = heap s q"
  proof (intro ballI)
    fix e q assume e: "e \<in> set (active s')" and q: "q \<in> footprint (heap s) (rp e)"
    have "q \<notin> footprint (heap s) (rp v)" if v: "v \<in> set (victims s)" for v
    proof -
      from e v s'(3) have "e \<in> set (active s)" "v \<in> set (active s)" by (auto simp: set_active_split)
      then have "ent_live (heap s) e" "ent_live (heap s) v" using reg_okD(6) [OF assms(1)] by auto
      moreover have "rp e \<noteq> rp v"
        using distinct_survivors_victims(3) [OF reg_okD(5) [OF assms(1)]] e v s'(3) by auto
      ultimately have "footprint (heap s) (rp e) \<inter> footprint (heap s) (rp v) = {}"
        by (rule footprints_disjoint [OF reg_okD(1) [OF assms(1)]])
      with q show ?thesis by auto
    qed
    then show "heap s' q = heap s q" by (simp add: s'(4) swept_def restrict_map_def)
  qed
  have "length (active s) = length (survivors s) + length (victims s)"
    using sum_length_filter_compl [of "expired (clk s) (gc_grace s)" "drop (keep_from s) (active s)"]
    by (simp add: survivors_def victims_def)
  then have "length (victims s) = length (active s) - length (active s')" by (simp add: s'(3))
  then have fr: "gc_freed s' = gc_freed s + (regn s - regn s')"
    using reg_okD(3) [OF assms(1)] reg_okD(3) [OF s'(2)] s'(5) by (simp add: active_def)
  show ?thesis by (intro exI [of _ s'] conjI s'(1,2,4) act keep fr)
qed

theorem reg_sweep_collects_witness:
  "\<exists>s'. reg_sweep sample_reg = Some s' \<and> map rp (active s') = [0x10, 0x30, 0x40]"
proof -
  have "\<not> gc_off sample_reg" and "fst (malloc_tmp sample_reg)"
    by (simp_all add: sample_reg_sel malloc_tmp_def sample_blocks_def)
  from reg_sweep_collects [OF sample_reg_ok this] obtain s' where
    s': "reg_sweep sample_reg = Some s'"
    "active s' = take (keep_from sample_reg) (active sample_reg) @
      filter (\<lambda>e. rpin e \<noteq> 0 \<or> clk sample_reg - rt e < gc_grace sample_reg)
        (drop (keep_from sample_reg) (active sample_reg))"
    by (elim exE conjE) (rule that)
  have "map rp (active s') = [0x10, 0x30, 0x40]"
    unfolding s'(2) by (simp add: sample_reg_sel)
  with s'(1) show ?thesis by (intro exI conjI)
qed

text \<open>C2. Explicit release, on every branch: under the registry invariant it never faults. A registered
  object that is not pinned, a start-up object included, is freed with what it owns and leaves the
  registry; nothing else is freed or leaves it, and the caller is told so. Unless it was a start-up
  object the invariant holds afterwards. An object that is pinned, or that the registry does not
  know, is left alone, and the caller is told that.\<close>

theorem reg_release_correct:
  assumes "reg_ok s"
  shows "(p \<in> registered s \<and> \<not> pinned s p \<longrightarrow>
      (\<exists>s'. reg_release p s = Some (True, s') \<and> registered s' = registered s - {p} \<and>
        heap s' = heap s |` (- footprint (heap s) p) \<and>
        (\<forall>e \<in> set (active s). rp e \<noteq> p \<longrightarrow> e \<in> set (active s') \<and>
          (\<forall>q \<in> footprint (heap s) (rp e). heap s' q = heap s q)) \<and>
        (p \<notin> rp ` set (take (keep_from s) (active s)) \<longrightarrow> reg_ok s'))) \<and>
    (p \<notin> registered s \<or> pinned s p \<longrightarrow> reg_release p s = Some (False, s))"
proof (intro conjI impI)
  assume "p \<in> registered s \<and> \<not> pinned s p"
  then obtain ep where ep: "ep \<in> set (active s)" "rp ep = p" "rpin ep = 0"
    using reg_okD(7) [OF assms] by (force simp: registered_def pinned_def)
  then have r: "\<exists>e \<in> set (active s). rp e = p \<and> rpin e = 0" by blast
  obtain s' e0 where s': "reg_release p s = Some (True, s')" "registered s' = registered s - {p}"
    "heap s' = heap s |` (- footprint (heap s) p)" "rp e0 = p" "set (active s') = set (active s) - {e0}"
    "p \<notin> rp ` set (take (keep_from s) (active s)) \<longrightarrow> reg_ok s'"
    using reg_release_unpinned [OF assms r] by blast
  have "\<forall>e \<in> set (active s). rp e \<noteq> p \<longrightarrow> e \<in> set (active s') \<and>
      (\<forall>q \<in> footprint (heap s) (rp e). heap s' q = heap s q)"
  proof (intro ballI impI conjI)
    fix e assume e: "e \<in> set (active s)" "rp e \<noteq> p"
    then show "e \<in> set (active s')" using s'(4,5) by auto
    fix q assume "q \<in> footprint (heap s) (rp e)"
    moreover have "footprint (heap s) (rp e) \<inter> footprint (heap s) (rp ep) = {}"
      using footprints_disjoint [OF reg_okD(1) [OF assms]] reg_okD(6) [OF assms] e ep by blast
    ultimately show "heap s' q = heap s q" using ep(2) by (auto simp: s'(3) restrict_map_def)
  qed
  with s' show "\<exists>s'. reg_release p s = Some (True, s') \<and> registered s' = registered s - {p} \<and>
      heap s' = heap s |` (- footprint (heap s) p) \<and>
      (\<forall>e \<in> set (active s). rp e \<noteq> p \<longrightarrow> e \<in> set (active s') \<and>
        (\<forall>q \<in> footprint (heap s) (rp e). heap s' q = heap s q)) \<and>
      (p \<notin> rp ` set (take (keep_from s) (active s)) \<longrightarrow> reg_ok s')"
    by (intro exI [of _ s'] conjI)
next
  assume "p \<notin> registered s \<or> pinned s p"
  with assms show "reg_release p s = Some (False, s)" by (rule reg_release_skip)
qed

theorem reg_release_correct_witness:
  "0x28 \<in> footprint (heap sample_reg) 0x20 \<and>
   (\<exists>s'. reg_release 0x20 sample_reg = Some (True, s') \<and> registered s' = {0x10, 0x30, 0x40}) \<and>
   reg_release 0x30 sample_reg = Some (False, sample_reg)"
proof -
  have pin: "pinned sample_reg 0x30" and np: "0x20 \<in> registered sample_reg \<and> \<not> pinned sample_reg 0x20"
    and reg: "registered sample_reg - {0x20} = {0x10, 0x30, 0x40}"
    by (auto simp: pinned_def registered_def sample_reg_sel)
  have "0x28 \<in> footprint (heap sample_reg) 0x20"
    by (simp add: footprint_def sample_reg_sel sample_blocks_def owns_string_def)
  with pin np reg reg_release_correct [OF sample_reg_ok, of "0x20"]
    reg_release_correct [OF sample_reg_ok, of "0x30"]
  show ?thesis by metis
qed

text \<open>C3. Start-up objects and explicit release. The comment over the registry promises that an
  entry made before the daemon started is never collected, but \<open>reg_release\<close> does not look
  at the permanent prefix. When nothing else is registered, releasing the last start-up
  object frees it, the next sweep puts its stale slot back in use, and a second release
  frees the block twice.\<close>

theorem startup_release_resurrects:
  assumes ok: "reg_ok s" and all: "regn s = keep_from s" and ne: "0 < regn s"
    and e: "e = slots s ! (regn s - 1)" "rpin e = 0"
    and on: "\<not> gc_off s" and mem: "fst (malloc_tmp s)"
  shows "\<exists>s1 s2. reg_release (rp e) s = Some (True, s1) \<and> reg_sweep s1 = Some s2 \<and>
    rp e \<in> registered s2 \<and> heap s2 (rp e) = None \<and> reg_release (rp e) s2 = None"
proof -
  let ?n = "regn s - 1"
  have la: "length (active s) = regn s" using reg_okD(3) [OF ok] by (simp add: active_def)
  have en: "e = active s ! ?n" using ne e by (simp add: active_def)
  then have ea: "e \<in> set (active s)" using ne la by simp
  then have lv: "ent_live (heap s) e" using reg_okD(6) [OF ok] by blast
  then have p0: "rp e \<noteq> 0" using heap_okD(1) [OF reg_okD(1) [OF ok]] by (auto simp: ent_live_def)
  obtain i where i: "reg_find_locked (rp e) s = Some i"
    using ea reg_find_None [of "rp e" s] by (cases "reg_find_locked (rp e) s") (auto simp: registered_def)
  note fi = reg_find_Some [OF i ok]
  have "i = ?n"
  proof -
    have "map rp (active s) ! i = map rp (active s) ! ?n" using fi en ne la by simp
    then show ?thesis
      using reg_okD(5) [OF ok] fi(1) ne la nth_eq_iff_index_eq [of "map rp (active s)" i ?n] by simp
  qed
  let ?s1 = "s\<lparr>slots := (slots s)[?n := e], regn := ?n\<rparr>"
  have sl: "(slots s)[?n := e] = slots s" by (simp add: e(1))
  obtain lb where fr: "reg_free_obj e (s\<lparr>regn := ?n\<rparr>) =
      Some (s\<lparr>regn := ?n, heap := heap s |` (- footprint (heap s) (rp e)), last_bytes := lb\<rparr>)"
    using reg_free_obj_live [of "s\<lparr>regn := ?n\<rparr>" e] lv reg_okD(1) [OF ok] by auto
  let ?h = "heap s |` (- footprint (heap s) (rp e))"
  let ?r = "s\<lparr>regn := ?n, heap := ?h, last_bytes := lb, gc_freed := gc_freed s + 1\<rparr>"
  have rel: "reg_release (rp e) s = Some (True, ?r)"
    using p0 i \<open>i = ?n\<close> e(1) e(2) fr sl by (simp add: reg_release_def Let_def)
  have mr: "fst (malloc_tmp ?r)"
    using mem by (auto simp: malloc_tmp_def restrict_map_def split: list.splits)
  obtain as where m: "malloc_tmp ?r = (True, ?r\<lparr>answers := as\<rparr>)"
    using malloc_tmp_ok [OF mr] by blast
  have loop: "regn ?r - keep_from ?r = 0" using all ne by simp
  let ?s2 = "?r\<lparr>answers := as, regn := keep_from s, gc_freed := gc_freed s + 1\<rparr>"
  have sw: "reg_sweep ?r = Some ?s2"
    using on m loop by (simp add: reg_sweep_def)
  have "active ?s2 = active s" using all by (simp add: active_def)
  then have reg: "rp e \<in> registered ?s2" using ea by (simp add: registered_def)
  have gone: "heap ?s2 (rp e) = None" using lv by (auto simp: footprint_def restrict_map_def ent_live_def)
  have "reg_find_locked (rp e) ?s2 = Some ?n"
    using i \<open>i = ?n\<close> \<open>active ?s2 = active s\<close> by (simp add: reg_find_locked_def)
  moreover have "reg_free_obj e s3 = None" if "heap s3 = ?h" for s3 :: "'a hreg_scheme"
    using that gone by (auto simp: reg_free_obj_def get_obj_def get_bytes_def get_arr_def split: rkind.split)
  ultimately have "reg_release (rp e) ?s2 = None"
    using p0 e by (simp add: reg_release_def Let_def)
  with rel sw reg gone show ?thesis by (intro exI conjI)
qed

definition startup_reg :: hreg where
  "startup_reg = sample_reg\<lparr>regn := 1, keep_from := 1\<rparr>"

theorem startup_release_resurrects_witness:
  "\<exists>s1 s2. reg_release 0x10 startup_reg = Some (True, s1) \<and> reg_sweep s1 = Some s2 \<and>
     reg_release 0x10 s2 = None"
proof -
  have sel: "heap startup_reg = map_of sample_blocks" "slots startup_reg = slots sample_reg"
    "regn startup_reg = 1" "keep_from startup_reg = 1" "\<not> gc_off startup_reg"
    "answers startup_reg = answers sample_reg" "regcap startup_reg = 4096"
    by (simp_all add: startup_reg_def sample_reg_sel)
  have "reg_ok startup_reg"
    using sample_reg_ok by (simp add: reg_ok_def ent_live_def sample_reg_sel sel active_def)
  moreover have "fst (malloc_tmp startup_reg)"
    by (simp add: malloc_tmp_def sel sample_reg_sel sample_blocks_def)
  ultimately show ?thesis
    using startup_release_resurrects [of startup_reg "\<lparr>rp = 0x10, rk = R_JOBJ, rt = 0, rpin = 0\<rparr>"] sel
    by (simp add: sample_reg_sel) blast
qed

end
