(* ===== verification/Jni_Env.thy ===== *)
theory Jni_Env
  imports Registry
begin

unbundle bit_operations_syntax

text \<open>
  The fake \<open>JNIEnv\<close> of \<open>harness/jinterop.c\<close>: class handles, field and method identifiers,
  objects and their fields, strings, object arrays and byte arrays (the functions \<open>F_...\<close>
  that the engine's glue library calls through the function table). Class handles are the
  positions of \<open>g_clsreg\<close> plus one, 0 being the null handle; every other handle is an
  address of the heap. Logging is left out, and so are the process-lifetime copies of names
  (\<open>strdup\<close> of class, field and signature names), which the model keeps as values.
\<close>

record tokent =
  tk_cls :: nat
  tk_name :: string
  tk_sig :: string
  tk_kind :: char
  tk_tok :: u64

text \<open>\<open>lit_empty\<close> and \<open>empty_arr\<close> are addresses of static storage: the literal \<open>""\<close> and the
  static empty array of \<open>F_GetObjectField\<close>.\<close>

record jenv = hreg +
  clsreg :: "string list"
  tokens :: "tokent list"
  lit_empty :: u64
  empty_arr :: u64
  empty_str :: u64
  auto_objs :: "(string \<times> u64) list"

subsection \<open>Objects\<close>

definition obj_new :: "string \<Rightarrow> 'z hreg_scheme \<Rightarrow> u64 \<times> 'z hreg_scheme" where
  "obj_new cn s =
     (let (p, s1) = malloc_blk (HObj \<lparr>jmagic = JO_MAGIC, jcls = cn, jfields = []\<rparr>) s
      in (p, reg_add p R_JOBJ s1))"

definition str_obj :: "u64 \<Rightarrow> 'z hreg_scheme \<Rightarrow> (u64 \<times> 'z hreg_scheme) option" where
  "str_obj v s = do {
     let (p, s1) = obj_new ''java/lang/String'' s;
     s2 \<leftarrow> obj_set p ''.str'' CHR ''s'' v s1;
     Some (p, s2)
   }"

subsection \<open>Classes\<close>

fun cls_name :: "nat \<Rightarrow> 'z jenv_scheme \<Rightarrow> string option" where
  "cls_name 0 s = Some ''?''"
| "cls_name (Suc i) s = (if i < length (clsreg s) then Some (clsreg s ! i) else None)"

fun index_of :: "'a \<Rightarrow> 'a list \<Rightarrow> nat option" where
  "index_of x [] = None"
| "index_of x (y # ys) = (if x = y then Some 0 else map_option Suc (index_of x ys))"

definition F_FindClass :: "string \<Rightarrow> 'z jenv_scheme \<Rightarrow> nat \<times> 'z jenv_scheme" where
  "F_FindClass name s = (case index_of name (clsreg s) of
       Some i \<Rightarrow> (Suc i, s)
     | None \<Rightarrow>
         if length (clsreg s) < 2048
         then (Suc (length (clsreg s)), s\<lparr>clsreg := clsreg s @ [name]\<rparr>)
         else (0, s))"

definition F_GetObjectClass :: "u64 \<Rightarrow> 'z jenv_scheme \<Rightarrow> (nat \<times> 'z jenv_scheme) option" where
  "F_GetObjectClass p s =
     (if p = 0 then Some (0, s) else do { ob \<leftarrow> get_obj p s; Some (F_FindClass (jcls ob) s) })"

definition F_AllocObject :: "nat \<Rightarrow> 'z jenv_scheme \<Rightarrow> (u64 \<times> 'z jenv_scheme) option" where
  "F_AllocObject c s = do { cn \<leftarrow> cls_name c s; Some (obj_new cn s) }"

subsection \<open>Field and method identifiers\<close>

definition sig_str :: "string option \<Rightarrow> string" where
  "sig_str sig = (case sig of None \<Rightarrow> '''' | Some x \<Rightarrow> x)"

definition tok_match :: "nat \<Rightarrow> string \<Rightarrow> string option \<Rightarrow> char \<Rightarrow> tokent \<Rightarrow> bool" where
  "tok_match c name sig kind t \<longleftrightarrow>
     tk_cls t = c \<and> tk_kind t = kind \<and> tk_name t = name \<and> tk_sig t = sig_str sig"

definition token_cache ::
    "nat \<Rightarrow> string \<Rightarrow> string option \<Rightarrow> char \<Rightarrow> 'z jenv_scheme \<Rightarrow> u64 \<times> 'z jenv_scheme" where
  "token_cache c name sig kind s = (case find (tok_match c name sig kind) (tokens s) of
       Some t \<Rightarrow> (tk_tok t, s)
     | None \<Rightarrow>
         let (p, s1) = malloc_blk (HTok \<lparr>tname = name, ttype = kind, tsig = sig_str sig\<rparr>) s in
         if p = 0 then (0, s1)
         else if length (tokens s1) < 8192
         then (p, s1\<lparr>tokens := tokens s1 @
                 [\<lparr>tk_cls = c, tk_name = name, tk_sig = sig_str sig, tk_kind = kind, tk_tok = p\<rparr>]\<rparr>)
         else (p, s1))"

definition field_kind :: "string option \<Rightarrow> char" where
  "field_kind sig = (case sig of
       None \<Rightarrow> CHR ''x''
     | Some [] \<Rightarrow> CHR 0x00
     | Some (c # _) \<Rightarrow> if c = CHR ''L'' then CHR ''o'' else c)"

definition F_GetFieldID :: "nat \<Rightarrow> string \<Rightarrow> string option \<Rightarrow> 'z jenv_scheme \<Rightarrow> u64 \<times> 'z jenv_scheme" where
  "F_GetFieldID c name sig s = token_cache c name sig (field_kind sig) s"

definition F_GetStaticFieldID :: "nat \<Rightarrow> string \<Rightarrow> string option \<Rightarrow> 'z jenv_scheme \<Rightarrow> u64 \<times> 'z jenv_scheme" where
  "F_GetStaticFieldID c name sig s = F_GetFieldID c name sig s"

definition F_GetMethodID :: "nat \<Rightarrow> string \<Rightarrow> string option \<Rightarrow> 'z jenv_scheme \<Rightarrow> u64 \<times> 'z jenv_scheme" where
  "F_GetMethodID c name sig s = token_cache c name sig CHR ''m'' s"

definition F_GetStaticMethodID :: "nat \<Rightarrow> string \<Rightarrow> string option \<Rightarrow> 'z jenv_scheme \<Rightarrow> u64 \<times> 'z jenv_scheme" where
  "F_GetStaticMethodID c name sig s = token_cache c name sig CHR ''M'' s"

subsection \<open>Reading fields\<close>

definition num_field :: "char \<Rightarrow> u64 \<Rightarrow> u64 \<Rightarrow> 'z jenv_scheme \<Rightarrow> u64 option" where
  "num_field type p tok s =
     (if p = 0 then Some 0
      else do {
        ob \<leftarrow> get_obj p s;
        t \<leftarrow> get_tok tok s;
        Some (case obj_get ob (tname t) of
            Some f \<Rightarrow> if ftype f = type then fval f else 0
          | None \<Rightarrow> 0)
      })"

definition F_GetIntField :: "u64 \<Rightarrow> u64 \<Rightarrow> 'z jenv_scheme \<Rightarrow> u64 option" where
  "F_GetIntField p tok s = num_field CHR ''i'' p tok s"

definition F_GetLongField :: "u64 \<Rightarrow> u64 \<Rightarrow> 'z jenv_scheme \<Rightarrow> u64 option" where
  "F_GetLongField p tok s = num_field CHR ''l'' p tok s"

definition F_GetBooleanField :: "u64 \<Rightarrow> u64 \<Rightarrow> 'z jenv_scheme \<Rightarrow> u64 option" where
  "F_GetBooleanField p tok s = num_field CHR ''z'' p tok s"

text \<open>The bits of the \<open>float\<close> that \<open>F_GetFloatField\<close> reads: the low half of the slot
  (\<open>memcpy\<close> of four bytes of a little-endian long).\<close>

definition F_GetFloatField :: "u64 \<Rightarrow> u64 \<Rightarrow> 'z jenv_scheme \<Rightarrow> u32 option" where
  "F_GetFloatField p tok s = map_option ucast (num_field CHR ''f'' p tok s)"

text \<open>The class name that the auto-complete path cuts out of a signature, at most 95 bytes.\<close>

definition sig_class :: "string \<Rightarrow> string" where
  "sig_class sig = take 95 (takeWhile (\<lambda>c. c \<noteq> CHR '';'') (tl sig))"

text \<open>\<open>F_GetObjectField\<close>. The cache of auto-completed objects is keyed by the class name of
  the new object (\<open>sigs[cn] = o->cls\<close>), not by the signature that the lookup compares with.
  That key points into a buffer of the finished call; the model gives the code the benefit
  of the doubt and lets the bytes stay.\<close>

definition F_GetObjectField :: "u64 \<Rightarrow> u64 \<Rightarrow> 'z jenv_scheme \<Rightarrow> (u64 \<times> 'z jenv_scheme) option" where
  "F_GetObjectField p tok s =
     (if p = 0 then Some (0, s)
      else do {
        ob \<leftarrow> get_obj p s;
        t \<leftarrow> get_tok tok s;
        case (case obj_get ob (tname t) of
                Some f \<Rightarrow> if ftype f = CHR ''o'' \<or> ftype f = CHR ''s'' then Some f else None
              | None \<Rightarrow> None) of
          Some f \<Rightarrow> if ftype f = CHR ''s'' then str_obj (fval f) s else Some (fval f, s)
        | None \<Rightarrow>
            let sig = tsig t in
            if sig = ''Ljava/lang/String;'' then
              (if empty_str s = 0 then do {
                 (e, s1) \<leftarrow> str_obj (lit_empty s) s;
                 Some (e, reg_pin e 1 (s1\<lparr>empty_str := e\<rparr>))
               }
               else Some (empty_str s, s))
            else if sig \<noteq> [] \<and> hd sig = CHR ''['' then
              Some (empty_arr s, put_blk (empty_arr s) (HArr \<lparr>aelem = 0, alen = 0\<rparr>) s)
            else if sig \<noteq> [] \<and> hd sig = CHR ''L'' then
              (case find (\<lambda>(k, _). k = sig) (auto_objs s) of
                 Some (_, v) \<Rightarrow> Some (v, s)
               | None \<Rightarrow>
                   if length (auto_objs s) < 32 then
                     let (v, s1) = obj_new (sig_class sig) s in
                     if v = 0 then None
                     else Some (v, (reg_pin v 1 s1)\<lparr>auto_objs := auto_objs s @ [(sig_class sig, v)]\<rparr>)
                   else Some (0, s))
            else Some (0, s)
      })"

subsection \<open>Writing fields\<close>

definition num_set :: "char \<Rightarrow> u64 \<Rightarrow> u64 \<Rightarrow> u64 \<Rightarrow> 'z jenv_scheme \<Rightarrow> 'z jenv_scheme option" where
  "num_set type p tok v s =
     (if p = 0 then Some s else do { t \<leftarrow> get_tok tok s; obj_set p (tname t) type v s })"

definition F_SetIntField :: "u64 \<Rightarrow> u64 \<Rightarrow> u64 \<Rightarrow> 'z jenv_scheme \<Rightarrow> 'z jenv_scheme option" where
  "F_SetIntField p tok v s = num_set CHR ''i'' p tok v s"

definition F_SetBooleanField :: "u64 \<Rightarrow> u64 \<Rightarrow> u64 \<Rightarrow> 'z jenv_scheme \<Rightarrow> 'z jenv_scheme option" where
  "F_SetBooleanField p tok v s = num_set CHR ''z'' p tok v s"

text \<open>The object store of \<open>F_SetLongField\<close>; its iterator hook is in theory \<open>Cand_Queue\<close>.\<close>

definition set_long_slot :: "u64 \<Rightarrow> u64 \<Rightarrow> u64 \<Rightarrow> 'z jenv_scheme \<Rightarrow> 'z jenv_scheme option" where
  "set_long_slot p tok v s = num_set CHR ''l'' p tok v s"

definition f2bits :: "u32 \<Rightarrow> u64" where
  "f2bits x = ucast x"

definition F_SetFloatField :: "u64 \<Rightarrow> u64 \<Rightarrow> u32 \<Rightarrow> 'z jenv_scheme \<Rightarrow> 'z jenv_scheme option" where
  "F_SetFloatField p tok x s = num_set CHR ''f'' p tok (f2bits x) s"

text \<open>The object store of \<open>F_SetObjectField\<close>: a string is unpacked to its character pointer.
  The hook for pending inputs is in theory \<open>Cand_Queue\<close>.\<close>

definition set_object_slot :: "u64 \<Rightarrow> u64 \<Rightarrow> u64 \<Rightarrow> 'z jenv_scheme \<Rightarrow> 'z jenv_scheme option" where
  "set_object_slot p tok v s = do {
     j \<leftarrow> is_jobj p s;
     if \<not> j then Some s
     else do {
       t \<leftarrow> get_tok tok s;
       jv \<leftarrow> is_jobj v s;
       if jv then do {
         ob \<leftarrow> get_obj v s;
         case obj_get ob ''.str'' of
           Some sf \<Rightarrow> obj_set p (tname t) CHR ''s'' (fval sf) s
         | None \<Rightarrow> obj_set p (tname t) CHR ''o'' v s
       }
       else obj_set p (tname t) CHR ''o'' v s
     }
   }"

subsection \<open>Strings\<close>

definition F_GetStringUTFChars :: "u64 \<Rightarrow> 'z jenv_scheme \<Rightarrow> (u64 \<times> 'z jenv_scheme) option" where
  "F_GetStringUTFChars p s =
     (if p = 0 then Some (0, s)
      else do {
        ob \<leftarrow> get_obj p s;
        txt \<leftarrow> (case obj_get ob ''.str'' of Some f \<Rightarrow> get_str (fval f) s | None \<Rightarrow> Some '''');
        Some (malloc_blk (HStr txt) s)
      })"

definition F_NewStringUTF :: "u64 \<Rightarrow> 'z jenv_scheme \<Rightarrow> (u64 \<times> 'z jenv_scheme) option" where
  "F_NewStringUTF cp s = str_obj (if cp = 0 then lit_empty s else cp) s"

text \<open>\<open>F_NewObject\<close>: a new \<open>java/lang/String\<close> takes its text from the most recent byte array.\<close>

definition F_NewObject :: "nat \<Rightarrow> 'z jenv_scheme \<Rightarrow> (u64 \<times> 'z jenv_scheme) option" where
  "F_NewObject c s = do {
     cn \<leftarrow> cls_name c s;
     if cn = ''java/lang/String'' \<and> last_bytes s \<noteq> 0 then do {
       b \<leftarrow> get_bytes (last_bytes s) s;
       let n = (if 0 < sint (blen b) \<and> sint (blen b) < 2 ^ 20 then unat (blen b) else 0);
       txt \<leftarrow> (if bdata b \<noteq> 0 \<and> 0 < n
               then (case heap s (bdata b) of Some (HRaw d) \<Rightarrow> Some (c_string (take n d)) | _ \<Rightarrow> None)
               else Some '''');
       let (str, s1) = malloc_blk (HStr txt) s;
       if str = 0 \<and> bdata b \<noteq> 0 \<and> 0 < n then None
       else do {
         let (p, s2) = obj_new ''java/lang/String'' s1;
         s3 \<leftarrow> obj_setf p ''.str'' CHR ''s'' str True s2;
         Some (p, s3)
       }
     }
     else Some (obj_new cn s)
   }"

subsection \<open>Arrays\<close>

definition F_NewObjectArray :: "u64 \<Rightarrow> 'z jenv_scheme \<Rightarrow> u64 \<times> 'z jenv_scheme" where
  "F_NewObjectArray len s =
     (let (p, s1) = malloc_blk (HArr \<lparr>aelem = 0, alen = ucast len\<rparr>) s in
      if p = 0 then (0, s1)
      else
        let (q, s2) = malloc_blk (HVec (replicate (if 0 < sint len then unat len else 1) 0)) s1 in
        if q = 0 then (0, s2\<lparr>heap := (heap s2)(p := None)\<rparr>)
        else (p, reg_add p R_JARR (put_blk p (HArr \<lparr>aelem = q, alen = ucast len\<rparr>) s2)))"

definition elem_of :: "jarr \<Rightarrow> u64 \<Rightarrow> 'z hmem_scheme \<Rightarrow> u64 list option" where
  "elem_of a idx s = (case heap s (aelem a) of
       Some (HVec vs) \<Rightarrow> if unat idx < length vs then Some vs else None
     | _ \<Rightarrow> None)"

definition F_SetObjectArrayElement :: "u64 \<Rightarrow> u64 \<Rightarrow> u64 \<Rightarrow> 'z jenv_scheme \<Rightarrow> 'z jenv_scheme option" where
  "F_SetObjectArrayElement p idx v s =
     (if p = 0 then Some s
      else do {
        a \<leftarrow> get_arr p s;
        if 0 \<le> sint idx \<and> sint idx < sint (alen a) then do {
          vs \<leftarrow> elem_of a idx s;
          Some (put_blk (aelem a) (HVec (vs[unat idx := v])) s)
        }
        else Some s
      })"

definition F_GetObjectArrayElement :: "u64 \<Rightarrow> u64 \<Rightarrow> 'z jenv_scheme \<Rightarrow> u64 option" where
  "F_GetObjectArrayElement p idx s =
     (if p = 0 then Some 0
      else do {
        a \<leftarrow> get_arr p s;
        if 0 \<le> sint idx \<and> sint idx < sint (alen a)
        then do { vs \<leftarrow> elem_of a idx s; Some (vs ! unat idx) }
        else Some 0
      })"

text \<open>\<open>F_GetArrayLength\<close> tells a byte array from an object array by the first word.\<close>

definition F_GetArrayLength :: "u64 \<Rightarrow> 'z jenv_scheme \<Rightarrow> int option" where
  "F_GetArrayLength p s =
     (if p = 0 then Some 0
      else case heap s p of
        Some (HBytes b) \<Rightarrow> if bmagic b = JB_MAGIC then Some (sint (blen b)) else None
      | Some (HArr a) \<Rightarrow> if aelem a = JB_MAGIC then None else Some (sint (alen a))
      | _ \<Rightarrow> None)"

definition F_NewByteArray :: "u64 \<Rightarrow> 'z jenv_scheme \<Rightarrow> u64 \<times> 'z jenv_scheme" where
  "F_NewByteArray len s =
     (let (p, s1) = malloc_blk (HBytes \<lparr>bmagic = JB_MAGIC, bdata = 0, blen = len\<rparr>) s in
      if p = 0 then (0, s1)
      else if 0 < sint len then
        (let (q, s2) = malloc_blk (HRaw (replicate (unat len) CHR 0x00)) s1 in
         if q = 0 then (0, s2\<lparr>heap := (heap s2)(p := None)\<rparr>)
         else (p, reg_add p R_JBYTES
                    ((put_blk p (HBytes \<lparr>bmagic = JB_MAGIC, bdata = q, blen = len\<rparr>) s2)\<lparr>last_bytes := p\<rparr>)))
      else (p, reg_add p R_JBYTES (s1\<lparr>last_bytes := p\<rparr>)))"

text \<open>\<open>F_SetByteArrayRegion\<close>: the bound is tested on the wrapped 64-bit sum, and the copy
  itself is undefined when it leaves the data block.\<close>

definition F_SetByteArrayRegion ::
    "u64 \<Rightarrow> u64 \<Rightarrow> u64 \<Rightarrow> bytes option \<Rightarrow> 'z jenv_scheme \<Rightarrow> 'z jenv_scheme option" where
  "F_SetByteArrayRegion p start len buf s =
     (if p = 0 then Some s
      else do {
        b \<leftarrow> get_bytes p s;
        case buf of
          None \<Rightarrow> Some s
        | Some src \<Rightarrow>
            if bdata b = 0 \<or> sint start < 0 \<or> sint len < 0 \<or> sint (start + len) > sint (blen b) then Some s
            else (case heap s (bdata b) of
                Some (HRaw d) \<Rightarrow>
                  if unat len \<le> length src \<and> unat start + unat len \<le> length d
                  then Some (put_blk (bdata b)
                         (HRaw (take (unat start) d @ take (unat len) src @ drop (unat start + unat len) d)) s)
                  else None
              | _ \<Rightarrow> None)
      })"

definition F_GetByteArrayElements :: "u64 \<Rightarrow> 'z jenv_scheme \<Rightarrow> u64 option" where
  "F_GetByteArrayElements p s =
     (if p = 0 then Some 0 else do { b \<leftarrow> get_bytes p s; Some (bdata b) })"

subsection \<open>References\<close>

definition F_NewGlobalRef :: "u64 \<Rightarrow> 'z jenv_scheme \<Rightarrow> u64 \<times> 'z jenv_scheme" where
  "F_NewGlobalRef p s = (p, reg_pin p 1 s)"

definition F_DeleteGlobalRef :: "u64 \<Rightarrow> 'z jenv_scheme \<Rightarrow> 'z jenv_scheme" where
  "F_DeleteGlobalRef p s = reg_pin p (- 1) s"

subsection \<open>Classes and identifiers as interning tables\<close>

lemma index_of_Some: "index_of x xs = Some i \<Longrightarrow> i < length xs \<and> xs ! i = x"
  by (induction xs arbitrary: i) (auto split: if_splits)

lemma index_of_None: "index_of x xs = None \<longleftrightarrow> x \<notin> set xs"
  by (induction xs) auto

lemma index_of_nth: "distinct xs \<Longrightarrow> i < length xs \<Longrightarrow> index_of (xs ! i) xs = Some i"
  by (induction xs arbitrary: i) (auto simp: nth_Cons' nth_eq_iff_index_eq split: nat.splits)

definition class_inv :: "'z jenv_scheme \<Rightarrow> bool" where
  "class_inv s \<longleftrightarrow> distinct (clsreg s) \<and> length (clsreg s) \<le> 2048"

fun class_key :: "'z jenv_scheme \<Rightarrow> nat \<Rightarrow> string option" where
  "class_key s 0 = None"
| "class_key s (Suc i) = (if i < length (clsreg s) then Some (clsreg s ! i) else None)"

interpretation classes: intern_table F_FindClass "0" class_key "\<lambda>_. True" class_inv
proof
  fix s :: "'a jenv_scheme" and k h s'
  assume i: "class_inv s" and f: "F_FindClass k s = (h, s')"
  from f have c: "(\<exists>i. index_of k (clsreg s) = Some i \<and> h = Suc i \<and> s' = s) \<or>
      (k \<notin> set (clsreg s) \<and> length (clsreg s) < 2048 \<and> h = Suc (length (clsreg s)) \<and>
        s' = s\<lparr>clsreg := clsreg s @ [k]\<rparr>) \<or> (h = 0 \<and> s' = s)"
    by (auto simp: F_FindClass_def index_of_None split: option.splits if_splits)
  with i show "class_inv s'" by (auto simp: class_inv_def)
  show "class_key s' h' = Some k'" if "class_key s h' = Some k'" for h' k'
    using c that by (cases h') (auto simp: nth_append split: if_splits)
  show "class_key s' h = Some k" if "h \<noteq> 0"
    using c that by (auto dest: index_of_Some)
next
  fix s :: "'a jenv_scheme" and k h
  assume "class_inv s" and "class_key s h = Some k"
  then show "F_FindClass k s = (h, s)"
    by (cases h) (auto simp: F_FindClass_def class_inv_def index_of_nth split: if_splits)
qed

definition tok_key :: "tokent \<Rightarrow> nat \<times> string \<times> string \<times> char" where
  "tok_key t = (tk_cls t, tk_name t, tk_sig t, tk_kind t)"

definition token_inv :: "'z jenv_scheme \<Rightarrow> bool" where
  "token_inv s \<longleftrightarrow>
     distinct (map tok_key (tokens s)) \<and> distinct (map tk_tok (tokens s)) \<and>
     (\<forall>t \<in> set (tokens s). tk_tok t \<noteq> 0 \<and>
        heap s (tk_tok t) = Some (HTok \<lparr>tname = tk_name t, ttype = tk_kind t, tsig = tk_sig t\<rparr>))"

definition token_of_key ::
    "nat \<times> string \<times> string \<times> char \<Rightarrow> 'z jenv_scheme \<Rightarrow> u64 \<times> 'z jenv_scheme" where
  "token_of_key k s = (case k of (c, name, sg, kind) \<Rightarrow> token_cache c name (Some sg) kind s)"

definition key_of_token :: "'z jenv_scheme \<Rightarrow> u64 \<Rightarrow> (nat \<times> string \<times> string \<times> char) option" where
  "key_of_token s p = map_option tok_key (find (\<lambda>t. tk_tok t = p) (tokens s))"

lemma key_of_token_Some:
  "distinct (map tk_tok (tokens s)) \<Longrightarrow>
   key_of_token s p = Some k \<longleftrightarrow> (\<exists>t \<in> set (tokens s). tk_tok t = p \<and> tok_key t = k)"
  by (auto simp: key_of_token_def find_distinct)

lemma tok_match_key: "tok_match c name (Some sg) kind t \<longleftrightarrow> tok_key t = (c, name, sg, kind)"
  by (auto simp: tok_match_def tok_key_def sig_str_def)

interpretation idents: intern_table token_of_key "0" key_of_token
  "\<lambda>s. length (tokens s) < 8192" token_inv
proof
  fix s :: "'a jenv_scheme" and k h s'
  assume i: "token_inv s" and f: "token_of_key k s = (h, s')"
  obtain c name sg kind where k: "k = (c, name, sg, kind)" by (cases k) auto
  have dt: "distinct (map tk_tok (tokens s))" and dk: "distinct (map tok_key (tokens s))"
    using i by (auto simp: token_inv_def)
  let ?t = "\<lparr>tk_cls = c, tk_name = name, tk_sig = sg, tk_kind = kind, tk_tok = h\<rparr>"
  have cs: "(\<exists>t \<in> set (tokens s). tok_key t = k \<and> h = tk_tok t \<and> s' = s) \<or>
      (k \<notin> tok_key ` set (tokens s) \<and> h = 0 \<and> tokens s' = tokens s \<and> heap s' = heap s) \<or>
      (k \<notin> tok_key ` set (tokens s) \<and> h \<noteq> 0 \<and> heap s h = None \<and>
        heap s' = (heap s)(h \<mapsto> HTok \<lparr>tname = name, ttype = kind, tsig = sg\<rparr>) \<and>
        tokens s' = (if length (tokens s) < 8192 then tokens s @ [?t] else tokens s))"
  proof (cases "find (tok_match c name (Some sg) kind) (tokens s)")
    case (Some t)
    then have "t \<in> set (tokens s) \<and> tok_key t = k"
      by (auto dest!: find_Some_set simp: tok_match_key k)
    moreover have "h = tk_tok t \<and> s' = s"
      using Some f k by (simp add: token_of_key_def token_cache_def)
    ultimately show ?thesis by blast
  next
    case None
    then have nk: "k \<notin> tok_key ` set (tokens s)"
      by (auto simp: find_None_set tok_match_key k)
    obtain p s1 where m: "malloc_blk (HTok \<lparr>tname = name, ttype = kind, tsig = sg\<rparr>) s = (p, s1)"
      by fastforce
    moreover have "tokens s1 = tokens s"
      using m by (auto simp: malloc_blk_def split: list.splits if_splits)
    ultimately show ?thesis
      using malloc_blk_cases [OF m] f k None nk
      by (auto simp: token_of_key_def token_cache_def sig_str_def split: if_splits)
  qed
  show inv': "token_inv s'"
    using cs
  proof (elim disjE)
    assume new: "k \<notin> tok_key ` set (tokens s) \<and> h \<noteq> 0 \<and> heap s h = None \<and>
        heap s' = (heap s)(h \<mapsto> HTok \<lparr>tname = name, ttype = kind, tsig = sg\<rparr>) \<and>
        tokens s' = (if length (tokens s) < 8192 then tokens s @ [?t] else tokens s)"
    then have "h \<notin> tk_tok ` set (tokens s)" using i by (auto simp: token_inv_def)
    with new i k show "token_inv s'"
      by (auto simp: token_inv_def tok_key_def image_iff split: if_splits)
  qed (use i in \<open>auto simp: token_inv_def\<close>)
  show "key_of_token s' h' = Some k'" if "key_of_token s h' = Some k'" for h' k'
    using cs that inv' dt by (auto simp: key_of_token_Some token_inv_def split: if_splits)
  show "key_of_token s' h = Some k" if "length (tokens s) < 8192" and "h \<noteq> 0"
    using cs that inv' dt k by (auto simp: key_of_token_Some token_inv_def tok_key_def)
next
  fix s :: "'a jenv_scheme" and k h
  assume i: "token_inv s" and f: "key_of_token s h = Some k"
  obtain c name sg kind where k: "k = (c, name, sg, kind)" by (cases k) auto
  from i f obtain t where t: "t \<in> set (tokens s)" "tk_tok t = h" "tok_key t = k"
    by (auto simp: token_inv_def key_of_token_Some)
  have "distinct (map tok_key (tokens s))" using i by (simp add: token_inv_def)
  then have "find (\<lambda>t. tok_key t = k) (tokens s) = Some t" using t by (simp add: find_distinct)
  moreover have "tok_match c name (Some sg) kind = (\<lambda>t. tok_key t = k)"
    by (simp add: fun_eq_iff tok_match_key k)
  ultimately show "token_of_key k s = (h, s)"
    using t k by (simp add: token_of_key_def token_cache_def)
qed

subsection \<open>Allocating operations keep the registry sound\<close>

lemma obj_new_effect:
  fixes s :: "'z hreg_scheme"
  assumes ok: "reg_ok s" and n: "obj_new cn s = (p, s')"
  shows "reg_ok s'" and "pinned s q \<Longrightarrow> pinned s' q"
    and "(p = 0 \<and> heap s' = heap s) \<or>
      (p \<noteq> 0 \<and> heap s p = None \<and>
       heap s' = (heap s)(p \<mapsto> HObj \<lparr>jmagic = JO_MAGIC, jcls = cn, jfields = []\<rparr>))"
proof -
  let ?b = "HObj \<lparr>jmagic = JO_MAGIC, jcls = cn, jfields = []\<rparr>"
  obtain s1 where m: "malloc_blk ?b s = (p, s1)" and s': "s' = reg_add p R_JOBJ s1"
    using n by (auto simp: obj_new_def split: prod.splits)
  note mr = malloc_blk_reg [OF ok m, simplified]
  show "(p = 0 \<and> heap s' = heap s) \<or> (p \<noteq> 0 \<and> heap s p = None \<and> heap s' = (heap s)(p \<mapsto> ?b))"
    using mr(5) by (simp add: s')
  show "reg_ok s'"
  proof (cases "p = 0")
    case True
    then show ?thesis using mr(1) by (simp add: s' reg_add_def)
  next
    case False
    then show ?thesis unfolding s' using mr by (intro reg_ok_add [where b = ?b]) auto
  qed
  show "pinned s' q" if "pinned s q"
    unfolding s' using that mr(1,2) by (intro pinned_reg_add) (auto simp: pinned_def)
qed

lemma str_obj_effect:
  fixes s :: "'z hreg_scheme"
  assumes ok: "reg_ok s" and n: "str_obj v s = Some (p, s')"
  shows "reg_ok s'" and "pinned s q \<Longrightarrow> pinned s' q"
    and "(p = 0 \<and> heap s' = heap s) \<or>
      (p \<noteq> 0 \<and> heap s p = None \<and>
       heap s' = (heap s)(p \<mapsto> HObj \<lparr>jmagic = JO_MAGIC, jcls = ''java/lang/String'',
         jfields = [\<lparr>fname = ''.str'', ftype = CHR ''s'', fowned = False, fval = v\<rparr>]\<rparr>))"
proof -
  obtain s1 where o1: "obj_new ''java/lang/String'' s = (p, s1)"
    and o2: "obj_set p ''.str'' CHR ''s'' v s1 = Some s'"
    using n by (auto simp: str_obj_def split: prod.splits)
  note oe = obj_new_effect [OF ok o1]
  let ?ob = "\<lparr>jmagic = JO_MAGIC, jcls = ''java/lang/String'', jfields = []\<rparr>"
  let ?b = "HObj \<lparr>jmagic = JO_MAGIC, jcls = ''java/lang/String'',
         jfields = [\<lparr>fname = ''.str'', ftype = CHR ''s'', fowned = False, fval = v\<rparr>]\<rparr>"
  have s': "s' = s1 \<and> p = 0 \<or> s' = s1\<lparr>heap := (heap s1)(p \<mapsto> ?b)\<rparr> \<and> p \<noteq> 0"
    using oe(3) o2 by (auto simp: obj_set_def obj_setf_def obj_get_def put_blk_def)
  then show "(p = 0 \<and> heap s' = heap s) \<or> (p \<noteq> 0 \<and> heap s p = None \<and> heap s' = (heap s)(p \<mapsto> ?b))"
    using oe(3) by auto
  have act: "active s' = active s1" using s' by (auto simp: active_def)
  then show "pinned s' q" if "pinned s q" using oe(2) [OF that] by (simp add: pinned_def)
  show "reg_ok s'"
  proof (cases "p = 0")
    case True
    with s' oe(1) show ?thesis by auto
  next
    case False
    with s' have e: "s' = s1\<lparr>heap := (heap s1)(p \<mapsto> ?b)\<rparr>" by simp
    have p1: "heap s1 p = Some (HObj ?ob)" using False oe(3) by simp
    have "heap_ok (heap s')"
      unfolding e using False p1 reg_okD(1) [OF oe(1)]
      by (auto intro!: heap_ok_update simp: owns_string_def)
    moreover have "ent_live (heap s') e'" if "e' \<in> set (active s1)" for e'
      using reg_okD(6) [OF oe(1) that] p1 unfolding e by (auto simp: ent_live_def)
    ultimately show ?thesis by (rule reg_ok_frame [OF oe(1)]) (simp_all add: e)
  qed
qed

text \<open>An array: a handle block, then its data block, then registration; or the handle block is
  given back when there is no memory for the data.\<close>

lemma reg_two_blocks:
  fixes s :: "'z hreg_scheme"
  assumes ok: "reg_ok s" and m1: "malloc_blk b0 s = (p, s1)" "p \<noteq> 0" and b0: "shape_ok b0" "owned b0 = []"
    and m2: "malloc_blk pay s1 = (q, s2)" and pay: "is_payload pay" "shape_ok pay" and q: "q \<noteq> 0"
    and b: "shape_ok b" "owned b = [q]" "kind_of b = Some k" "\<not> is_payload b0"
    and s3: "heap s3 = (heap s2)(p \<mapsto> b)" "slots s3 = slots s2" "regn s3 = regn s2"
      "regcap s3 = regcap s2" "keep_from s3 = keep_from s2"
  shows "reg_ok (reg_add p k s3)" and "pinned s r \<Longrightarrow> pinned (reg_add p k s3) r"
proof -
  note r1 = malloc_blk_reg [OF ok m1(1) b0]
  have np: "owned pay = []" using pay by simp
  note r2 = malloc_blk_reg [OF r1(1) m2 pay(2) np]
  have h1: "heap s p = None" "heap s1 = (heap s)(p \<mapsto> b0)" using r1(5) m1(2) by auto
  have act: "active s2 = active s" using r1(2) r2(2) by simp
  have nr: "p \<notin> registered s2" using r1(4) act r1(2) by (simp add: registered_def)
  have act3: "active s3 = active s" using act s3 by (simp add: active_def)
  have h2: "heap s1 q = None" "heap s2 = (heap s1)(q \<mapsto> pay)" using r2(5) q by auto
  then have pq: "p \<noteq> q" and p2: "heap s2 p = Some b0" using h1 by auto
  have "heap_ok (heap s3)"
    unfolding s3
  proof (rule heap_ok_update [OF reg_okD(1) [OF r2(1)] m1(2)])
    show "\<exists>c. heap s2 x = Some c \<and> is_payload c" if "x \<in> set (owned b)" for x
      using that b h2 pay by simp
    show "set (owned b) \<inter> set (owned b') = {}" if "heap s2 p' = Some b'" for p' b'
    proof -
      have "q \<notin> set (owned b')"
      proof
        assume qq: "q \<in> set (owned b')"
        then have "p' \<noteq> q" using that h2 np by auto
        then have "heap s1 p' = Some b'" using that h2 by simp
        with heap_okD(4) [OF reg_okD(1) [OF r1(1)] _ qq] h2 show False by auto
      qed
      then show ?thesis using b by simp
    qed
  qed (use b p2 in auto)
  moreover have "ent_live (heap s3) e" if "e \<in> set (active s2)" for e
    using reg_okD(6) [OF r2(1) that] nr that unfolding s3 by (auto simp: ent_live_def registered_def)
  ultimately have ok3: "reg_ok s3" using reg_ok_frame [OF r2(1)] s3 by blast
  show "reg_ok (reg_add p k s3)"
    using nr act act3 b by (intro reg_ok_add [OF ok3, of _ b]) (auto simp: s3 registered_def)
  show "pinned (reg_add p k s3) r" if "pinned s r"
    using that act3 by (intro pinned_reg_add [OF ok3]) (simp add: pinned_def)
qed

lemma reg_two_blocks_fail:
  fixes s :: "'z hreg_scheme"
  assumes ok: "reg_ok s" and m1: "malloc_blk b0 s = (p, s1)" "p \<noteq> 0" and b0: "shape_ok b0" "owned b0 = []"
    and m2: "malloc_blk pay s1 = (0, s2)" and pay: "is_payload pay" "shape_ok pay"
    and s3: "heap s3 = (heap s2)(p := None)" "slots s3 = slots s2" "regn s3 = regn s2"
      "regcap s3 = regcap s2" "keep_from s3 = keep_from s2"
  shows "reg_ok s3" and "pinned s r \<Longrightarrow> pinned s3 r"
proof -
  note r1 = malloc_blk_reg [OF ok m1(1) b0]
  have np: "owned pay = []" using pay by simp
  note r2 = malloc_blk_reg [OF r1(1) m2 pay(2) np]
  have h: "heap s3 = heap s" using r1(5) r2(5) m1(2) s3(1) by (auto simp: fun_eq_iff)
  have act: "active s2 = active s" using r1(2) r2(2) by simp
  have "heap_ok (heap s3)" using h reg_okD(1) [OF ok] by simp
  moreover have "ent_live (heap s3) e" if "e \<in> set (active s2)" for e
    using reg_okD(6) [OF ok] that act h by simp
  ultimately have rf: "reg_ok s3" "active s3 = active s2" using reg_ok_frame [OF r2(1)] s3 by blast+
  show "reg_ok s3" by (rule rf(1))
  show "pinned s3 r" if "pinned s r" using that rf(2) act by (simp add: pinned_def)
qed

lemma F_NewByteArray_effect:
  assumes ok: "reg_ok s" and n: "F_NewByteArray len s = (p, s')"
  shows "reg_ok s' \<and> (pinned s r \<longrightarrow> pinned s' r)"
proof -
  let ?bare = "HBytes \<lparr>bmagic = JB_MAGIC, bdata = 0, blen = len\<rparr>"
  let ?pay = "HRaw (replicate (unat len) CHR 0x00)"
  obtain p0 s1 where m1: "malloc_blk ?bare s = (p0, s1)" by fastforce
  obtain q s2 where m2: "malloc_blk ?pay s1 = (q, s2)" by fastforce
  let ?b = "HBytes \<lparr>bmagic = JB_MAGIC, bdata = q, blen = len\<rparr>"
  let ?s3 = "(put_blk p0 ?b s2)\<lparr>last_bytes := p0\<rparr>"
  note r1 = malloc_blk_reg [OF ok m1, simplified]
  consider (null) "p0 = 0" | (nodata) "p0 \<noteq> 0" "\<not> 0 < sint len"
    | (fail) "p0 \<noteq> 0" "0 < sint len" "q = 0" | (full) "p0 \<noteq> 0" "0 < sint len" "q \<noteq> 0" by blast
  then show ?thesis
  proof cases
    case null
    then show ?thesis using n m1 r1 by (auto simp: F_NewByteArray_def pinned_def)
  next
    case nodata
    let ?s1 = "s1\<lparr>last_bytes := p0\<rparr>"
    have s': "s' = reg_add p0 R_JBYTES ?s1"
      using n m1 nodata by (auto simp: F_NewByteArray_def)
    have a: "active ?s1 = active s" and ok1: "reg_ok ?s1" and nr: "p0 \<notin> registered ?s1"
      using r1 by (auto simp: active_def reg_ok_def registered_def)
    have hp: "heap ?s1 p0 = Some ?bare" using r1(5) nodata(1) by auto
    have "reg_ok s'"
      unfolding s' using nr by (intro reg_ok_add [OF ok1, where b = ?bare] impI hp) simp_all
    moreover have "pinned s' r" if "pinned s r"
      unfolding s' using that a by (intro pinned_reg_add [OF ok1]) (simp add: pinned_def)
    ultimately show ?thesis by blast
  next
    case fail
    then have "s' = s2\<lparr>heap := (heap s2)(p0 := None)\<rparr>"
      using n m1 m2 by (auto simp: F_NewByteArray_def)
    then show ?thesis
      using reg_two_blocks_fail [OF ok m1 fail(1) _ _ m2 [unfolded fail(3)], of s'] by simp
  next
    case full
    then have s': "s' = reg_add p0 R_JBYTES ?s3"
      using n m1 m2 by (auto simp: F_NewByteArray_def)
    have "reg_ok (reg_add p0 R_JBYTES ?s3)" "pinned s r \<Longrightarrow> pinned (reg_add p0 R_JBYTES ?s3) r"
      by (rule reg_two_blocks [OF ok m1 full(1) _ _ m2 _ _ full(3), of ?b]; simp add: full(3) put_blk_def)+
    then show ?thesis unfolding s' by blast
  qed
qed

lemma F_NewObjectArray_effect:
  assumes ok: "reg_ok s" and n: "F_NewObjectArray len s = (p, s')"
  shows "reg_ok s' \<and> (pinned s r \<longrightarrow> pinned s' r)"
proof -
  let ?bare = "HArr \<lparr>aelem = 0, alen = ucast len\<rparr>"
  let ?pay = "HVec (replicate (if 0 < sint len then unat len else 1) 0)"
  obtain p0 s1 where m1: "malloc_blk ?bare s = (p0, s1)" by fastforce
  obtain q s2 where m2: "malloc_blk ?pay s1 = (q, s2)" by fastforce
  let ?b = "HArr \<lparr>aelem = q, alen = ucast len\<rparr>"
  note r1 = malloc_blk_reg [OF ok m1, simplified]
  consider (null) "p0 = 0" | (fail) "p0 \<noteq> 0" "q = 0" | (full) "p0 \<noteq> 0" "q \<noteq> 0" by blast
  then show ?thesis
  proof cases
    case null
    then show ?thesis using n m1 r1 by (auto simp: F_NewObjectArray_def pinned_def)
  next
    case fail
    then have "s' = s2\<lparr>heap := (heap s2)(p0 := None)\<rparr>"
      using n m1 m2 by (auto simp: F_NewObjectArray_def)
    then show ?thesis
      using reg_two_blocks_fail [OF ok m1 fail(1) _ _ m2 [unfolded fail(2)], of s'] by simp
  next
    case full
    then have s': "s' = reg_add p0 R_JARR (put_blk p0 ?b s2)"
      using n m1 m2 by (auto simp: F_NewObjectArray_def)
    have "reg_ok (reg_add p0 R_JARR (put_blk p0 ?b s2))"
      "pinned s r \<Longrightarrow> pinned (reg_add p0 R_JARR (put_blk p0 ?b s2)) r"
      by (rule reg_two_blocks [OF ok m1 full(1) _ _ m2 _ _ full(2), of ?b]; simp add: full(2) put_blk_def)+
    then show ?thesis unfolding s' by blast
  qed
qed

subsection \<open>A sample environment\<close>

text \<open>A start-up object, a pinned object with an integer and an owned string, a byte array, an
  object array, two identifiers, and an expired string; used by the concrete runs below.\<close>

definition env_blocks :: "(u64 \<times> hobj) list" where
  "env_blocks =
     [(0x10, HObj \<lparr>jmagic = JO_MAGIC, jcls = ''InitInfo'', jfields = []\<rparr>),
      (0x30, HObj \<lparr>jmagic = JO_MAGIC, jcls = ''PendingInput'', jfields =
               [\<lparr>fname = ''index'', ftype = CHR ''i'', fowned = False, fval = 7\<rparr>,
                \<lparr>fname = ''label'', ftype = CHR ''s'', fowned = True, fval = 0x38\<rparr>]\<rparr>),
      (0x38, HStr ''ni''),
      (0x40, HBytes \<lparr>bmagic = JB_MAGIC, bdata = 0x48, blen = 4\<rparr>),
      (0x48, HRaw ''abcd''),
      (0x50, HArr \<lparr>aelem = 0x58, alen = 2\<rparr>),
      (0x58, HVec [0, 0x30]),
      (0x60, HTok \<lparr>tname = ''index'', ttype = CHR ''I'', tsig = ''I''\<rparr>),
      (0x68, HTok \<lparr>tname = ''match'', ttype = CHR ''o'', tsig = ''Ljava/lang/String;''\<rparr>),
      (0x70, HObj \<lparr>jmagic = JO_MAGIC, jcls = ''java/lang/String'',
               jfields = [\<lparr>fname = ''.str'', ftype = CHR ''s'', fowned = True, fval = 0x78\<rparr>]\<rparr>),
      (0x78, HStr ''hao''),
      (0x80, HStr []),
      (0x88, HArr \<lparr>aelem = 0, alen = 0\<rparr>),
      (0xe0, HTok \<lparr>tname = ''keyboard'', ttype = CHR ''o'', tsig = ''LKeyboard;''\<rparr>)]"

definition sample_env :: jenv where
  "sample_env =
     \<lparr>heap = map_of env_blocks, answers = [0x90, 0xa0, 0xb0, 0xc0], clk = 5000,
      slots = [\<lparr>rp = 0x10, rk = R_JOBJ, rt = 0, rpin = 0\<rparr>,
               \<lparr>rp = 0x30, rk = R_JOBJ, rt = 1000, rpin = 1\<rparr>,
               \<lparr>rp = 0x40, rk = R_JBYTES, rt = 4000, rpin = 0\<rparr>,
               \<lparr>rp = 0x50, rk = R_JARR, rt = 4000, rpin = 0\<rparr>,
               \<lparr>rp = 0x70, rk = R_JOBJ, rt = 1000, rpin = 0\<rparr>],
      regn = 5, regcap = 4096, keep_from = 1, gc_grace = 3000, gc_off = False,
      gc_freed = 0, pin_calls = 1, last_bytes = 0x40,
      clsreg = [''java/lang/String'', ''PendingInput''],
      tokens = [\<lparr>tk_cls = 2, tk_name = ''index'', tk_sig = ''I'', tk_kind = CHR ''I'', tk_tok = 0x60\<rparr>,
                \<lparr>tk_cls = 2, tk_name = ''match'', tk_sig = ''Ljava/lang/String;'', tk_kind = CHR ''o'', tk_tok = 0x68\<rparr>],
      lit_empty = 0x80, empty_arr = 0x88, empty_str = 0, auto_objs = []\<rparr>"

lemma sample_env_sel:
  "heap sample_env = map_of env_blocks" "answers sample_env = [0x90, 0xa0, 0xb0, 0xc0]"
  "clk sample_env = 5000" "regn sample_env = 5" "regcap sample_env = 4096"
  "keep_from sample_env = 1" "gc_grace sample_env = 3000" "\<not> gc_off sample_env"
  "last_bytes sample_env = 0x40" "auto_objs sample_env = []" "empty_str sample_env = 0"
  "lit_empty sample_env = 0x80" "empty_arr sample_env = 0x88"
  "clsreg sample_env = [''java/lang/String'', ''PendingInput'']"
  "slots sample_env = [\<lparr>rp = 0x10, rk = R_JOBJ, rt = 0, rpin = 0\<rparr>,
     \<lparr>rp = 0x30, rk = R_JOBJ, rt = 1000, rpin = 1\<rparr>, \<lparr>rp = 0x40, rk = R_JBYTES, rt = 4000, rpin = 0\<rparr>,
     \<lparr>rp = 0x50, rk = R_JARR, rt = 4000, rpin = 0\<rparr>, \<lparr>rp = 0x70, rk = R_JOBJ, rt = 1000, rpin = 0\<rparr>]"
  "active sample_env = slots sample_env"
  "tokens sample_env =
     [\<lparr>tk_cls = 2, tk_name = ''index'', tk_sig = ''I'', tk_kind = CHR ''I'', tk_tok = 0x60\<rparr>,
      \<lparr>tk_cls = 2, tk_name = ''match'', tk_sig = ''Ljava/lang/String;'', tk_kind = CHR ''o'', tk_tok = 0x68\<rparr>]"
  by (simp_all add: sample_env_def active_def)

lemma sample_env_ok: "reg_ok sample_env"
proof -
  have "heap_chk env_blocks" by (simp add: heap_chk_def env_blocks_def owns_string_def)
  then have "heap_ok (heap sample_env)" by (simp add: sample_env_sel heap_ok_chk)
  then show ?thesis
    by (simp add: reg_ok_def ent_live_def sample_env_sel env_blocks_def)
qed

lemma sample_env_tokens: "token_inv sample_env"
  by (simp add: token_inv_def tok_key_def sample_env_sel env_blocks_def)

subsection \<open>Properties of handles and fields\<close>

lemma sig_str_Some [simp]: "sig_str (Some x) = x"
  by (simp add: sig_str_def)

lemma token_cache_key: "token_cache c name sig kind s = token_of_key (c, name, sig_str sig, kind) s"
proof -
  have "tok_match c name (Some (sig_str sig)) kind = tok_match c name sig kind"
    by (simp add: fun_eq_iff tok_match_def)
  then show ?thesis by (simp only: token_of_key_def token_cache_def prod.case sig_str_Some)
qed

text \<open>C4. Field identifiers are canonical: while the cache has room, once a field identifier has
  been handed out, the same class, name and signature give the same identifier after any
  later requests for identifiers, without a new allocation; its block still carries the name
  and the kind; and a request for another class, name or signature gives another one.\<close>

theorem field_ids_canonical:
  assumes "token_inv s" and "length (tokens s) < 8192" and "F_GetFieldID c name sig s = (h, s1)"
    and "h \<noteq> 0" and "run_list token_of_key ks s1 = (hs, s2)"
  shows "F_GetFieldID c name sig s2 = (h, s2) \<and>
    heap s2 h = Some (HTok \<lparr>tname = name, ttype = field_kind sig, tsig = sig_str sig\<rparr>) \<and>
    (\<forall>c' name' sig' h' s3. length (tokens s2) < 8192 \<longrightarrow> F_GetFieldID c' name' sig' s2 = (h', s3) \<longrightarrow>
       h' \<noteq> 0 \<longrightarrow> (c', name', sig_str sig') \<noteq> (c, name, sig_str sig) \<longrightarrow> h' \<noteq> h)"
proof (intro conjI allI impI)
  let ?k = "(c, name, sig_str sig, field_kind sig)"
  have f: "token_of_key ?k s = (h, s1)" using assms(3) by (simp add: F_GetFieldID_def token_cache_key)
  show "F_GetFieldID c name sig s2 = (h, s2)"
    using idents.intern_stable [OF assms(1,2) f assms(4,5)] by (simp add: F_GetFieldID_def token_cache_key)
  have i1: "token_inv s1" and b1: "key_of_token s1 h = Some ?k"
    using idents.intern_inv idents.intern_binds assms f by blast+
  then have i2: "token_inv s2" and b2: "key_of_token s2 h = Some ?k"
    using idents.run_list_keeps [OF i1 assms(5)] by auto
  then show "heap s2 h = Some (HTok \<lparr>tname = name, ttype = field_kind sig, tsig = sig_str sig\<rparr>)"
    by (auto simp: key_of_token_Some token_inv_def tok_key_def)
  fix c' name' sig' h' s3
  assume *: "length (tokens s2) < 8192" "F_GetFieldID c' name' sig' s2 = (h', s3)" "h' \<noteq> 0"
    "(c', name', sig_str sig') \<noteq> (c, name, sig_str sig)"
  have "token_of_key (c', name', sig_str sig', field_kind sig') s2 = (h', s3)"
    using *(2) by (simp add: F_GetFieldID_def token_cache_key)
  with idents.intern_inj [OF assms(1,2) f assms(4,5) *(1) this *(3)] *(4) show "h' \<noteq> h" by auto
qed

theorem field_ids_canonical_witness:
  "\<exists>h s1. F_GetFieldID 2 ''label'' (Some ''Ljava/lang/String;'') sample_env = (h, s1) \<and> h = 0x90 \<and>
     F_GetFieldID 2 ''label'' (Some ''Ljava/lang/String;'') s1 = (h, s1)"
proof -
  obtain h s1 where f: "F_GetFieldID 2 ''label'' (Some ''Ljava/lang/String;'') sample_env = (h, s1)" by fastforce
  then have h: "h = 0x90"
    by (auto simp: F_GetFieldID_def token_cache_def malloc_blk_def tok_match_def sample_env_sel env_blocks_def)
  have "F_GetFieldID 2 ''label'' (Some ''Ljava/lang/String;'') s1 = (h, s1)"
    using field_ids_canonical [OF sample_env_tokens _ f, of "[]"] by (simp add: h sample_env_sel)
  with f h show ?thesis by (intro exI conjI)
qed

text \<open>Class handles: the handle a class name gets names that class in \<open>cls_name\<close>, stays its
  handle through any later lookups, and is never the handle of another class. (The table
  holds 2048 classes; the lookup of a new one after that gives the null handle.)\<close>

theorem class_handles_canonical:
  assumes "class_inv s" and "F_FindClass cn s = (h, s1)" and "h \<noteq> 0"
    and "run_list F_FindClass ks s1 = (hs, s2)"
  shows "F_FindClass cn s2 = (h, s2) \<and> cls_name h s2 = Some cn \<and>
    (\<forall>cn' s3. F_FindClass cn' s2 = (h, s3) \<longrightarrow> cn' = cn)"
proof (intro conjI allI impI)
  show "F_FindClass cn s2 = (h, s2)"
    using classes.intern_stable [OF assms(1) _ assms(2,3,4)] by simp
  have i1: "class_inv s1" and b1: "class_key s1 h = Some cn"
    using classes.intern_inv classes.intern_binds assms by blast+
  then have b2: "class_key s2 h = Some cn" using classes.run_list_keeps [OF i1 assms(4)] by auto
  then show "cls_name h s2 = Some cn" by (cases h) (auto split: if_splits)
  show "cn' = cn" if "F_FindClass cn' s2 = (h, s3)" for cn' s3
    using classes.intern_inj [OF assms(1) _ assms(2-4) _ that assms(3)] by blast
qed

theorem class_handles_canonical_witness:
  "\<exists>s1. F_FindClass ''Candidate'' sample_env = (3, s1) \<and> cls_name 3 s1 = Some ''Candidate'' \<and>
     F_FindClass ''Candidate'' s1 = (3, s1)"
proof -
  have i: "class_inv sample_env" by (simp add: class_inv_def sample_env_sel)
  have f: "F_FindClass ''Candidate'' sample_env =
      (3, sample_env\<lparr>clsreg := [''java/lang/String'', ''PendingInput'', ''Candidate'']\<rparr>)"
    by (simp add: F_FindClass_def sample_env_sel)
  show ?thesis
    using class_handles_canonical [OF i f, of "[]"] f by (intro exI conjI) auto
qed

lemma obj_set_reg:
  fixes s :: "'z hreg_scheme"
  assumes ok: "reg_ok s" and p: "heap s p = Some (HObj ob)" and room: "room_for ob name"
    and s': "s' = s\<lparr>heap := (heap s |` (- released_by_set ob name v))(p \<mapsto>
               HObj (set_fields ob \<lparr>fname = name, ftype = type, fowned = False, fval = v\<rparr>))\<rparr>"
  shows "obj_set p name type v s = Some s'" and "reg_ok s'" and "active s' = active s"
    and "q \<in> released_by_set ob name v \<Longrightarrow> \<exists>c. heap s q = Some c \<and> is_payload c"
proof -
  have hok: "heap_ok (heap s)" by (rule reg_okD(1) [OF ok])
  let ?D = "released_by_set ob name v"
  show "obj_set p name type v s = Some s'" using obj_set_effect [OF hok p room] s' by simp
  have D: "\<exists>c. heap s q = Some c \<and> is_payload c" if "q \<in> ?D" for q
    using that heap_okD(4) [OF hok p, of q]
    by (auto simp: released_by_set_def split: option.splits if_splits dest!: obj_get_Some)
  then show "\<exists>c. heap s q = Some c \<and> is_payload c" if "q \<in> ?D" using that .
  have lv: "ent_live (heap s') e" if e: "e \<in> set (active s)" for e
  proof -
    obtain b where b: "heap s (rp e) = Some b" "kind_of b = Some (rk e)"
      using reg_okD(6) [OF ok e] by (auto simp: ent_live_def)
    then have "rp e \<notin> ?D" using D [of "rp e"] kind_not_payload by fastforce
    with b p show ?thesis by (auto simp: s' ent_live_def restrict_map_def)
  qed
  have "heap_ok (heap s')" using heap_ok_obj_set [OF hok p room refl] by (simp add: s')
  then show "reg_ok s'" and "active s' = active s"
    using reg_ok_frame [OF ok _ lv] by (simp_all add: s')
qed

text \<open>C6. Writing an integer field of a live object never faults and keeps the heap invariant.
  Unless the 48 slots are used up by other names (then nothing happens), reading the field
  back gives the value, reading it with another type gives 0, every other field of every
  object reads as before, and the only block released is the string the field owned.\<close>

theorem int_field_roundtrip:
  assumes ok: "reg_ok s" and p: "heap s p = Some (HObj ob)" and t: "heap s tok = Some (HTok t)"
  shows "\<exists>s'. F_SetIntField p tok v s = Some s' \<and> reg_ok s' \<and>
    (if room_for ob (tname t)
     then F_GetIntField p tok s' = Some v \<and> F_GetLongField p tok s' = Some 0 \<and>
       F_GetBooleanField p tok s' = Some 0 \<and>
       (\<forall>q ob'. heap s q = Some (HObj ob') \<longrightarrow>
          (\<exists>ob''. heap s' q = Some (HObj ob'') \<and>
            (\<forall>name. (q, name) \<noteq> (p, tname t) \<longrightarrow> obj_get ob'' name = obj_get ob' name))) \<and>
       {q. heap s q \<noteq> None \<and> heap s' q = None} = released_by_set ob (tname t) v
     else s' = s)"
proof -
  have hok: "heap_ok (heap s)" by (rule reg_okD(1) [OF ok])
  have p0: "p \<noteq> 0" using heap_okD(1) [OF hok] p by auto
  have gt: "get_tok tok s = Some t" using t by simp
  have set_eq: "F_SetIntField p tok v s = obj_set p (tname t) CHR ''i'' v s"
    using p0 unfolding F_SetIntField_def num_set_def gt by simp
  show ?thesis
  proof (cases "room_for ob (tname t)")
    case False
    then show ?thesis using set_eq obj_set_full [OF p p0] ok by simp
  next
    case True
    let ?g = "\<lparr>fname = tname t, ftype = CHR ''i'', fowned = False, fval = v\<rparr>"
    let ?D = "released_by_set ob (tname t) v"
    let ?s = "s\<lparr>heap := (heap s |` (- ?D))(p \<mapsto> HObj (set_fields ob ?g))\<rparr>"
    note os = obj_set_reg [OF ok p True refl]
    have run: "F_SetIntField p tok v s = Some ?s" using set_eq os(1) by simp
    have D: "\<exists>c. heap s q = Some c \<and> is_payload c" if "q \<in> ?D" for q using os(4) that .
    have np: "p \<notin> ?D" using D [of p] p by auto
    have nt: "tok \<notin> ?D" using D [of tok] t by auto
    have tk': "get_tok tok ?s = Some t" using t p nt by auto
    have ob': "get_obj p ?s = Some (set_fields ob ?g)" by simp
    have "reg_ok ?s" by (rule os(2))
    moreover have "F_GetIntField p tok ?s = Some v \<and> F_GetLongField p tok ?s = Some 0 \<and>
        F_GetBooleanField p tok ?s = Some 0"
      using p0 unfolding F_GetIntField_def F_GetLongField_def F_GetBooleanField_def num_field_def tk' ob'
      by (simp add: obj_get_set_fields)
    moreover have "\<exists>ob''. heap ?s q = Some (HObj ob'') \<and>
        (\<forall>name. (q, name) \<noteq> (p, tname t) \<longrightarrow> obj_get ob'' name = obj_get ob' name)"
      if "heap s q = Some (HObj ob')" for q ob'
      using that p D [of q] by (cases "q = p") (auto simp: obj_get_set_fields restrict_map_def)
    moreover have "{q. heap s q \<noteq> None \<and> heap ?s q = None} = ?D"
      using D np by (auto simp: restrict_map_def split: if_splits)
    ultimately show ?thesis using run True by (intro exI [of _ ?s]) simp
  qed
qed

theorem int_field_roundtrip_witness:
  "\<exists>s'. F_SetIntField 0x30 0x60 9 sample_env = Some s' \<and> F_GetIntField 0x30 0x60 s' = Some 9"
proof -
  let ?ob = "\<lparr>jmagic = JO_MAGIC, jcls = ''PendingInput'', jfields =
               [\<lparr>fname = ''index'', ftype = CHR ''i'', fowned = False, fval = 7\<rparr>,
                \<lparr>fname = ''label'', ftype = CHR ''s'', fowned = True, fval = 0x38\<rparr>]\<rparr> :: jobj"
  let ?t = "\<lparr>tname = ''index'', ttype = CHR ''I'', tsig = ''I''\<rparr> :: jidtoken"
  have p: "heap sample_env 0x30 = Some (HObj ?ob)" and t: "heap sample_env 0x60 = Some (HTok ?t)"
    by (simp_all add: sample_env_sel env_blocks_def)
  have r: "room_for ?ob (tname ?t)" by (simp add: room_for_def)
  show ?thesis using int_field_roundtrip [OF sample_env_ok p t, of 9] r by auto
qed

subsection \<open>Arrays as stores\<close>

text \<open>An object array of length \<open>n\<close> whose data block has room for its elements.\<close>

definition arr_valid :: "u64 \<Rightarrow> int \<Rightarrow> 'z jenv_scheme \<Rightarrow> bool" where
  "arr_valid p n s \<longleftrightarrow> p \<noteq> 0 \<and>
     (\<exists>a vs. heap s p = Some (HArr a) \<and> sint (alen a) = n \<and> aelem a \<noteq> JB_MAGIC \<and>
        heap s (aelem a) = Some (HVec vs) \<and> n \<le> int (length vs))"

definition in_range :: "int \<Rightarrow> u64 \<Rightarrow> bool" where
  "in_range n i \<longleftrightarrow> 0 \<le> sint i \<and> sint i < n"

lemma arr_read:
  assumes a: "heap s p = Some (HArr a)" "p \<noteq> 0" "heap s (aelem a) = Some (HVec vs)" "sint (alen a) \<le> int (length vs)"
  shows "F_GetObjectArrayElement p i s = Some (if in_range (sint (alen a)) i then vs ! unat i else 0)"
proof -
  have "get_arr p s = Some a" using a by simp
  moreover have "unat i < length vs" if "in_range (sint (alen a)) i"
    using that a(4) by (auto simp: in_range_def intro: sint_index)
  ultimately show ?thesis using a by (auto simp: F_GetObjectArrayElement_def elem_of_def in_range_def)
qed

lemma arr_write:
  assumes a: "heap s p = Some (HArr a)" "p \<noteq> 0" "heap s (aelem a) = Some (HVec vs)" "sint (alen a) \<le> int (length vs)"
  shows "F_SetObjectArrayElement p i v s =
    Some (if in_range (sint (alen a)) i then put_blk (aelem a) (HVec (vs[unat i := v])) s else s)"
proof -
  have "get_arr p s = Some a" using a by simp
  moreover have "unat i < length vs" if "in_range (sint (alen a)) i"
    using that a(4) by (auto simp: in_range_def intro: sint_index)
  ultimately show ?thesis using a by (auto simp: F_SetObjectArrayElement_def elem_of_def in_range_def)
qed

interpretation arrays: cell_store "F_GetObjectArrayElement p" "F_SetObjectArrayElement p"
  "arr_valid p n" "in_range n" for p n
proof
  fix s :: "'a jenv_scheme" and i v j :: u64 and s'
  assume "arr_valid p n s"
  then obtain a vs where a: "heap s p = Some (HArr a)" "p \<noteq> 0" "heap s (aelem a) = Some (HVec vs)"
    "sint (alen a) \<le> int (length vs)" and n: "n = sint (alen a)" and m: "aelem a \<noteq> JB_MAGIC"
    by (auto simp: arr_valid_def)
  let ?s = "put_blk (aelem a) (HVec (vs[unat i := v])) s"
  have pa: "p \<noteq> aelem a" using a by auto
  have a': "heap ?s p = Some (HArr a)" "heap ?s (aelem a) = Some (HVec (vs[unat i := v]))"
    "sint (alen a) \<le> int (length (vs[unat i := v]))" using a pa by simp_all
  show "\<exists>s'. F_SetObjectArrayElement p i v s = Some s' \<and> arr_valid p n s'"
    using arr_write [OF a, of i v] a a' m n by (auto simp: arr_valid_def)
  assume w: "F_SetObjectArrayElement p i v s = Some s'"
  show "F_GetObjectArrayElement p j s' = (if j = i \<and> in_range n i then Some v else F_GetObjectArrayElement p j s)"
  proof (cases "in_range n i")
    case False
    then show ?thesis using w arr_write [OF a, of i v] n by simp
  next
    case True
    then have s': "s' = ?s" using w arr_write [OF a, of i v] n by simp
    have "unat i < length vs" using True a(4) by (auto simp: in_range_def n intro: sint_index)
    then show ?thesis
      using True n arr_read [OF a, of j] arr_read [OF a'(1) a(2) a'(2,3), of j]
      using word_unat_eq_iff [of i j] by (cases "j = i") (auto simp: s' nth_list_update)
  qed
qed

lemma malloc_blk_answer:
  assumes "malloc_blk b s = (q, s')"
  shows "q \<noteq> 0 \<Longrightarrow> q \<in> set (answers s)" and "set (answers s') \<subseteq> set (answers s)"
  using assms by (auto simp: malloc_blk_def split: list.splits if_splits)

lemma sint_ucast_32:
  assumes "0 \<le> sint (x :: u64)" and "sint x < 2 ^ 31"
  shows "sint (ucast x :: u32) = sint x"
proof -
  have x: "sint x = uint x" by (rule sint_nonneg [OF assms(1)])
  have "uint (ucast x :: u32) = uint x"
    using assms x by (simp add: unsigned_ucast_eq take_bit_int_eq_self)
  then have "sint (ucast x :: u32) = signed_take_bit 31 (uint x)" by (simp add: sint_uint)
  moreover have "signed_take_bit 31 (uint x) = uint x"
  proof (rule signed_take_bit_int_eq_self)
    show "- (2 ^ 31) \<le> uint x" by (rule order_trans [of _ 0]) simp_all
    show "uint x < 2 ^ 31" using assms x by simp
  qed
  ultimately show ?thesis using x by simp
qed

lemma F_NewObjectArray_valid:
  assumes n: "F_NewObjectArray len s = (p, s')" "p \<noteq> 0" and len: "0 \<le> sint len" "sint len < 2 ^ 31"
    and m: "JB_MAGIC \<notin> set (answers s)"
  shows "arr_valid p (sint len) s'" and "F_GetObjectArrayElement p i s' = Some 0"
proof -
  let ?vs = "replicate (if 0 < sint len then unat len else 1) (0 :: u64)"
  obtain p0 s1 where m1: "malloc_blk (HArr \<lparr>aelem = 0, alen = ucast len\<rparr>) s = (p0, s1)" by fastforce
  obtain q s2 where m2: "malloc_blk (HVec ?vs) s1 = (q, s2)" by fastforce
  let ?a = "\<lparr>aelem = q, alen = ucast len\<rparr>"
  have q0: "q \<noteq> 0" and p: "p = p0" "s' = reg_add p R_JARR (put_blk p (HArr ?a) s2)"
    using n m1 m2 by (auto simp: F_NewObjectArray_def split: if_splits)
  have h1: "heap s1 p = Some (HArr \<lparr>aelem = 0, alen = ucast len\<rparr>)"
    using malloc_blk_cases [OF m1] n(2) p(1) by force
  have h2: "heap s1 q = None" "heap s2 q = Some (HVec ?vs)"
    using malloc_blk_cases [OF m2] q0 by force+
  have pq: "p \<noteq> q" using h1 h2 by auto
  have l: "sint (alen ?a) = sint len" using sint_ucast_32 [OF len] by simp
  have a: "heap s' p = Some (HArr ?a)" "p \<noteq> 0" "heap s' (aelem ?a) = Some (HVec ?vs)"
    "sint (alen ?a) \<le> int (length ?vs)"
    using n(2) h2 pq len sint_nonneg [OF len(1)] l by (auto simp: p)
  moreover have "q \<noteq> JB_MAGIC"
    using m malloc_blk_answer(1) [OF m2 q0] malloc_blk_answer(2) [OF m1] by auto
  ultimately show "arr_valid p (sint len) s'" using l by (auto simp: arr_valid_def)
  show "F_GetObjectArrayElement p i s' = Some 0"
    using arr_read [OF a, of i] a(4) sint_index [of i "length ?vs"]
    by (auto simp: in_range_def split: if_splits)
qed

lemma arr_length: "arr_valid p n s \<Longrightarrow> F_GetArrayLength p s = Some n"
  by (auto simp: arr_valid_def F_GetArrayLength_def)

text \<open>C7. Object arrays: a new array of a length in the range of a Java int has that length and
  only nulls; after any writes, in bounds or not and in any order, nothing has faulted, the
  length is the same, every index in bounds reads the last value written to it or null, and
  every other index reads null.\<close>

theorem object_array_last_write:
  assumes "F_NewObjectArray len s = (p, s1)" and "p \<noteq> 0" and "0 \<le> sint len" and "sint len < 2 ^ 31"
    and "JB_MAGIC \<notin> set (answers s)"
  shows "\<exists>s2. write_all (F_SetObjectArrayElement p) ws s1 = Some s2 \<and>
    F_GetArrayLength p s2 = Some (sint len) \<and>
    (\<forall>i. F_GetObjectArrayElement p i s2 =
       Some (if in_range (sint len) i then (case map_of (rev ws) i of Some v \<Rightarrow> v | None \<Rightarrow> 0) else 0))"
proof -
  note nv = F_NewObjectArray_valid [OF assms]
  obtain s2 where s2: "write_all (F_SetObjectArrayElement p) ws s1 = Some s2" "arr_valid p (sint len) s2"
    "\<And>j. F_GetObjectArrayElement p j s2 =
       (if in_range (sint len) j \<and> j \<in> fst ` set ws then map_of (rev ws) j else F_GetObjectArrayElement p j s1)"
    using arrays.last_write_wins [OF nv(1), of ws] by blast
  have "F_GetObjectArrayElement p i s2 =
      Some (if in_range (sint len) i then (case map_of (rev ws) i of Some v \<Rightarrow> v | None \<Rightarrow> 0) else 0)" for i
    using nv(2) [of i] map_of_eq_None_iff [of "rev ws" i]
    by (cases "map_of (rev ws) i") (auto simp: s2(3))
  then show ?thesis using s2(1) arr_length [OF s2(2)] by blast
qed

theorem object_array_last_write_witness:
  "\<exists>s1 s2. F_NewObjectArray 2 sample_env = (0x90, s1) \<and>
     write_all (F_SetObjectArrayElement 0x90) [(1, 0x30), (5, 0x40), (1, 0x70)] s1 = Some s2 \<and>
     F_GetObjectArrayElement 0x90 1 s2 = Some 0x70 \<and> F_GetObjectArrayElement 0x90 5 s2 = Some 0"
proof -
  obtain p s1 where n: "F_NewObjectArray 2 sample_env = (p, s1)" by fastforce
  then have p: "p = 0x90"
    by (auto simp: F_NewObjectArray_def malloc_blk_def sample_env_sel env_blocks_def split: if_splits)
  have m: "JB_MAGIC \<notin> set (answers sample_env)" by (simp add: sample_env_sel JB_MAGIC_def)
  from object_array_last_write [OF n _ _ _ m, of "[(1, 0x30), (5, 0x40), (1, 0x70)]"]
  obtain s2 where s2: "write_all (F_SetObjectArrayElement p) [(1, 0x30), (5, 0x40), (1, 0x70)] s1 = Some s2"
    "\<forall>i. F_GetObjectArrayElement p i s2 = Some (if in_range (sint (2 :: u64)) i then
       (case map_of (rev [(1, 0x30), (5, 0x40), (1, 0x70)]) i of Some v \<Rightarrow> v | None \<Rightarrow> 0) else 0)"
    by (auto simp: p)
  show ?thesis
    using n s2 by (intro exI [of _ s1] exI [of _ s2]) (simp add: p in_range_def)
qed

text \<open>C8. Writing a region of a byte array, with a start and a length in the range of a Java int,
  a source buffer with that many bytes, and an array whose data block has its length: it
  never leaves the data block. A region inside the array gets exactly the source bytes and
  every other byte keeps its value; any other region changes nothing.\<close>

theorem byte_region_exact:
  assumes b: "heap s p = Some (HBytes b)" "p \<noteq> 0" and d: "bdata b \<noteq> 0" "heap s (bdata b) = Some (HRaw d)"
    and l: "sint (blen b) = int (length d)"
    and j: "- (2 ^ 31) \<le> sint start" "sint start < 2 ^ 31" "- (2 ^ 31) \<le> sint len" "sint len < 2 ^ 31"
    and src: "sint len \<le> int (length src)"
  shows "\<exists>d'. F_SetByteArrayRegion p start len (Some src) s = Some (s\<lparr>heap := (heap s)(bdata b \<mapsto> HRaw d')\<rparr>) \<and>
    length d' = length d \<and>
    (\<forall>i < length d. d' ! i =
       (if 0 \<le> sint start \<and> 0 \<le> sint len \<and> sint start + sint len \<le> int (length d) \<and>
           sint start \<le> int i \<and> int i < sint start + sint len
        then src ! (i - unat start) else d ! i))"
proof -
  have sum: "sint (start + len) = sint start + sint len"
    using j by (subst sint_word_ariths(1)) (simp add: signed_take_bit_int_eq_self)
  have gb: "get_bytes p s = Some b" using b by simp
  show ?thesis
  proof (cases "0 \<le> sint start \<and> 0 \<le> sint len \<and> sint start + sint len \<le> int (length d)")
    case True
    then have u: "sint start = int (unat start)" "sint len = int (unat len)"
      using sint_nonneg [of start] sint_nonneg [of len] by simp_all
    let ?d = "take (unat start) d @ take (unat len) src @ drop (unat start + unat len) d"
    have fit: "unat start + unat len \<le> length d" "unat len \<le> length src" using True src u by linarith+
    have run: "F_SetByteArrayRegion p start len (Some src) s = Some (s\<lparr>heap := (heap s)(bdata b \<mapsto> HRaw ?d)\<rparr>)"
      using b(2) d True fit sum l unfolding F_SetByteArrayRegion_def gb by (simp add: put_blk_def)
    have idx: "?d ! i = (if unat start \<le> i \<and> i < unat start + unat len then src ! (i - unat start) else d ! i)"
      if "i < length d" for i using that fit by (auto simp: nth_append min_def)
    show ?thesis
    proof (intro exI [of _ ?d] conjI allI impI)
      show "length ?d = length d" using fit by simp
      show "?d ! i = (if 0 \<le> sint start \<and> 0 \<le> sint len \<and> sint start + sint len \<le> int (length d) \<and>
           sint start \<le> int i \<and> int i < sint start + sint len then src ! (i - unat start) else d ! i)"
        if "i < length d" for i
      proof -
        have "(unat start \<le> i \<and> i < unat start + unat len) \<longleftrightarrow>
            0 \<le> sint start \<and> 0 \<le> sint len \<and> sint start + sint len \<le> int (length d) \<and>
            sint start \<le> int i \<and> int i < sint start + sint len"
          using True u by linarith
        then show ?thesis unfolding idx [OF that] by (simp only:)
      qed
    qed (rule run)
  next
    case False
    then have "F_SetByteArrayRegion p start len (Some src) s = Some s"
      using b(2) l sum unfolding F_SetByteArrayRegion_def gb by auto
    moreover have "s = s\<lparr>heap := (heap s)(bdata b \<mapsto> HRaw d)\<rparr>" using d(2) by (simp add: fun_upd_idem)
    ultimately show ?thesis using False by (intro exI [of _ d]) auto
  qed
qed

theorem byte_region_exact_witness:
  "\<exists>s'. F_SetByteArrayRegion 0x40 1 2 (Some ''XYZ'') sample_env = Some s' \<and> heap s' 0x48 = Some (HRaw ''aXYd'')"
proof -
  let ?b = "\<lparr>bmagic = JB_MAGIC, bdata = 0x48, blen = 4\<rparr> :: jbytes"
  have h: "heap sample_env 0x40 = Some (HBytes ?b)" "heap sample_env (bdata ?b) = Some (HRaw ''abcd'')"
    by (simp_all add: sample_env_sel env_blocks_def)
  obtain d' where d: "F_SetByteArrayRegion 0x40 1 2 (Some ''XYZ'') sample_env =
      Some (sample_env\<lparr>heap := (heap sample_env)(bdata ?b \<mapsto> HRaw d')\<rparr>)" "length d' = 4"
    "\<forall>i < 4. d' ! i = (if sint (1 :: u64) \<le> int i \<and> int i < sint (1 :: u64) + sint (2 :: u64)
        then ''XYZ'' ! (i - unat (1 :: u64)) else ''abcd'' ! i)"
    using byte_region_exact [OF h(1) _ _ h(2), of 1 2 "''XYZ''"] by auto
  have "d' = ''aXYd''"
    by (rule nth_equalityI) (auto simp: d(2,3) less_Suc_eq numeral_eq_Suc)
  with d(1) show ?thesis by (intro exI conjI) auto
qed

subsection \<open>Strings\<close>

text \<open>A new string object that takes over a fresh text block.\<close>

lemma own_string_effect:
  fixes s :: "'z hreg_scheme"
  assumes ok: "reg_ok s" and m: "malloc_blk (HStr txt) s = (str, s1)" and o: "obj_new cn s1 = (p, s2)"
    and st: "obj_setf p ''.str'' CHR ''s'' str True s2 = Some s3"
  shows "reg_ok s3" and "pinned s r \<Longrightarrow> pinned s3 r"
    and "p \<noteq> 0 \<Longrightarrow> str \<noteq> 0 \<Longrightarrow> heap s3 str = Some (HStr txt) \<and> heap s3 p = Some (HObj
       \<lparr>jmagic = JO_MAGIC, jcls = cn, jfields = [\<lparr>fname = ''.str'', ftype = CHR ''s'', fowned = True, fval = str\<rparr>]\<rparr>)"
proof -
  note r1 = malloc_blk_reg [OF ok m, simplified]
  note oe = obj_new_effect [OF r1(1) o]
  let ?ob = "\<lparr>jmagic = JO_MAGIC, jcls = cn, jfields = []\<rparr>"
  let ?b = "HObj \<lparr>jmagic = JO_MAGIC, jcls = cn,
         jfields = [\<lparr>fname = ''.str'', ftype = CHR ''s'', fowned = True, fval = str\<rparr>]\<rparr>"
  have s3: "s3 = s2 \<and> p = 0 \<or> s3 = s2\<lparr>heap := (heap s2)(p \<mapsto> ?b)\<rparr> \<and> p \<noteq> 0"
    using oe(3) st by (auto simp: obj_setf_def obj_get_def put_blk_def)
  have act: "active s3 = active s2" using s3 by (auto simp: active_def)
  have "pinned s1 r" if "pinned s r" using that r1(2) by (simp add: pinned_def)
  then show "pinned s3 r" if "pinned s r" using oe(2) that act by (simp add: pinned_def)
  have strs: "heap s2 str = Some (HStr txt) \<and> str \<noteq> p" if "str \<noteq> 0" "p \<noteq> 0"
    using r1(5) oe(3) that by auto
  show "heap s3 str = Some (HStr txt) \<and> heap s3 p = Some ?b" if "p \<noteq> 0" "str \<noteq> 0"
    using s3 strs that by auto
  show "reg_ok s3"
  proof (cases "p = 0")
    case True
    with s3 oe(1) show ?thesis by auto
  next
    case False
    with s3 have e: "s3 = s2\<lparr>heap := (heap s2)(p \<mapsto> ?b)\<rparr>" by simp
    have p1: "heap s2 p = Some (HObj ?ob)" using False oe(3) by simp
    have free: "str \<notin> set (owned b')" if "heap s2 p' = Some b'" "str \<noteq> 0" for p' b'
    proof
      assume q: "str \<in> set (owned b')"
      have sf: "heap s str = None" "heap s1 = (heap s)(str \<mapsto> HStr txt)" using r1(5) that(2) by auto
      have "heap s1 p' = Some b'"
        using that(1) oe(3) False q by (cases "p' = p") auto
      then have "heap s p' = Some b'" using sf q by (cases "p' = str") auto
      with heap_okD(4) [OF reg_okD(1) [OF ok] _ q] sf show False by auto
    qed
    have ow: "owned ?b = (if str = 0 then [] else [str])" by (simp add: owns_string_def)
    have "heap_ok ((heap s2)(p \<mapsto> ?b))"
    proof (rule heap_ok_update [OF reg_okD(1) [OF oe(1)] False])
      show "\<exists>c. heap s2 q = Some c \<and> is_payload c" if "q \<in> set (owned ?b)" for q
        using that strs False unfolding ow by (auto split: if_splits)
      show "set (owned ?b) \<inter> set (owned b') = {}" if "heap s2 p' = Some b'" for p' b'
        using free [OF that] unfolding ow by (auto split: if_splits)
    qed (use p1 ow in auto)
    then have "heap_ok (heap s3)" by (simp add: e)
    moreover have "ent_live (heap s3) e'" if "e' \<in> set (active s2)" for e'
      using reg_okD(6) [OF oe(1) that] p1 unfolding e by (auto simp: ent_live_def)
    ultimately show ?thesis by (rule reg_ok_frame [OF oe(1)]) (simp_all add: e)
  qed
qed

lemma F_NewObject_cases:
  assumes "F_NewObject c s = Some (p, s')"
  obtains (str) tx str s1 s2 where "malloc_blk (HStr tx) s = (str, s1)"
      "obj_new ''java/lang/String'' s1 = (p, s2)" "obj_setf p ''.str'' CHR ''s'' str True s2 = Some s'"
    | (plain) cn where "obj_new cn s = (p, s')"
proof -
  obtain cn where cn: "cls_name c s = Some cn" using assms by (auto simp: F_NewObject_def)
  show thesis
  proof (cases "cn = ''java/lang/String'' \<and> last_bytes s \<noteq> 0")
    case False
    then show thesis using assms cn plain by (auto simp: F_NewObject_def)
  next
    case True
    with assms cn obtain b tx where b: "get_bytes (last_bytes s) s = Some b"
      and "(let (str, s1) = malloc_blk (HStr tx) s in
         if str = 0 \<and> bdata b \<noteq> 0 \<and> 0 < (if 0 < sint (blen b) \<and> sint (blen b) < 2 ^ 20 then unat (blen b) else 0)
         then None
         else do {
           let (p, s2) = obj_new ''java/lang/String'' s1;
           s3 \<leftarrow> obj_setf p ''.str'' CHR ''s'' str True s2;
           Some (p, s3)
         }) = Some (p, s')"
      unfolding F_NewObject_def Let_def by auto
    then show thesis using str by (fastforce simp: Let_def split: if_splits prod.splits)
  qed
qed

lemma F_NewObject_effect:
  assumes ok: "reg_ok s" and n: "F_NewObject c s = Some (p, s')"
  shows "reg_ok s' \<and> (pinned s r \<longrightarrow> pinned s' r)"
  using n
proof (cases rule: F_NewObject_cases)
  case str
  then show ?thesis using own_string_effect [OF ok] by blast
next
  case plain
  then show ?thesis using obj_new_effect [OF ok] by blast
qed

lemma reg_add_plenty: "regn s < regcap s \<Longrightarrow> p \<noteq> 0 \<Longrightarrow> answers (reg_add p k s) = answers s"
  by (simp add: reg_add_def)

text \<open>C9. Building a string from bytes: when the allocator answers and the registry has a free
  slot, constructing a \<open>java/lang/String\<close> gives a live registered string whose text is the
  content of the most recently created byte array up to its first NUL, in a block of its own
  that the string owns, whatever array the caller passed; and \<open>GetStringUTFChars\<close> hands out
  a copy of that text in yet another block.\<close>

theorem string_from_last_bytes:
  assumes ok: "reg_ok s" and c: "cls_name c s = Some ''java/lang/String''"
    and b: "last_bytes s \<noteq> 0" "heap s (last_bytes s) = Some (HBytes b)" "bdata b \<noteq> 0"
      "heap s (bdata b) = Some (HRaw d)"
    and l: "sint (blen b) = int (length d)" "0 < length d" "length d < 2 ^ 20"
    and mem: "answers s = a1 # a2 # a3 # as" "distinct [0, a1, a2, a3]" "regn s < regcap s"
      "heap s a1 = None" "heap s a2 = None" "heap s a3 = None"
  shows "\<exists>s1 s2. F_NewObject c s = Some (a2, s1) \<and> reg_ok s1 \<and> a2 \<in> registered s1 \<and>
    (\<exists>ob. heap s1 a2 = Some (HObj ob) \<and> owned (HObj ob) = [a1]) \<and>
    heap s1 a1 = Some (HStr (c_string d)) \<and>
    F_GetStringUTFChars a2 s1 = Some (a3, s2) \<and> heap s2 a3 = Some (HStr (c_string d))"
proof -
  let ?tx = "c_string d"
  let ?str = "\<lambda>v. \<lparr>jmagic = JO_MAGIC, jcls = ''java/lang/String'', jfields = v\<rparr>"
  let ?f = "\<lparr>fname = ''.str'', ftype = CHR ''s'', fowned = True, fval = a1\<rparr>"
  let ?s1 = "s\<lparr>answers := a2 # a3 # as, heap := (heap s)(a1 \<mapsto> HStr ?tx)\<rparr>"
  let ?s2 = "?s1\<lparr>answers := a3 # as, heap := (heap ?s1)(a2 \<mapsto> HObj (?str []))\<rparr>"
  let ?s3 = "reg_add a2 R_JOBJ ?s2"
  let ?s4 = "put_blk a2 (HObj (?str [?f])) ?s3"
  have n: "(if 0 < sint (blen b) \<and> sint (blen b) < 2 ^ 20 then unat (blen b) else 0) = length d"
    using l sint_int_unat [OF l(1)] by simp
  have gb: "get_bytes (last_bytes s) s = Some b" using b(2) by simp
  have m1: "malloc_blk (HStr ?tx) s = (a1, ?s1)" using mem by (simp add: malloc_blk_def)
  have m2: "malloc_blk (HObj (?str [])) ?s1 = (a2, ?s2)" using mem by (auto simp: malloc_blk_def)
  have o: "obj_new ''java/lang/String'' ?s1 = (a2, ?s3)" unfolding obj_new_def m2 by simp
  have st: "obj_setf a2 ''.str'' CHR ''s'' a1 True ?s3 = Some ?s4"
    using mem(2) by (simp add: obj_setf_def get_obj_def obj_get_def)
  have run: "F_NewObject c s = Some (a2, ?s4)"
    using c b l n unfolding F_NewObject_def gb Let_def
    by (simp only: n) (use b l mem(2) m1 o st in simp)
  have ow: "reg_ok ?s4" "heap ?s4 a1 = Some (HStr ?tx)" "heap ?s4 a2 = Some (HObj (?str [?f]))"
    using own_string_effect [OF ok m1 o st] mem(2) by auto
  have "reg_ok ?s2" using malloc_blk_reg [OF malloc_blk_reg(1) [OF ok m1] m2] by simp
  then have "active ?s3 = active ?s2 @ [\<lparr>rp = a2, rk = R_JOBJ, rt = clk ?s2, rpin = 0\<rparr>]"
    using mem(2,3) by (intro active_reg_add_room) auto
  moreover have "active ?s4 = active ?s3" by (simp add: active_def put_blk_def)
  ultimately have reg: "a2 \<in> registered ?s4" by (simp add: registered_def)
  have an: "answers ?s4 = a3 # as" using mem(2,3) by (simp add: put_blk_def reg_add_plenty)
  have a3: "heap ?s4 a3 = None" using mem(2,6) by auto
  let ?s5 = "?s4\<lparr>answers := as, heap := (heap ?s4)(a3 \<mapsto> HStr ?tx)\<rparr>"
  have m3: "malloc_blk (HStr ?tx) ?s4 = (a3, ?s5)" using an a3 mem(2) by (simp add: malloc_blk_def)
  have go: "get_obj a2 ?s4 = Some (?str [?f])" and gs: "get_str a1 ?s4 = Some ?tx" using ow by simp_all
  have "F_GetStringUTFChars a2 ?s4 = Some (a3, ?s5)"
    using mem(2) unfolding F_GetStringUTFChars_def go by (simp add: obj_get_def) (use gs m3 in simp)
  moreover have "heap ?s5 a3 = Some (HStr ?tx)" by simp
  moreover have "owned (HObj (?str [?f])) = [a1]" using mem(2) by (simp add: owns_string_def)
  ultimately show ?thesis using run ow reg by blast
qed

theorem string_from_last_bytes_witness:
  "\<exists>s1 s2. F_NewObject 1 sample_env = Some (0xa0, s1) \<and>
     F_GetStringUTFChars 0xa0 s1 = Some (0xb0, s2) \<and> heap s2 0xb0 = Some (HStr ''abcd'')"
proof -
  let ?b = "\<lparr>bmagic = JB_MAGIC, bdata = 0x48, blen = 4\<rparr> :: jbytes"
  have c: "cls_name 1 sample_env = Some ''java/lang/String''"
    unfolding One_nat_def cls_name.simps by (simp add: sample_env_sel)
  have b: "last_bytes sample_env \<noteq> 0" "heap sample_env (last_bytes sample_env) = Some (HBytes ?b)"
    "bdata ?b \<noteq> 0" "heap sample_env (bdata ?b) = Some (HRaw ''abcd'')"
    by (simp_all add: sample_env_sel env_blocks_def)
  have m: "answers sample_env = 0x90 # 0xa0 # 0xb0 # [0xc0]" "distinct [0 :: u64, 0x90, 0xa0, 0xb0]"
    "regn sample_env < regcap sample_env" "heap sample_env 0x90 = None" "heap sample_env 0xa0 = None"
    "heap sample_env 0xb0 = None"
    by (simp_all add: sample_env_sel env_blocks_def)
  have l: "sint (blen ?b) = int (length ''abcd'')" "0 < length ''abcd''" "length ''abcd'' < 2 ^ 20"
    by simp_all
  obtain s1 s2 where "F_NewObject 1 sample_env = Some (0xa0, s1)"
    "F_GetStringUTFChars 0xa0 s1 = Some (0xb0, s2)" "heap s2 0xb0 = Some (HStr (c_string ''abcd''))"
    using string_from_last_bytes [OF sample_env_ok c b l m] by (elim exE conjE) (rule that)
  moreover have "c_string ''abcd'' = ''abcd''" by (simp add: c_string_def)
  ultimately show ?thesis by (intro exI conjI) simp_all
qed

text \<open>The auto-complete path of \<open>F_GetObjectField\<close> for a missing object field: its comment
  promises pinned singletons, never a new object and never null. The cache key is the class
  name, cut off before the semicolon, while the lookup compares with the signature, which
  contains it; so the lookup never hits. Every read makes another object until 32 have been
  made, and from then on reads give null.\<close>

theorem auto_complete_never_hits:
  assumes p: "p \<noteq> 0" "heap s p = Some (HObj ob)" and t: "heap s tok = Some (HTok t)"
    and sig: "tsig t = CHR ''L'' # cn @ [CHR '';'']" "tsig t \<noteq> ''Ljava/lang/String;''"
    and missing: "obj_get ob (tname t) = None"
    and keys: "\<forall>x \<in> set (auto_objs s). CHR '';'' \<notin> set (fst x)"
  shows "(32 \<le> length (auto_objs s) \<longrightarrow> F_GetObjectField p tok s = Some (0, s)) \<and>
    (length (auto_objs s) < 32 \<and> answers s = a # as \<and> a \<noteq> 0 \<and> heap s a = None \<longrightarrow>
       (\<exists>s'. F_GetObjectField p tok s = Some (a, s'))) \<and>
    (\<forall>v s'. length (auto_objs s) < 32 \<longrightarrow> F_GetObjectField p tok s = Some (v, s') \<longrightarrow>
       v \<noteq> 0 \<and> heap s v = None \<and> length (auto_objs s') = Suc (length (auto_objs s)) \<and>
       (\<forall>x \<in> set (auto_objs s'). CHR '';'' \<notin> set (fst x)))"
proof -
  have go: "get_obj p s = Some ob" and gt: "get_tok tok s = Some t" using p t by simp_all
  have ns: "tsig t \<noteq> []" "hd (tsig t) \<noteq> CHR ''[''" "hd (tsig t) = CHR ''L''" using sig(1) by simp_all
  have miss: "find (\<lambda>(k, _). k = tsig t) (auto_objs s) = None"
    using keys sig(1) by (fastforce simp: find_None_set)
  have run: "F_GetObjectField p tok s =
      (if length (auto_objs s) < 32 then
         let (v, s1) = obj_new (sig_class (tsig t)) s in
         if v = 0 then None
         else Some (v, (reg_pin v 1 s1)\<lparr>auto_objs := auto_objs s @ [(sig_class (tsig t), v)]\<rparr>)
       else Some (0, s))"
    using p(1) sig(2) ns miss missing unfolding F_GetObjectField_def go gt by (simp add: Let_def)
  have key: "CHR '';'' \<notin> set (sig_class (tsig t))"
    by (auto simp: sig_class_def dest!: in_set_takeD set_takeWhileD)
  show ?thesis
  proof (intro conjI impI allI)
    show "F_GetObjectField p tok s = Some (0, s)" if "32 \<le> length (auto_objs s)" using that run by simp
  next
    assume "length (auto_objs s) < 32 \<and> answers s = a # as \<and> a \<noteq> 0 \<and> heap s a = None"
    then show "\<exists>s'. F_GetObjectField p tok s = Some (a, s')"
      using run by (simp add: obj_new_def malloc_blk_def Let_def)
  next
    fix v s' assume l: "length (auto_objs s) < 32" and r: "F_GetObjectField p tok s = Some (v, s')"
    obtain v1 s1 where o: "obj_new (sig_class (tsig t)) s = (v1, s1)" by fastforce
    with r run l have v: "v \<noteq> 0" "v = v1"
      and s': "s' = (reg_pin v 1 s1)\<lparr>auto_objs := auto_objs s @ [(sig_class (tsig t), v)]\<rparr>"
      by (auto split: if_splits)
    obtain s2 where m: "malloc_blk (HObj \<lparr>jmagic = JO_MAGIC, jcls = sig_class (tsig t), jfields = []\<rparr>) s = (v, s2)"
      using o v by (auto simp: obj_new_def split: prod.splits)
    show "v \<noteq> 0" and "heap s v = None" using malloc_blk_cases [OF m] v by auto
    show "length (auto_objs s') = Suc (length (auto_objs s))" by (simp add: s')
    show "\<forall>x \<in> set (auto_objs s'). CHR '';'' \<notin> set (fst x)" using keys key by (simp add: s')
  qed
qed

theorem auto_complete_never_hits_witness:
  "\<exists>s1. F_GetObjectField 0x30 0xe0 sample_env = Some (0x90, s1) \<and> length (auto_objs s1) = 1"
proof -
  let ?t = "\<lparr>tname = ''keyboard'', ttype = CHR ''o'', tsig = ''LKeyboard;''\<rparr> :: jidtoken"
  let ?ob = "\<lparr>jmagic = JO_MAGIC, jcls = ''PendingInput'', jfields =
               [\<lparr>fname = ''index'', ftype = CHR ''i'', fowned = False, fval = 7\<rparr>,
                \<lparr>fname = ''label'', ftype = CHR ''s'', fowned = True, fval = 0x38\<rparr>]\<rparr> :: jobj"
  have h: "heap sample_env 0x30 = Some (HObj ?ob)" "heap sample_env 0xe0 = Some (HTok ?t)"
    by (simp_all add: sample_env_sel env_blocks_def)
  have s: "tsig ?t = CHR ''L'' # ''Keyboard'' @ [CHR '';'']" "tsig ?t \<noteq> ''Ljava/lang/String;''"
    "obj_get ?ob (tname ?t) = None" by (simp_all add: obj_get_def)
  have k: "\<forall>x \<in> set (auto_objs sample_env). CHR '';'' \<notin> set (fst x)" by (simp add: sample_env_sel)
  have p0: "(0x30 :: u64) \<noteq> 0" by simp
  note ac = auto_complete_never_hits [OF p0 h s k]
  have c: "length (auto_objs sample_env) < 32 \<and> answers sample_env = 0x90 # [0xa0, 0xb0, 0xc0] \<and>
      (0x90 :: u64) \<noteq> 0 \<and> heap sample_env 0x90 = None"
    by (simp add: sample_env_sel env_blocks_def)
  obtain s1 where r: "F_GetObjectField 0x30 0xe0 sample_env = Some (0x90, s1)"
    using ac [THEN conjunct2, THEN conjunct1, rule_format, OF c] by blast
  have "length (auto_objs s1) = Suc (length (auto_objs sample_env))"
    using ac [THEN conjunct2, THEN conjunct2, rule_format, OF conjunct1 [OF c] r] by blast
  with r show ?thesis by (intro exI conjI) (simp_all add: sample_env_sel)
qed

lemma swept_blocks:
  assumes ok: "reg_ok s" and q: "q \<in> swept s"
  shows "\<exists>b. heap s q = Some b \<and> (is_payload b \<or> kind_of b \<noteq> None)"
proof -
  from q obtain e where e: "e \<in> set (active s)" and f: "q \<in> footprint (heap s) (rp e)"
    by (auto simp: swept_def set_active_split)
  obtain b where b: "heap s (rp e) = Some b" "kind_of b = Some (rk e)"
    using reg_okD(6) [OF ok e] by (auto simp: ent_live_def)
  with f heap_okD(4) [OF reg_okD(1) [OF ok] b(1)] show ?thesis by (auto simp: footprint_def)
qed

text \<open>The collector does not follow references. Storing a string into a field of an object
  stores the address of its text, which the string object still owns; once the string has
  expired, the next sweep frees the text, while the object, which may be pinned, keeps the
  address: every later read of the field yields a string whose characters are freed memory.\<close>

theorem collected_string_dangles:
  assumes ok: "reg_ok s" and p: "heap s p = Some (HObj ob)" "jmagic ob = JO_MAGIC" "pinned s p"
    and t: "heap s tok = Some (HTok t)" and room: "room_for ob (tname t)"
    and v: "heap s (rp e) = Some (HObj sv)" "jmagic sv = JO_MAGIC"
    and str: "obj_get sv ''.str'' = Some sf" "owns_string sf"
    and e: "e \<in> set (drop (keep_from s) (active s))" "rpin e = 0" "gc_grace s \<le> clk s - rt e"
    and on: "\<not> gc_off s" "fst (malloc_tmp s)"
  shows "\<exists>s1 s2 ob2 f. set_object_slot p tok (rp e) s = Some s1 \<and> reg_sweep s1 = Some s2 \<and>
    pinned s2 p \<and> heap s2 tok = Some (HTok t) \<and> heap s2 p = Some (HObj ob2) \<and> obj_get ob2 (tname t) = Some f \<and>
    fval f \<noteq> 0 \<and> heap s2 (fval f) = None \<and>
    (\<forall>q s3. F_GetObjectField p tok s2 = Some (q, s3) \<longrightarrow> q \<noteq> 0 \<longrightarrow> F_GetStringUTFChars q s3 = None)"
proof -
  let ?v = "rp e" and ?q = "fval sf"
  let ?g = "\<lparr>fname = tname t, ftype = CHR ''s'', fowned = False, fval = ?q\<rparr>"
  let ?D = "released_by_set ob (tname t) ?q"
  let ?s1 = "s\<lparr>heap := (heap s |` (- ?D))(p \<mapsto> HObj (set_fields ob ?g))\<rparr>"
  have ea: "e \<in> set (active s)" using e(1) by (rule in_set_dropD)
  have nz: "p \<noteq> 0" "?v \<noteq> 0" "?q \<noteq> 0"
    using heap_okD(1) [OF reg_okD(1) [OF ok]] p(1) v(1) str(2) by (auto simp: owns_string_def)
  have pv: "?v \<noteq> p"
  proof
    assume "?v = p"
    with p(3) obtain e' where e': "e' \<in> set (active s)" "rp e' = rp e" "0 < rpin e'" by (auto simp: pinned_def)
    with reg_okD(5) [OF ok] ea have "e' = e" by (auto simp: distinct_map dest: inj_onD)
    with e' e(2) show False by simp
  qed
  note os = obj_set_reg [where s' = ?s1 and v = ?q and type = "CHR ''s''", OF ok p(1) room refl]
  have j: "is_jobj p s = Some True" "is_jobj ?v s = Some True" using p v nz by (simp_all add: is_jobj_def)
  have g: "get_tok tok s = Some t" "get_obj ?v s = Some sv" using t v by simp_all
  have set1: "set_object_slot p tok ?v s = Some ?s1"
    unfolding set_object_slot_def j g using str(1) os(1) by simp
  have hv: "heap ?s1 ?v = Some (HObj sv)" using v pv os(4) [of ?v] by (auto simp: restrict_map_def)
  have act: "active ?s1 = active s" by (rule os(3))
  have "e \<in> set (victims ?s1)" using e by (simp add: victims_def act expired_def)
  then have qs: "?q \<in> swept ?s1"
    using hv str by (auto simp: swept_def footprint_def dest!: obj_get_Some intro!: bexI [of _ e])
  have mem: "fst (malloc_tmp ?s1)"
    using on(2) p(1) by (auto simp: malloc_tmp_def restrict_map_def split: list.splits)
  obtain s2 where sw: "reg_sweep ?s1 = Some s2" and h2: "heap s2 = heap ?s1 |` (- swept ?s1)"
    using reg_sweep_effect [OF os(2) _ mem] on(1) by auto
  have pin1: "pinned ?s1 p" using p(3) act by (simp add: pinned_def)
  note ps = pinned_sweep [OF os(2) sw pin1]
  have hp: "heap s2 p = Some (HObj (set_fields ob ?g))"
  proof -
    have "p \<notin> swept ?s1"
      using pinned_live [of s2 p] ps restrict_drop [of p "swept ?s1" "heap ?s1"] unfolding h2 by fastforce
    from restrict_keep [OF this] show ?thesis unfolding h2 by (rule trans) simp
  qed
  have "tok \<notin> ?D" using os(4) [of tok] t by auto
  then have t1: "heap ?s1 tok = Some (HTok t)" using t p(1) by auto
  then have tn: "tok \<notin> swept ?s1" using swept_blocks [OF os(2), of tok] by auto
  have t2: "heap s2 tok = Some (HTok t)" using restrict_keep [OF tn] t1 unfolding h2 by (rule trans)
  have gone: "heap s2 ?q = None" unfolding h2 by (rule restrict_drop [OF qs])
  have fld: "obj_get (set_fields ob ?g) (tname t) = Some ?g" by (simp add: obj_get_set_fields)
  have "F_GetStringUTFChars q s3 = None"
    if r: "F_GetObjectField p tok s2 = Some (q, s3)" "q \<noteq> 0" for q s3
  proof -
    have "get_obj p s2 = Some (set_fields ob ?g)" "get_tok tok s2 = Some t" using hp t2 by simp_all
    then have "str_obj ?q s2 = Some (q, s3)" using r nz(1) fld by (simp add: F_GetObjectField_def del: get_obj_Some get_tok_Some)
    from str_obj_effect(3) [OF _ this] ps r(2)
    have h3: "heap s3 = (heap s2)(q \<mapsto> HObj \<lparr>jmagic = JO_MAGIC, jcls = ''java/lang/String'',
         jfields = [\<lparr>fname = ''.str'', ftype = CHR ''s'', fowned = False, fval = ?q\<rparr>]\<rparr>)" by auto
    then have "get_str ?q s3 = None" using gone by (simp add: get_str_def)
    then show ?thesis using h3 r(2) by (simp add: F_GetStringUTFChars_def get_obj_def obj_get_def)
  qed
  then show ?thesis
    using set1 sw ps t2 hp fld nz(3) gone
    by (intro exI [of _ ?s1] exI [of _ s2] exI [of _ "set_fields ob ?g"] exI [of _ ?g]) simp
qed

theorem collected_string_dangles_witness:
  "\<exists>s1 s2. set_object_slot 0x30 0x68 0x70 sample_env = Some s1 \<and> reg_sweep s1 = Some s2 \<and>
     pinned s2 0x30 \<and> (\<exists>ob2 f. heap s2 0x30 = Some (HObj ob2) \<and> obj_get ob2 ''match'' = Some f \<and>
       heap s2 (fval f) = None)"
proof -
  let ?t = "\<lparr>tname = ''match'', ttype = CHR ''o'', tsig = ''Ljava/lang/String;''\<rparr> :: jidtoken"
  let ?ob = "\<lparr>jmagic = JO_MAGIC, jcls = ''PendingInput'', jfields =
               [\<lparr>fname = ''index'', ftype = CHR ''i'', fowned = False, fval = 7\<rparr>,
                \<lparr>fname = ''label'', ftype = CHR ''s'', fowned = True, fval = 0x38\<rparr>]\<rparr> :: jobj"
  let ?sf = "\<lparr>fname = ''.str'', ftype = CHR ''s'', fowned = True, fval = 0x78\<rparr> :: jfield"
  let ?sv = "\<lparr>jmagic = JO_MAGIC, jcls = ''java/lang/String'', jfields = [?sf]\<rparr> :: jobj"
  let ?e = "\<lparr>rp = 0x70, rk = R_JOBJ, rt = 1000, rpin = 0\<rparr> :: rent"
  have h: "heap sample_env 0x30 = Some (HObj ?ob)" "heap sample_env 0x68 = Some (HTok ?t)"
    "heap sample_env (rp ?e) = Some (HObj ?sv)"
    by (simp_all add: sample_env_sel env_blocks_def)
  have jm: "jmagic ?ob = JO_MAGIC" "jmagic ?sv = JO_MAGIC" by simp_all
  have pin: "pinned sample_env 0x30" by (simp add: pinned_def sample_env_sel)
  have str: "obj_get ?sv ''.str'' = Some ?sf" "owns_string ?sf" "room_for ?ob (tname ?t)"
    by (simp_all add: obj_get_def owns_string_def room_for_def)
  have e: "?e \<in> set (drop (keep_from sample_env) (active sample_env))" "rpin ?e = 0"
    "gc_grace sample_env \<le> clk sample_env - rt ?e" "\<not> gc_off sample_env" "fst (malloc_tmp sample_env)"
    by (simp_all add: sample_env_sel malloc_tmp_def env_blocks_def)
  obtain s1 s2 ob2 f where "set_object_slot 0x30 0x68 (rp ?e) sample_env = Some s1" "reg_sweep s1 = Some s2"
    "pinned s2 0x30" "heap s2 0x30 = Some (HObj ob2)" "obj_get ob2 (tname ?t) = Some f" "heap s2 (fval f) = None"
    using collected_string_dangles [OF sample_env_ok h(1) jm(1) pin h(2) str(3) h(3) jm(2) str(1,2) e]
    by (elim exE conjE) (rule that)
  then show ?thesis by (intro exI conjI) simp_all
qed

end
