(* ===== verification/Gc_Runs.thy ===== *)
theory Gc_Runs
  imports Jni_Env
begin

text \<open>
  Runs of the engine against the fake \<open>JNIEnv\<close>: any interleaving of the calls that allocate,
  store, pin and unpin, with the daemon's explicit releases and grace-period sweeps. The step
  relation is parameterised by a set \<open>P\<close> of objects to which the engine holds a global
  reference that it does not delete during the run.
\<close>

named_theorems keeps_rules

definition keeps :: "u64 set \<Rightarrow> 'z hreg_scheme \<Rightarrow> 'z hreg_scheme \<Rightarrow> bool" where
  "keeps P s s' \<longleftrightarrow> reg_ok s' \<and> (\<forall>r \<in> P. pinned s r \<longrightarrow> pinned s' r)"

lemma keepsI: "reg_ok s' \<Longrightarrow> (\<And>r. pinned s r \<Longrightarrow> pinned s' r) \<Longrightarrow> keeps P s s'"
  by (simp add: keeps_def)

lemma keeps_refl [keeps_rules]: "reg_ok s \<Longrightarrow> keeps P s s"
  by (simp add: keeps_def)

lemma keeps_frame:
  assumes "reg_ok s" "heap_ok (heap s')" "\<And>e. e \<in> set (active s) \<Longrightarrow> ent_live (heap s') e"
    "slots s' = slots s" "regn s' = regn s" "regcap s' = regcap s" "keep_from s' = keep_from s"
  shows "keeps P s s'"
  using reg_ok_frame [OF assms] by (simp add: keeps_def pinned_def)

subsection \<open>The calls\<close>

lemma keeps_obj_new [keeps_rules]:
  fixes s :: "'z hreg_scheme"
  shows "reg_ok s \<Longrightarrow> obj_new cn s = (p, s') \<Longrightarrow> keeps P s s'"
  unfolding keeps_def using obj_new_effect(1,2) [of s cn p s'] by blast

lemma keeps_str_obj [keeps_rules]:
  fixes s :: "'z hreg_scheme"
  shows "reg_ok s \<Longrightarrow> str_obj v s = Some (p, s') \<Longrightarrow> keeps P s s'"
  unfolding keeps_def using str_obj_effect(1,2) [of s v p s'] by blast

lemma keeps_NewByteArray [keeps_rules]: "reg_ok s \<Longrightarrow> F_NewByteArray n s = (p, s') \<Longrightarrow> keeps P s s'"
  using F_NewByteArray_effect by (intro keepsI) blast+

lemma keeps_NewObjectArray [keeps_rules]: "reg_ok s \<Longrightarrow> F_NewObjectArray n s = (p, s') \<Longrightarrow> keeps P s s'"
  using F_NewObjectArray_effect by (intro keepsI) blast+

lemma keeps_NewObject [keeps_rules]: "reg_ok s \<Longrightarrow> F_NewObject c s = Some (p, s') \<Longrightarrow> keeps P s s'"
  using F_NewObject_effect by (intro keepsI) blast+

lemma keeps_malloc [keeps_rules]:
  fixes s :: "'z hreg_scheme"
  shows "reg_ok s \<Longrightarrow> shape_ok b \<Longrightarrow> owned b = [] \<Longrightarrow> malloc_blk b s = (p, s') \<Longrightarrow> keeps P s s'"
  using malloc_blk_reg [of s b p s'] by (auto simp: keeps_def pinned_def)

lemma keeps_obj_set:
  fixes s :: "'z hreg_scheme"
  assumes ok: "reg_ok s" and r: "obj_set p name type v s = Some s'"
  shows "keeps P s s'"
proof (cases "p = 0")
  case True
  then show ?thesis using assms keeps_refl by (auto simp: obj_set_def obj_setf_def)
next
  case False
  then obtain ob where p: "heap s p = Some (HObj ob)"
    using r by (auto simp: obj_set_def obj_setf_def split: if_splits)
  show ?thesis
  proof (cases "room_for ob name")
    case True
    note os = obj_set_reg [where type = type and v = v, OF ok p True refl]
    then show ?thesis using r by (auto simp: keeps_def pinned_def)
  next
    case False
    then show ?thesis using obj_set_full [OF p \<open>p \<noteq> 0\<close>, of name type v] r keeps_refl [OF ok] by simp
  qed
qed

lemma keeps_num_set [keeps_rules]:
  "reg_ok s \<Longrightarrow> num_set type p tok v s = Some s' \<Longrightarrow> keeps P s s'"
  by (auto simp: num_set_def split: if_splits intro: keeps_obj_set keeps_refl)

lemma keeps_set_object_slot [keeps_rules]:
  "reg_ok s \<Longrightarrow> set_object_slot p tok v s = Some s' \<Longrightarrow> keeps P s s'"
  by (auto simp: set_object_slot_def split: if_splits option.splits intro: keeps_obj_set keeps_refl)

text \<open>Overwriting the content of a data block.\<close>

lemma heap_ok_payload:
  assumes ok: "heap_ok h" and c: "h q = Some c" "is_payload c" and c': "is_payload c'"
  shows "heap_ok (h(q \<mapsto> c'))"
proof -
  have o: "owned c' = []" "shape_ok c'" using c' by (cases c'; simp)+
  have q: "q \<noteq> 0" using c heap_okD(1) [OF ok] by auto
  show ?thesis
  proof (rule heap_okI)
    show "(h(q \<mapsto> c')) 0 = None" using q heap_okD(1) [OF ok] by simp
    show "shape_ok b" "distinct (owned b)" if "(h(q \<mapsto> c')) p = Some b" for p b
      using that o heap_okD(2,3) [OF ok, of p b] by (auto split: if_splits)
    show "\<exists>c. (h(q \<mapsto> c')) r = Some c \<and> is_payload c"
      if "(h(q \<mapsto> c')) p = Some b" "r \<in> set (owned b)" for p b r
      using that o c' heap_okD(4) [OF ok, of p b r] by (auto split: if_splits)
    show "set (owned b) \<inter> set (owned b') = {}"
      if "(h(q \<mapsto> c')) p = Some b" "(h(q \<mapsto> c')) p' = Some b'" "p \<noteq> p'" for p p' b b'
      using that o heap_okD(5) [OF ok, of p b p' b'] by (auto split: if_splits)
  qed
qed

lemma keeps_payload:
  fixes s :: "'z hreg_scheme"
  assumes ok: "reg_ok s" and c: "heap s q = Some c" "is_payload c" "is_payload c'"
  shows "keeps P s (put_blk q c' s)"
proof (rule keeps_frame [OF ok])
  show "heap_ok (heap (put_blk q c' s))" using heap_ok_payload [OF reg_okD(1) [OF ok] c] by simp
  fix e assume "e \<in> set (active s)"
  then obtain b where "heap s (rp e) = Some b" "kind_of b = Some (rk e)"
    using reg_okD(6) [OF ok] by (auto simp: ent_live_def)
  then show "ent_live (heap (put_blk q c' s)) e"
    using c kind_not_payload by (fastforce simp: ent_live_def)
qed (simp_all add: put_blk_def)

lemma keeps_SetObjectArrayElement [keeps_rules]:
  assumes ok: "reg_ok s" and r: "F_SetObjectArrayElement p i v s = Some s'"
  shows "keeps P s s'"
proof -
  have "s' = s \<or> (\<exists>q vs vs'. heap s q = Some (HVec vs) \<and> s' = put_blk q (HVec vs') s)"
    using r by (auto simp: F_SetObjectArrayElement_def elem_of_def split: if_split_asm option.split_asm hobj.split_asm)
  then show ?thesis using keeps_refl [OF ok] keeps_payload [OF ok] by auto
qed

lemma keeps_SetByteArrayRegion [keeps_rules]:
  assumes ok: "reg_ok s" and r: "F_SetByteArrayRegion p st n buf s = Some s'"
  shows "keeps P s s'"
proof -
  have "s' = s \<or> (\<exists>q d d'. heap s q = Some (HRaw d) \<and> s' = put_blk q (HRaw d') s)"
  proof (cases "p = 0 \<or> buf = None")
    case True
    then show ?thesis using r by (cases "p = 0") (auto simp: F_SetByteArrayRegion_def)
  next
    case False
    then obtain src b where src: "buf = Some src" and b: "get_bytes p s = Some b"
      using r by (auto simp: F_SetByteArrayRegion_def)
    show ?thesis
    proof (cases "bdata b = 0 \<or> sint st < 0 \<or> sint n < 0 \<or> sint (st + n) > sint (blen b)")
      case True
      then show ?thesis using r False unfolding F_SetByteArrayRegion_def b src by simp
    next
      case c: False
      then obtain d where d: "heap s (bdata b) = Some (HRaw d)"
        using r False unfolding F_SetByteArrayRegion_def b src
        by (auto split: option.split_asm hobj.split_asm)
      then show ?thesis
        using r False c unfolding F_SetByteArrayRegion_def b src by (auto split: if_split_asm)
    qed
  qed
  then show ?thesis using keeps_refl [OF ok] keeps_payload [OF ok] by auto
qed

lemma keeps_token_cache [keeps_rules]:
  assumes ok: "reg_ok s" and r: "token_cache c name sig kind s = (p, s')"
  shows "keeps P s s'"
proof -
  let ?b = "HTok \<lparr>tname = name, ttype = kind, tsig = sig_str sig\<rparr>"
  obtain q s1 where m: "malloc_blk ?b s = (q, s1)" by fastforce
  have k1: "keeps P s s1" using keeps_malloc [OF ok _ _ m] by simp
  have "s' = s \<or> s' = s1 \<or> (\<exists>ts. s' = s1\<lparr>tokens := ts\<rparr>)"
    using r m by (auto simp: token_cache_def split: option.splits if_splits)
  moreover have "keeps P s (s1\<lparr>tokens := ts\<rparr>) = keeps P s s1" for ts
    by (simp add: keeps_def pinned_def reg_ok_def active_def)
  ultimately show ?thesis using k1 keeps_refl [OF ok] by auto
qed

lemma keeps_GetStringUTFChars [keeps_rules]:
  "reg_ok s \<Longrightarrow> F_GetStringUTFChars p s = Some (q, s') \<Longrightarrow> keeps P s s'"
  using keeps_malloc [of s "HStr x" q s' P for x]
  by (auto simp: F_GetStringUTFChars_def split: if_splits intro: keeps_refl)

lemma keeps_pin [keeps_rules]:
  "reg_ok s \<Longrightarrow> F_NewGlobalRef p s = (q, s') \<Longrightarrow> keeps P s s'"
  using reg_ok_pin [of s p 1] pinned_reg_pin [of s _ 1 p] by (auto simp: F_NewGlobalRef_def keeps_def)

lemma keeps_unpin [keeps_rules]:
  "reg_ok s \<Longrightarrow> p \<notin> P \<Longrightarrow> keeps P s (F_DeleteGlobalRef p s)"
  using reg_ok_pin [of s p "- 1"] pinned_reg_pin [of s _ "- 1" p]
  by (auto simp: F_DeleteGlobalRef_def keeps_def)

lemma keeps_sweep [keeps_rules]:
  fixes s :: "'z hreg_scheme"
  assumes ok: "reg_ok s" and r: "reg_sweep s = Some s'"
  shows "keeps P s s'"
proof -
  have "reg_ok s'"
  proof (cases "\<not> gc_off s \<and> fst (malloc_tmp s)")
    case True
    then show ?thesis using reg_sweep_effect [OF ok] r by auto
  next
    case False
    then obtain as where "s' = s\<lparr>answers := as\<rparr>" using reg_sweep_idle [of s] r by auto
    then show ?thesis using ok by (simp add: reg_ok_def active_def)
  qed
  then show ?thesis using pinned_sweep [OF ok r] by (simp add: keeps_def)
qed

lemma keeps_release [keeps_rules]:
  fixes s :: "'z hreg_scheme"
  assumes ok: "reg_ok s" and nk: "p \<notin> rp ` set (take (keep_from s) (active s))"
    and r: "reg_release p s = Some (b, s')"
  shows "keeps P s s'"
proof (cases "releasable p s")
  case True
  then obtain e where ok': "reg_ok s'" and e: "rp e = p" "set (active s') = set (active s) - {e}"
    using reg_release_effect [OF ok True] r by auto
  have "pinned s' q" if "pinned s q" for q
  proof -
    from that obtain eq where eq: "eq \<in> set (active s)" "rp eq = q" "0 < rpin eq" by (auto simp: pinned_def)
    obtain e0 where e0: "e0 \<in> set (active s)" "rp e0 = p" "rpin e0 = 0" using True by (auto simp: releasable_def)
    have inj: "inj_on rp (set (active s))" using reg_okD(5) [OF ok] by (simp add: distinct_map)
    have "e = e0 \<or> e \<notin> set (active s)" using inj_onD [OF inj, of e e0] e0(1,2) e(1) by blast
    with eq e0(3) have "eq \<noteq> e" by auto
    with eq(1) e(2) have "eq \<in> set (active s')" by blast
    with eq show ?thesis by (auto simp: pinned_def)
  qed
  with ok' show ?thesis by (simp add: keeps_def)
next
  case False
  have "p \<notin> registered s \<or> pinned s p"
  proof (rule ccontr)
    assume "\<not> (p \<notin> registered s \<or> pinned s p)"
    then obtain e where "e \<in> set (active s)" "rp e = p" "\<not> 0 < rpin e"
      by (auto simp: registered_def pinned_def)
    with False nk reg_okD(7) [OF ok] show False by (force simp: releasable_def)
  qed
  with reg_release_skip [OF ok this] r ok show ?thesis by (simp add: keeps_def)
qed

lemma keeps_trans: "keeps P s s1 \<Longrightarrow> keeps P s1 s2 \<Longrightarrow> keeps P s s2"
  by (auto simp: keeps_def)

lemma keeps_updates [simp]:
  "keeps P s (s1\<lparr>empty_str := e\<rparr>) = keeps P s s1"
  "keeps P s (s1\<lparr>auto_objs := os\<rparr>) = keeps P s s1"
  by (simp_all add: keeps_def pinned_def reg_ok_def active_def)

lemma keeps_reg_pin: "reg_ok s \<Longrightarrow> keeps P s (reg_pin p 1 s)"
  using reg_ok_pin [of s p 1] pinned_reg_pin [of s _ 1 p] by (simp add: keeps_def)

lemma keeps_ok: "keeps P s s' \<Longrightarrow> reg_ok s'"
  by (simp add: keeps_def)

text \<open>Reading an object field. The static empty array is not a block of the allocator: writing
  its two words again is no change.\<close>

lemma keeps_GetObjectField [keeps_rules]:
  assumes ok: "reg_ok s" and st: "heap s (empty_arr s) = Some (HArr \<lparr>aelem = 0, alen = 0\<rparr>)"
    and r: "F_GetObjectField p tok s = Some (q, s')"
  shows "keeps P s s'"
proof (cases "p = 0")
  case True
  then show ?thesis using r ok by (auto simp: F_GetObjectField_def intro: keeps_refl)
next
  case p0: False
  then obtain ob t where ob: "get_obj p s = Some ob" and t: "get_tok tok s = Some t"
    using r by (auto simp: F_GetObjectField_def)
  let ?hit = "case obj_get ob (tname t) of
      Some f \<Rightarrow> if ftype f = CHR ''o'' \<or> ftype f = CHR ''s'' then Some f else None | None \<Rightarrow> None"
  note r = r [unfolded F_GetObjectField_def ob t Let_def]
  show ?thesis
  proof (cases ?hit)
    case (Some f)
    then show ?thesis using r p0 keeps_refl [OF ok] keeps_str_obj [OF ok] by (auto split: if_split_asm)
  next
    case None
    have same: "put_blk (empty_arr s) (HArr \<lparr>aelem = 0, alen = 0\<rparr>) s = s"
      using st by (simp add: put_blk_def fun_upd_idem)
    let ?sig = "tsig t"
    consider (str) "?sig = ''Ljava/lang/String;''" | (arr) "?sig \<noteq> ''Ljava/lang/String;''" "?sig \<noteq> [] \<and> hd ?sig = CHR ''[''"
      | (obj) "?sig \<noteq> ''Ljava/lang/String;''" "?sig \<noteq> [] \<and> hd ?sig = CHR ''L''"
      | (other) "?sig \<noteq> ''Ljava/lang/String;''" "\<not> (?sig \<noteq> [] \<and> hd ?sig = CHR ''['')"
          "\<not> (?sig \<noteq> [] \<and> hd ?sig = CHR ''L'')" by blast
    then show ?thesis
    proof cases
      case str
      show ?thesis
      proof (cases "empty_str s = 0")
        case True
        with r p0 None str obtain e s1 where o: "str_obj (lit_empty s) s = Some (e, s1)"
          and s': "s' = reg_pin e 1 (s1\<lparr>empty_str := e\<rparr>)" by auto
        have k: "keeps P s (s1\<lparr>empty_str := e\<rparr>)" using keeps_str_obj [OF ok o] by simp
        show ?thesis using keeps_trans [OF k keeps_reg_pin [OF keeps_ok [OF k]]] s' by simp
      qed (use r p0 None str keeps_refl [OF ok] in auto)
    next
      case arr
      then show ?thesis using r p0 None same keeps_refl [OF ok] by simp
    next
      case obj
      show ?thesis
      proof (cases "find (\<lambda>(k, _). k = ?sig) (auto_objs s) = None \<and> length (auto_objs s) < 32")
        case True
        obtain v s1 where o: "obj_new (sig_class ?sig) s = (v, s1)" by fastforce
        with r p0 None obj True have s': "s' = (reg_pin v 1 s1)\<lparr>auto_objs := auto_objs s @ [(sig_class ?sig, v)]\<rparr>"
          by (auto split: if_split_asm)
        have k: "keeps P s s1" by (rule keeps_obj_new [OF ok o])
        show ?thesis using keeps_trans [OF k keeps_reg_pin [OF keeps_ok [OF k]]] s' by simp
      next
        case False
        then have "s' = s" using r p0 None obj by (auto split: option.split_asm)
        then show ?thesis using keeps_refl [OF ok] by simp
      qed
    next
      case other
      then have "s' = s" using r p0 None by (cases "?sig = []") simp_all
      then show ?thesis using keeps_refl [OF ok] by simp
    qed
  qed
qed

lemma keeps_FindClass [keeps_rules]: "reg_ok s \<Longrightarrow> F_FindClass cn s = (h, s') \<Longrightarrow> keeps P s s'"
  by (auto simp: F_FindClass_def keeps_def pinned_def reg_ok_def active_def split: option.split_asm if_split_asm)

lemma keeps_tick [keeps_rules]: "reg_ok s \<Longrightarrow> keeps P s (s\<lparr>clk := c\<rparr>)"
  by (simp add: keeps_def pinned_def reg_ok_def active_def)

subsection \<open>Runs\<close>

definition permanent :: "'z hreg_scheme \<Rightarrow> u64 set" where
  "permanent s = rp ` set (take (keep_from s) (active s))"

inductive engine_step :: "u64 set \<Rightarrow> 'z jenv_scheme \<Rightarrow> 'z jenv_scheme \<Rightarrow> bool" for P where
  find_class: "F_FindClass cn s = (h, s') \<Longrightarrow> engine_step P s s'"
| get_id: "token_cache c name sig kind s = (q, s') \<Longrightarrow> engine_step P s s'"
| alloc_object: "F_AllocObject c s = Some (q, s') \<Longrightarrow> engine_step P s s'"
| new_object: "F_NewObject c s = Some (q, s') \<Longrightarrow> engine_step P s s'"
| new_string: "F_NewStringUTF cp s = Some (q, s') \<Longrightarrow> engine_step P s s'"
| new_bytes: "F_NewByteArray n s = (q, s') \<Longrightarrow> engine_step P s s'"
| new_array: "F_NewObjectArray n s = (q, s') \<Longrightarrow> engine_step P s s'"
| get_chars: "F_GetStringUTFChars p s = Some (q, s') \<Longrightarrow> engine_step P s s'"
| get_object: "heap s (empty_arr s) = Some (HArr \<lparr>aelem = 0, alen = 0\<rparr>) \<Longrightarrow>
    F_GetObjectField p tok s = Some (q, s') \<Longrightarrow> engine_step P s s'"
| set_number: "num_set type p tok v s = Some s' \<Longrightarrow> engine_step P s s'"
| set_object: "set_object_slot p tok v s = Some s' \<Longrightarrow> engine_step P s s'"
| set_element: "F_SetObjectArrayElement p i v s = Some s' \<Longrightarrow> engine_step P s s'"
| set_bytes: "F_SetByteArrayRegion p st n buf s = Some s' \<Longrightarrow> engine_step P s s'"
| pin: "F_NewGlobalRef p s = (q, s') \<Longrightarrow> engine_step P s s'"
| unpin: "p \<notin> P \<Longrightarrow> engine_step P s (F_DeleteGlobalRef p s)"
| release: "p \<notin> permanent s \<Longrightarrow> reg_release p s = Some (b, s') \<Longrightarrow> engine_step P s s'"
| sweep: "reg_sweep s = Some s' \<Longrightarrow> engine_step P s s'"
| tick: "engine_step P s (s\<lparr>clk := c\<rparr>)"

inductive_cases engine_stepE: "engine_step P s s'"

lemma engine_step_keeps: "engine_step P s s' \<Longrightarrow> reg_ok s \<Longrightarrow> keeps P s s'"
proof (induction rule: engine_step.induct)
  case (alloc_object c s q s')
  then show ?case by (auto simp: F_AllocObject_def intro: keeps_obj_new)
next
  case (new_string cp s q s')
  then show ?case by (auto simp: F_NewStringUTF_def intro: keeps_str_obj)
next
  case (release p s b s')
  then show ?case by (auto simp: permanent_def intro: keeps_release)
qed (auto intro: keeps_rules)

text \<open>The contract of a collected heap: a step keeps the invariant and every object that is
  held and that the step's owner does not let go of; a held object is live.\<close>

locale held_objects =
  fixes inv :: "'s \<Rightarrow> bool"
    and held :: "'s \<Rightarrow> 'a \<Rightarrow> bool"
    and live :: "'s \<Rightarrow> 'a \<Rightarrow> bool"
    and step :: "'a set \<Rightarrow> 's \<Rightarrow> 's \<Rightarrow> bool"
  assumes step_keeps: "step P s s' \<Longrightarrow> inv s \<Longrightarrow> inv s' \<and> (\<forall>p \<in> P. held s p \<longrightarrow> held s' p)"
    and held_live: "inv s \<Longrightarrow> held s p \<Longrightarrow> live s p"
begin

lemma run_live:
  assumes "(step P)\<^sup>*\<^sup>* s s'" and "inv s" and "\<And>p. p \<in> P \<Longrightarrow> held s p"
  shows "inv s' \<and> (\<forall>p \<in> P. held s' p \<and> live s' p)"
  using assms
proof (induction rule: rtranclp_induct)
  case base
  then show ?case using held_live by blast
next
  case (step s1 s2)
  then show ?case using step_keeps held_live by blast
qed

end

definition fully_live :: "'z hreg_scheme \<Rightarrow> u64 \<Rightarrow> bool" where
  "fully_live s p \<longleftrightarrow> p \<in> footprint (heap s) p \<and> footprint (heap s) p \<subseteq> dom (heap s)"

interpretation globals: held_objects reg_ok pinned fully_live engine_step
proof
  fix P and s s' :: "'a jenv_scheme"
  assume "engine_step P s s'" and "reg_ok s"
  then show "reg_ok s' \<and> (\<forall>p \<in> P. pinned s p \<longrightarrow> pinned s' p)"
    using engine_step_keeps by (simp add: keeps_def)
next
  fix s :: "'a jenv_scheme" and p
  assume ok: "reg_ok s" and pin: "pinned s p"
  obtain b where b: "heap s p = Some b" using pinned_live [OF ok pin] by auto
  then show "fully_live s p"
    using heap_okD(4) [OF reg_okD(1) [OF ok] b] by (auto simp: fully_live_def footprint_def)
qed

text \<open>C12. Global references. Starting from a sound registry in which every object of \<open>P\<close> is
  pinned, after any sequence of calls, sweeps, passing time and explicit releases of objects other
  than start-up objects, in which no reference to an object of \<open>P\<close> is deleted: every object of \<open>P\<close> is
  live with all the memory it owns, the registry is sound, and the next sweep and the next explicit
  release of whatever object cannot fault. (Releasing a start-up object ends such a sequence: C3 is
  about what may happen after it.)\<close>

theorem global_refs_stay_live:
  assumes run: "(engine_step P)\<^sup>*\<^sup>* s s'" and ok: "reg_ok s" and P: "\<forall>p \<in> P. pinned s p"
  shows "reg_ok s' \<and> (\<forall>p \<in> P. p \<in> footprint (heap s') p \<and> footprint (heap s') p \<subseteq> dom (heap s')) \<and>
    reg_sweep s' \<noteq> None \<and> (\<forall>q. reg_release q s' \<noteq> None)"
proof -
  have r: "reg_ok s'" and l: "\<forall>p \<in> P. fully_live s' p" using globals.run_live [OF run ok] P by auto
  have sw: "reg_sweep s' \<noteq> None"
    using reg_sweep_effect [OF r] reg_sweep_idle [of s'] by fastforce
  have "reg_release q s' \<noteq> None" for q
  proof (cases "q \<notin> registered s' \<or> pinned s' q")
    case True
    then show ?thesis using reg_release_skip [OF r] by auto
  next
    case False
    then have "\<exists>e \<in> set (active s'). rp e = q \<and> rpin e = 0"
      using reg_okD(7) [OF r] by (force simp: registered_def pinned_def)
    from reg_release_unpinned [OF r this] show ?thesis by auto
  qed
  with r l sw show ?thesis by (simp add: fully_live_def)
qed

theorem global_refs_stay_live_witness:
  "\<exists>s'. reg_sweep sample_env = Some s' \<and> reg_ok s' \<and> 0x30 \<in> dom (heap s')"
proof -
  obtain s' where s': "reg_sweep sample_env = Some s'"
    using reg_sweep_effect [OF sample_env_ok] reg_sweep_idle [of sample_env] by fastforce
  then have "(engine_step {0x30})\<^sup>*\<^sup>* sample_env s'" by (blast intro: engine_step.sweep)
  from global_refs_stay_live [OF this sample_env_ok]
  have "reg_ok s' \<and> 0x30 \<in> footprint (heap s') 0x30 \<and> footprint (heap s') 0x30 \<subseteq> dom (heap s')"
    by (simp add: pinned_def sample_env_sel)
  with s' show ?thesis by (intro exI [of _ s']) auto
qed

end
