(* ===== verification/Env_Table.thy ===== *)
theory Env_Table
  imports Jni_Env
begin

text \<open>
  The function tables that the harness hands to the engine: the slot order of
  \<open>struct JNINativeInterface\<close> and \<open>struct JNIInvokeInterface\<close> (\<open>harness/jni.h\<close>) and their
  contents after \<open>build_env\<close> and \<open>build_vm\<close> (\<open>harness/jinterop.c\<close>). A slot is named by its
  member and a function by its C name.
\<close>

subsection \<open>The interfaces\<close>

definition native_slots_1 :: "string list" where
  "native_slots_1 =
     [''reserved0'', ''reserved1'', ''reserved2'', ''reserved3'', ''GetVersion'',
      ''DefineClass'', ''FindClass'', ''FromReflectedMethod'', ''FromReflectedField'',
      ''ToReflectedMethod'', ''GetSuperclass'', ''IsAssignableFrom'', ''ToReflectedField'',
      ''Throw'', ''ThrowNew'', ''ExceptionOccurred'', ''ExceptionDescribe'', ''ExceptionClear'',
      ''FatalError'', ''PushLocalFrame'', ''PopLocalFrame'', ''NewGlobalRef'',
      ''DeleteGlobalRef'', ''DeleteLocalRef'', ''IsSameObject'', ''NewLocalRef'',
      ''EnsureLocalCapacity'', ''AllocObject'', ''NewObject'', ''NewObjectV'', ''NewObjectA'',
      ''GetObjectClass'', ''IsInstanceOf'', ''GetMethodID'', ''CallObjectMethod'',
      ''CallObjectMethodV'', ''CallObjectMethodA'', ''CallBooleanMethod'',
      ''CallBooleanMethodV'', ''CallBooleanMethodA'', ''CallByteMethod'', ''CallByteMethodV'',
      ''CallByteMethodA'', ''CallCharMethod'', ''CallCharMethodV'', ''CallCharMethodA'',
      ''CallShortMethod'', ''CallShortMethodV'', ''CallShortMethodA'', ''CallIntMethod'',
      ''CallIntMethodV'', ''CallIntMethodA'', ''CallLongMethod'', ''CallLongMethodV'',
      ''CallLongMethodA'', ''CallFloatMethod'', ''CallFloatMethodV'', ''CallFloatMethodA'',
      ''CallDoubleMethod'', ''CallDoubleMethodV'', ''CallDoubleMethodA'', ''CallVoidMethod'',
      ''CallVoidMethodV'', ''CallVoidMethodA'', ''CallNonvirtualObjectMethod'',
      ''CallNonvirtualObjectMethodV'', ''CallNonvirtualObjectMethodA'',
      ''CallNonvirtualBooleanMethod'', ''CallNonvirtualBooleanMethodV'',
      ''CallNonvirtualBooleanMethodA'', ''CallNonvirtualByteMethod'',
      ''CallNonvirtualByteMethodV'', ''CallNonvirtualByteMethodA'', ''CallNonvirtualCharMethod'',
      ''CallNonvirtualCharMethodV'', ''CallNonvirtualCharMethodA'',
      ''CallNonvirtualShortMethod'', ''CallNonvirtualShortMethodV'',
      ''CallNonvirtualShortMethodA'', ''CallNonvirtualIntMethod'', ''CallNonvirtualIntMethodV'',
      ''CallNonvirtualIntMethodA'', ''CallNonvirtualLongMethod'', ''CallNonvirtualLongMethodV'',
      ''CallNonvirtualLongMethodA'', ''CallNonvirtualFloatMethod'',
      ''CallNonvirtualFloatMethodV'', ''CallNonvirtualFloatMethodA'',
      ''CallNonvirtualDoubleMethod'', ''CallNonvirtualDoubleMethodV'',
      ''CallNonvirtualDoubleMethodA'', ''CallNonvirtualVoidMethod'',
      ''CallNonvirtualVoidMethodV'', ''CallNonvirtualVoidMethodA'']"

definition native_slots_2 :: "string list" where
  "native_slots_2 =
     [''GetFieldID'', ''GetObjectField'', ''GetBooleanField'', ''GetByteField'',
      ''GetCharField'', ''GetShortField'', ''GetIntField'', ''GetLongField'', ''GetFloatField'',
      ''GetDoubleField'', ''SetObjectField'', ''SetBooleanField'', ''SetByteField'',
      ''SetCharField'', ''SetShortField'', ''SetIntField'', ''SetLongField'', ''SetFloatField'',
      ''SetDoubleField'', ''GetStaticMethodID'', ''CallStaticObjectMethod'',
      ''CallStaticObjectMethodV'', ''CallStaticObjectMethodA'', ''CallStaticBooleanMethod'',
      ''CallStaticBooleanMethodV'', ''CallStaticBooleanMethodA'', ''CallStaticByteMethod'',
      ''CallStaticByteMethodV'', ''CallStaticByteMethodA'', ''CallStaticCharMethod'',
      ''CallStaticCharMethodV'', ''CallStaticCharMethodA'', ''CallStaticShortMethod'',
      ''CallStaticShortMethodV'', ''CallStaticShortMethodA'', ''CallStaticIntMethod'',
      ''CallStaticIntMethodV'', ''CallStaticIntMethodA'', ''CallStaticLongMethod'',
      ''CallStaticLongMethodV'', ''CallStaticLongMethodA'', ''CallStaticFloatMethod'',
      ''CallStaticFloatMethodV'', ''CallStaticFloatMethodA'', ''CallStaticDoubleMethod'',
      ''CallStaticDoubleMethodV'', ''CallStaticDoubleMethodA'', ''CallStaticVoidMethod'',
      ''CallStaticVoidMethodV'', ''CallStaticVoidMethodA'', ''GetStaticFieldID'',
      ''GetStaticObjectField'', ''GetStaticBooleanField'', ''GetStaticByteField'',
      ''GetStaticCharField'', ''GetStaticShortField'', ''GetStaticIntField'',
      ''GetStaticLongField'', ''GetStaticFloatField'', ''GetStaticDoubleField'',
      ''SetStaticObjectField'', ''SetStaticBooleanField'', ''SetStaticByteField'',
      ''SetStaticCharField'', ''SetStaticShortField'', ''SetStaticIntField'',
      ''SetStaticLongField'', ''SetStaticFloatField'', ''SetStaticDoubleField'', ''NewString'',
      ''GetStringLength'', ''GetStringChars'', ''ReleaseStringChars'', ''NewStringUTF'',
      ''GetStringUTFLength'', ''GetStringUTFChars'', ''ReleaseStringUTFChars'',
      ''GetArrayLength'', ''NewObjectArray'', ''GetObjectArrayElement'',
      ''SetObjectArrayElement'', ''NewBooleanArray'', ''NewByteArray'', ''NewCharArray'',
      ''NewShortArray'', ''NewIntArray'', ''NewLongArray'', ''NewFloatArray'',
      ''NewDoubleArray'', ''GetBooleanArrayElements'', ''GetByteArrayElements'',
      ''GetCharArrayElements'', ''GetShortArrayElements'', ''GetIntArrayElements'',
      ''GetLongArrayElements'', ''GetFloatArrayElements'', ''GetDoubleArrayElements'',
      ''ReleaseBooleanArrayElements'', ''ReleaseByteArrayElements'',
      ''ReleaseCharArrayElements'', ''ReleaseShortArrayElements'']"

definition native_slots_3 :: "string list" where
  "native_slots_3 =
     [''ReleaseIntArrayElements'', ''ReleaseLongArrayElements'', ''ReleaseFloatArrayElements'',
      ''ReleaseDoubleArrayElements'', ''GetBooleanArrayRegion'', ''GetByteArrayRegion'',
      ''GetCharArrayRegion'', ''GetShortArrayRegion'', ''GetIntArrayRegion'',
      ''GetLongArrayRegion'', ''GetFloatArrayRegion'', ''GetDoubleArrayRegion'',
      ''SetBooleanArrayRegion'', ''SetByteArrayRegion'', ''SetCharArrayRegion'',
      ''SetShortArrayRegion'', ''SetIntArrayRegion'', ''SetLongArrayRegion'',
      ''SetFloatArrayRegion'', ''SetDoubleArrayRegion'', ''RegisterNatives'',
      ''UnregisterNatives'', ''MonitorEnter'', ''MonitorExit'', ''GetJavaVM'',
      ''GetStringRegion'', ''GetStringUTFRegion'', ''GetPrimitiveArrayCritical'',
      ''ReleasePrimitiveArrayCritical'', ''GetStringCritical'', ''ReleaseStringCritical'',
      ''NewWeakGlobalRef'', ''DeleteWeakGlobalRef'', ''ExceptionCheck'', ''NewDirectByteBuffer'',
      ''GetDirectBufferAddress'', ''GetDirectBufferCapacity'', ''GetObjectRefType'']"

definition JNINativeInterface :: "string list" where
  "JNINativeInterface = native_slots_1 @ native_slots_2 @ native_slots_3"

definition JNIInvokeInterface :: "string list" where
  "JNIInvokeInterface =
     [''reserved0'', ''reserved1'', ''reserved2'', ''DestroyJavaVM'', ''AttachCurrentThread'',
      ''DetachCurrentThread'', ''GetEnv'', ''AttachCurrentThreadAsDaemon'']"

text \<open>\<open>ENV_SLOT\<close> and \<open>VM_SLOT\<close>: the offset of a member, in pointers. (A name that is no member
  does not compile; it is given an offset past the end.)\<close>

definition slot_of :: "string list \<Rightarrow> string \<Rightarrow> nat" where
  "slot_of names n = (case index_of n names of Some i \<Rightarrow> i | None \<Rightarrow> length names)"

definition ENV_SLOT :: "string \<Rightarrow> nat" where
  "ENV_SLOT n = slot_of JNINativeInterface n"

definition VM_SLOT :: "string \<Rightarrow> nat" where
  "VM_SLOT n = slot_of JNIInvokeInterface n"

subsection \<open>Filling the tables\<close>

definition ENV_SLOTS :: nat where "ENV_SLOTS = 300"

definition tab :: "nat \<Rightarrow> string \<Rightarrow> string list \<Rightarrow> string list" where
  "tab i fn t = (if i < ENV_SLOTS then t[i := fn] else t)"

definition tab_v :: "nat \<Rightarrow> string \<Rightarrow> string list \<Rightarrow> string list" where
  "tab_v i fn t = (if i < 32 then t[i := fn] else t)"

definition env_regs :: "(string \<times> string) list" where
  "env_regs =
     [(''GetVersion'', ''F_GetVersion''), (''FindClass'', ''F_FindClass''),
      (''ExceptionOccurred'', ''F_ExceptionOccurred''),
      (''ExceptionClear'', ''F_ExceptionClear''), (''ExceptionCheck'', ''F_ExceptionCheck''),
      (''PushLocalFrame'', ''F_PushLocalFrame''), (''PopLocalFrame'', ''F_PopLocalFrame''),
      (''NewGlobalRef'', ''F_NewGlobalRef''), (''DeleteGlobalRef'', ''F_DeleteGlobalRef''),
      (''DeleteLocalRef'', ''F_DeleteLocalRef''), (''NewLocalRef'', ''F_NewLocalRef''),
      (''EnsureLocalCapacity'', ''F_EnsureLocalCapacity''), (''AllocObject'', ''F_AllocObject''),
      (''NewObject'', ''F_NewObject''), (''NewObjectV'', ''F_NewObject''),
      (''NewObjectA'', ''F_NewObject''), (''GetObjectClass'', ''F_GetObjectClass''),
      (''GetMethodID'', ''F_GetMethodID''), (''CallObjectMethod'', ''F_CallObjectMethod''),
      (''CallObjectMethodV'', ''F_CallObjectMethod''),
      (''CallObjectMethodA'', ''F_CallObjectMethod''), (''CallIntMethod'', ''F_CallIntMethod''),
      (''CallIntMethodV'', ''F_CallIntMethod''), (''CallIntMethodA'', ''F_CallIntMethod''),
      (''CallVoidMethod'', ''F_CallVoidMethod''), (''CallVoidMethodV'', ''F_CallVoidMethod''),
      (''CallVoidMethodA'', ''F_CallVoidMethod''), (''GetFieldID'', ''F_GetFieldID''),
      (''GetObjectField'', ''F_GetObjectField''), (''GetBooleanField'', ''F_GetBooleanField''),
      (''GetIntField'', ''F_GetIntField''), (''GetLongField'', ''F_GetLongField''),
      (''GetFloatField'', ''F_GetFloatField''), (''SetObjectField'', ''F_SetObjectField''),
      (''SetBooleanField'', ''F_SetBooleanField''), (''SetIntField'', ''F_SetIntField''),
      (''SetLongField'', ''F_SetLongField''), (''SetFloatField'', ''F_SetFloatField''),
      (''GetStaticMethodID'', ''F_GetStaticMethodID''),
      (''CallStaticVoidMethod'', ''F_CallStaticVoidMethod''),
      (''CallStaticVoidMethodV'', ''F_CallStaticVoidMethod''),
      (''CallStaticVoidMethodA'', ''F_CallStaticVoidMethod''),
      (''GetStaticFieldID'', ''F_GetStaticFieldID''),
      (''GetStaticObjectField'', ''F_GetStaticObjectField''),
      (''GetStaticIntField'', ''F_GetStaticIntField''), (''NewStringUTF'', ''F_NewStringUTF''),
      (''GetStringUTFChars'', ''F_GetStringUTFChars''),
      (''ReleaseStringUTFChars'', ''F_ReleaseStringUTFChars''),
      (''GetArrayLength'', ''F_GetArrayLength''), (''NewObjectArray'', ''F_NewObjectArray''),
      (''GetObjectArrayElement'', ''F_GetObjectArrayElement''),
      (''SetObjectArrayElement'', ''F_SetObjectArrayElement''),
      (''NewByteArray'', ''F_NewByteArray''),
      (''GetByteArrayElements'', ''F_GetByteArrayElements''),
      (''ReleaseByteArrayElements'', ''F_ReleaseByteArrayElements''),
      (''SetByteArrayRegion'', ''F_SetByteArrayRegion''),
      (''RegisterNatives'', ''F_RegisterNatives''), (''GetJavaVM'', ''F_GetJavaVM''),
      (''GetDirectBufferAddress'', ''F_GetDirectBufferAddress''),
      (''GetObjectRefType'', ''F_GetObjectRefType'')]"

definition build_env :: "string list" where
  "build_env = fold (\<lambda>(n, fn). tab (ENV_SLOT n) fn) env_regs (replicate ENV_SLOTS ''stub_default'')"

definition vm_regs :: "(string \<times> string) list" where
  "vm_regs =
     [(''DestroyJavaVM'', ''V_DestroyJavaVM''),
      (''AttachCurrentThread'', ''V_AttachCurrentThread''),
      (''DetachCurrentThread'', ''V_DetachCurrentThread''), (''GetEnv'', ''V_GetEnv''),
      (''AttachCurrentThreadAsDaemon'', ''V_AttachCurrentThread'')]"

definition build_vm :: "string list" where
  "build_vm = fold (\<lambda>(n, fn). tab_v (VM_SLOT n) fn) vm_regs (replicate 32 ''stub_default'')"

subsection \<open>Tables as stores\<close>

definition put_slot :: "nat \<Rightarrow> nat \<Rightarrow> 'a \<Rightarrow> 'a list \<Rightarrow> 'a list option" where
  "put_slot n i x t = Some (if i < n then t[i := x] else t)"

definition get_slot :: "nat \<Rightarrow> 'a list \<Rightarrow> 'a option" where
  "get_slot i t = (if i < length t then Some (t ! i) else None)"

interpretation tables: cell_store get_slot "put_slot n" "\<lambda>t. length t = n" "\<lambda>i. i < n" for n
  by unfold_locales (auto simp: put_slot_def get_slot_def nth_list_update split: if_splits)

lemma write_all_put_slot:
  "write_all (put_slot n) (map (\<lambda>(k, x). (f k, x)) ws) t =
     Some (fold (\<lambda>(k, x) t. if f k < n then t[f k := x] else t) ws t)"
  by (induction ws arbitrary: t) (auto simp: put_slot_def)

text \<open>Registrations at distinct slots: each slot holds the function registered for it, every
  other slot the default.\<close>

lemma table_contents:
  assumes d: "distinct (map fst ws)"
    and t: "t = fold (\<lambda>(k, x) t. if k < n then t[k := x] else t) ws (replicate n d)"
  shows "length t = n \<and> (\<forall>i < n. t ! i = (case map_of ws i of Some x \<Rightarrow> x | None \<Rightarrow> d))"
proof -
  have ws: "write_all (put_slot n) ws (replicate n d) = Some t"
    using write_all_put_slot [of n "\<lambda>k. k" ws "replicate n d"] by (simp add: t)
  obtain t' where t': "write_all (put_slot n) ws (replicate n d) = Some t'" "length t' = n"
    "\<And>j. get_slot j t' = (if j < n \<and> j \<in> fst ` set ws then map_of (rev ws) j else get_slot j (replicate n d))"
    using tables.last_write_wins [of "replicate n d" n ws] by auto
  have rev: "map_of (rev ws) = map_of ws"
    using d by (intro map_of_inject_set [THEN iffD2]) (simp_all add: rev_map [symmetric])
  have "t ! i = (case map_of ws i of Some x \<Rightarrow> x | None \<Rightarrow> d)" if i: "i < n" for i
    using t'(3) [of i] i ws t'(1,2) map_of_eq_None_iff [of ws i]
    by (cases "map_of ws i") (auto simp: get_slot_def rev split: if_splits)
  then show ?thesis using ws t'(1,2) by simp
qed

lemma build_env_fold:
  "build_env = fold (\<lambda>(k, x) t. if k < 300 then t[k := x] else t)
     (map (\<lambda>(n, fn). (ENV_SLOT n, fn)) env_regs) (replicate 300 ''stub_default'')"
proof -
  have "(\<lambda>(n, fn). tab (ENV_SLOT n) fn) =
      (\<lambda>(k, x) t. if k < 300 then t[k := x] else t) \<circ> (\<lambda>(n, fn). (ENV_SLOT n, fn))"
    by (auto simp: fun_eq_iff tab_def ENV_SLOTS_def)
  then show ?thesis by (simp add: build_env_def fold_map ENV_SLOTS_def)
qed

subsection \<open>The slots are distinct\<close>

text \<open>Numeric keys of the names, on which distinctness is quick to check.\<close>

primrec name_key :: "nat \<Rightarrow> string \<Rightarrow> nat" where
  "name_key k [] = k"
| "name_key k (c # cs) = name_key (of_char c + 2 * k) cs"

lemma keys_1: "map (name_key 0) native_slots_1 =
     [56124, 56125, 56126, 56127, 89288, 173837, 44269, 47157234, 23578424, 12161010, 716525,
      5728787, 6080312, 2973, 24417, 11815542, 11814445, 1476696, 87992, 1569011, 762099, 369384,
      2806504, 1403656, 360670, 185096, 47310317, 175710, 46174, 92434, 92413, 1416749, 361264,
      177310, 5479922, 10959930, 10959909, 10941298, 21882682, 21882661, 1369778, 2739642,
      2739621, 1364338, 2728762, 2728741, 2750322, 5500730, 5500709, 684914, 1369914, 1369893,
      1371698, 2743482, 2743461, 2736882, 5473850, 5473829, 5475762, 10951610, 10951589, 1375986,
      2752058, 2752037, 5631622642, 11263245370, 11263245349, 11263226738, 22526453562,
      22526453541, 1407905458, 2815811002, 2815810981, 1407900018, 2815800122, 2815800101,
      2815821682, 5631643450, 5631643429, 703952754, 1407905594, 1407905573, 1407907378,
      2815814842, 2815814821, 2815808242, 5631616570, 5631616549, 5631618482, 11263237050,
      11263237029, 1407911666, 2815823418, 2815823397]"
  unfolding native_slots_1_def by simp

lemma keys_2: "map (name_key 0) native_slots_2 =
     [87990, 1416760, 2824440, 353944, 351224, 713464, 176888, 354904, 706744, 1414680, 1515064,
      3021048, 378520, 375800, 762616, 189176, 379480, 755896, 1512984, 11437982, 352349682,
      704699450, 704699429, 704680818, 1409361722, 1409361701, 88087218, 176174522, 176174501,
      88081778, 176163642, 176163621, 176185202, 352370490, 352370469, 44043634, 88087354,
      88087333, 88089138, 176178362, 176178341, 176171762, 352343610, 352343589, 352345522,
      704691130, 704691109, 88093426, 176186938, 176186917, 5718326, 91502136, 182995192,
      22875288, 22872568, 45756152, 11437560, 22876248, 45749432, 91500056, 97793592, 195578104,
      24448152, 24445432, 48901880, 12223992, 24449112, 48895160, 97791512, 46679, 2866156,
      1432875, 24233259, 374010, 22926508, 11463051, 193866123, 1412844, 1480291, 181361884,
      193944796, 2951459, 369859, 367139, 745251, 184867, 370819, 738531, 1478211, 723089963,
      90642987, 89946667, 182680107, 45316651, 90888747, 180959787, 362191403, 12396886571,
      1549867563, 1549171243, 3101129259]"
  unfolding native_slots_2_def by simp

lemma keys_3: "map (name_key 0) native_slots_3 =
     [774928939, 1550113323, 3099408939, 6199089707, 180772728, 22660984, 22486904, 45670264,
      11329400, 22722424, 45240184, 90548088, 193355640, 24233848, 24059768, 48815992, 12115832,
      24295288, 48385912, 96839544, 3036989, 12736317, 382924, 191438, 44029, 2866296, 22926648,
      2924190562, 49619376994, 11464546, 193867618, 5948136, 44942056, 1476661, 47193556,
      361280381, 722561005, 5667913]"
  unfolding native_slots_3_def by simp

lemma native_slots_distinct: "distinct JNINativeInterface"
proof -
  have "distinct (map (name_key 0) JNINativeInterface)"
    unfolding JNINativeInterface_def map_append keys_1 keys_2 keys_3 by simp
  then show ?thesis by (simp add: distinct_map)
qed

lemma native_slots_length: "length JNINativeInterface = 233"
  by (simp add: JNINativeInterface_def native_slots_1_def native_slots_2_def native_slots_3_def)

definition env_slot_list :: "nat list" where
  "env_slot_list =
     [4, 6, 15, 17, 228, 19, 20, 21, 22, 23, 25, 26, 27, 28, 29, 30, 31, 33, 34, 35, 36, 49, 50,
      51, 61, 62, 63, 94, 95, 96, 100, 101, 102, 104, 105, 109, 110, 111, 113, 141, 142, 143,
      144, 145, 150, 167, 169, 170, 171, 172, 173, 174, 176, 184, 192, 208, 215, 219, 230, 232]"

lemma env_slots_nth: "map (nth JNINativeInterface) env_slot_list = map fst env_regs"
  by code_simp

lemma slot_of_nth: "distinct names \<Longrightarrow> i < length names \<Longrightarrow> slot_of names (names ! i) = i"
  by (simp add: slot_of_def index_of_nth)

lemma env_slot_numbers: "map (ENV_SLOT \<circ> fst) env_regs = env_slot_list"
proof -
  have "map ENV_SLOT (map (nth JNINativeInterface) env_slot_list) = map (\<lambda>i. i) env_slot_list"
    unfolding map_map
    by (rule map_cong [OF refl])
      (auto simp: ENV_SLOT_def native_slots_length env_slot_list_def
        intro!: slot_of_nth [OF native_slots_distinct])
  then show ?thesis unfolding env_slots_nth by simp
qed

text \<open>In the 300-slot table that the engine gets as its \<open>JNIEnv\<close> every function registered by \<open>build_env\<close> is
  in the slot of the interface member it is registered for and in the index that the JNI specification
  gives that member, no registration is dropped or overwritten, and every other slot answers with
  the logging default; likewise the five functions of the 32-slot \<open>JavaVM\<close> table.\<close>

lemma jni_tables:
  "length build_env = 300 \<and>
   (\<forall>(n, fn) \<in> set env_regs. JNINativeInterface ! ENV_SLOT n = n \<and> build_env ! ENV_SLOT n = fn) \<and>
   (\<forall>i < 300. i \<notin> (ENV_SLOT \<circ> fst) ` set env_regs \<longrightarrow> build_env ! i = ''stub_default'') \<and>
   map (ENV_SLOT \<circ> fst) env_regs = env_slot_list \<and>
   length build_vm = 32 \<and>
   map (\<lambda>i. build_vm ! i) [0..<8] = replicate 3 ''stub_default'' @
     [''V_DestroyJavaVM'', ''V_AttachCurrentThread'', ''V_DetachCurrentThread'', ''V_GetEnv'', ''V_AttachCurrentThread''] \<and>
   map VM_SLOT [''DestroyJavaVM'', ''AttachCurrentThread'', ''DetachCurrentThread'', ''GetEnv'',
     ''AttachCurrentThreadAsDaemon''] = [3, 4, 5, 6, 7]"
proof (intro conjI)
  let ?ws = "map (\<lambda>(n, fn). (ENV_SLOT n, fn)) env_regs"
  have keys: "map fst ?ws = env_slot_list"
    by (simp add: env_slot_numbers [symmetric] comp_def case_prod_beta)
  have d: "distinct (map fst ?ws)" unfolding keys env_slot_list_def by simp
  note tc = table_contents [OF d build_env_fold]
  show "length build_env = 300" using tc by blast
  have sl: "map (\<lambda>x. JNINativeInterface ! ENV_SLOT (fst x)) env_regs = map fst env_regs"
    using env_slots_nth by (simp add: env_slot_numbers [symmetric] comp_def)
  have lt: "ENV_SLOT (fst x) < 300" if "x \<in> set env_regs" for x
  proof -
    have "ENV_SLOT (fst x) \<in> set (map (ENV_SLOT \<circ> fst) env_regs)" using that by simp
    then show ?thesis unfolding env_slot_numbers env_slot_list_def by auto
  qed
  show "\<forall>(n, fn) \<in> set env_regs. JNINativeInterface ! ENV_SLOT n = n \<and> build_env ! ENV_SLOT n = fn"
  proof (intro ballI, clarify)
    fix n fn assume r: "(n, fn) \<in> set env_regs"
    then have "map_of ?ws (ENV_SLOT n) = Some fn" using d by (intro map_of_is_SomeI) force+
    then have "build_env ! ENV_SLOT n = fn" using tc lt [OF r] by simp
    moreover have "JNINativeInterface ! ENV_SLOT n = n" using sl r by (simp add: map_eq_conv) force
    ultimately show "JNINativeInterface ! ENV_SLOT n = n \<and> build_env ! ENV_SLOT n = fn" by simp
  qed
  show "\<forall>i < 300. i \<notin> (ENV_SLOT \<circ> fst) ` set env_regs \<longrightarrow> build_env ! i = ''stub_default''"
  proof (intro allI impI)
    fix i :: nat assume i: "i < 300" "i \<notin> (ENV_SLOT \<circ> fst) ` set env_regs"
    then have "map_of ?ws i = None" by (force simp: map_of_eq_None_iff)
    then show "build_env ! i = ''stub_default''" using tc i(1) by simp
  qed
  show "map (ENV_SLOT \<circ> fst) env_regs = env_slot_list" by (rule env_slot_numbers)
  show "length build_vm = 32" by code_simp
  show "map (\<lambda>i. build_vm ! i) [0..<8] = replicate 3 ''stub_default'' @
     [''V_DestroyJavaVM'', ''V_AttachCurrentThread'', ''V_DetachCurrentThread'', ''V_GetEnv'', ''V_AttachCurrentThread'']"
    by code_simp
  show "map VM_SLOT [''DestroyJavaVM'', ''AttachCurrentThread'', ''DetachCurrentThread'', ''GetEnv'',
     ''AttachCurrentThreadAsDaemon''] = [3, 4, 5, 6, 7]"
    by code_simp
qed

text \<open>Each member is registered with the function of its own name, and the forms with a \<open>va_list\<close> or an array
  of arguments with the function of the plain form.\<close>

definition served :: "string \<Rightarrow> string" where
  "served n =
     (if (last n = CHR ''V'' \<or> last n = CHR ''A'') \<and> butlast n \<in> set JNINativeInterface then butlast n else n)"

lemma env_regs_pairing: "list_all (\<lambda>(n, fn). fn = ''F_'' @ served n) env_regs"
  by code_simp

lemma vm_default: "list_all (\<lambda>i. build_vm ! i = ''stub_default'') [8..<32]"
  by code_simp

end
