(* ===== verification/Cand_Queue.thy ===== *)
theory Cand_Queue
  imports Gc_Runs
begin

text \<open>
  The hand-over of candidate events from the engine's threads to the daemon
  (\<open>harness/jinterop.c\<close>): the hooks of \<open>F_SetObjectField\<close> and \<open>F_SetLongField\<close>, which pick up
  the pending input and the iterator of a batch, and the bounded event queue that the
  \<open>onBatchEvent\<close> callback fills. Every hook runs under the candidate mutex, so it is one
  step of the model; wake-ups and logging are left out.
\<close>

definition CAND_QUEUE :: nat where "CAND_QUEUE = 32"

text \<open>\<open>CandEvent\<close>\<close>

record cand_event =
  ev_it :: u64
  ev_known :: bool
  ev_input :: string

text \<open>\<open>pi_acc\<close>, \<open>pi_last\<close> and \<open>pend_input\<close> are buffers of 256 bytes, kept as the strings in them.\<close>

record cand_env = jenv +
  daemon_mode :: bool
  cb_count :: u64
  cand_q :: "cand_event list"
  pi_acc :: string
  pi_last :: string
  pi_have :: bool
  pend_it :: u64
  pend_known :: bool
  pend_input :: string
  last_iterator :: u64

subsection \<open>Field hooks\<close>

definition lower :: "char \<Rightarrow> bool" where
  "lower c \<longleftrightarrow> 97 \<le> (of_char c :: nat) \<and> (of_char c :: nat) \<le> 122"

text \<open>The copying loop of \<open>pending_input_field\<close>: letters only, at most 255 bytes in all.\<close>

fun acc_letters :: "string \<Rightarrow> string \<Rightarrow> string" where
  "acc_letters acc [] = acc"
| "acc_letters acc (c # cs) =
     (if length acc + 1 < 256 then acc_letters (if lower c then acc @ [c] else acc) cs else acc)"

definition pending_input_field :: "string \<Rightarrow> u64 \<Rightarrow> 'z cand_env_scheme \<Rightarrow> 'z cand_env_scheme option" where
  "pending_input_field name val s =
     (if name = ''match'' then do {
        j \<leftarrow> is_jobj val s;
        sf \<leftarrow> (if j then do { ob \<leftarrow> get_obj val s; Some (obj_get ob ''.str'') } else Some None);
        case sf of
          None \<Rightarrow> Some s
        | Some f \<Rightarrow>
            if fval f = 0 then Some s
            else do { txt \<leftarrow> get_str (fval f) s; Some (s\<lparr>pi_acc := acc_letters (pi_acc s) txt\<rparr>) }
      }
      else if name = ''pendingInputs'' then
        Some (s\<lparr>pi_last := pi_acc s, pi_acc := [], pi_have := True\<rparr>)
      else Some s)"

definition F_SetObjectField ::
    "u64 \<Rightarrow> u64 \<Rightarrow> u64 \<Rightarrow> 'z cand_env_scheme \<Rightarrow> 'z cand_env_scheme option" where
  "F_SetObjectField p tok v s = do {
     j \<leftarrow> is_jobj p s;
     if \<not> j then Some s
     else do {
       s1 \<leftarrow> (if daemon_mode s \<and> tok \<noteq> 0
              then do { t \<leftarrow> get_tok tok s; pending_input_field (tname t) v s }
              else Some s);
       t \<leftarrow> get_tok tok s1;
       jv \<leftarrow> is_jobj v s1;
       if jv then do {
         ob \<leftarrow> get_obj v s1;
         case obj_get ob ''.str'' of
           Some sf \<Rightarrow> obj_set p (tname t) CHR ''s'' (fval sf) s1
         | None \<Rightarrow> obj_set p (tname t) CHR ''o'' v s1
       }
       else obj_set p (tname t) CHR ''o'' v s1
     }
   }"

text \<open>The iterator hook of \<open>F_SetLongField\<close>.\<close>

definition iterator_hook :: "string \<Rightarrow> u64 \<Rightarrow> 'z cand_env_scheme \<Rightarrow> 'z cand_env_scheme" where
  "iterator_hook name v s =
     (if name = ''newIterator'' \<and> v \<noteq> 0 then
        let s1 = s\<lparr>last_iterator := v\<rparr> in
        if daemon_mode s1
        then s1\<lparr>pend_it := v, pend_known := pi_have s1, pend_input := pi_last s1,
                pi_have := False, pi_acc := []\<rparr>
        else s1
      else s)"

definition F_SetLongField ::
    "u64 \<Rightarrow> u64 \<Rightarrow> u64 \<Rightarrow> 'z cand_env_scheme \<Rightarrow> 'z cand_env_scheme option" where
  "F_SetLongField p tok v s = do {
     s1 \<leftarrow> (if tok = 0 then Some s
            else do { t \<leftarrow> get_tok tok s; Some (iterator_hook (tname t) v s) });
     set_long_slot p tok v s1
   }"

subsection \<open>The callback\<close>

definition push_event :: "cand_event \<Rightarrow> 'z cand_env_scheme \<Rightarrow> 'z cand_env_scheme" where
  "push_event e s =
     (let q = (if length (cand_q s) = CAND_QUEUE then tl (cand_q s) else cand_q s)
      in s\<lparr>cand_q := q @ [e]\<rparr>)"

definition probe_listener :: "'z cand_env_scheme \<Rightarrow> 'z cand_env_scheme" where
  "probe_listener s =
     (if daemon_mode s then
        let s1 = s\<lparr>cb_count := cb_count s + 1\<rparr> in
        if pend_it s1 \<noteq> 0
        then (push_event \<lparr>ev_it = pend_it s1, ev_known = pend_known s1,
                ev_input = snprintf_s 256 (pend_input s1)\<rparr> s1)\<lparr>pend_it := 0\<rparr>
        else s1
      else s)"

definition F_CallStaticVoidMethod :: "u64 \<Rightarrow> 'z cand_env_scheme \<Rightarrow> 'z cand_env_scheme option" where
  "F_CallStaticVoidMethod tok s =
     (if daemon_mode s \<and> tok \<noteq> 0 then do {
        t \<leftarrow> get_tok tok s;
        Some (if tname t = ''onBatchEvent'' then probe_listener s else s)
      }
      else Some s)"

subsection \<open>The letters of a batch\<close>

lemma acc_letters_take:
  "length acc \<le> 255 \<Longrightarrow> acc_letters acc cs = take 255 (acc @ filter lower cs)"
proof (induction cs arbitrary: acc)
  case Nil
  then show ?case by simp
next
  case (Cons c cs)
  show ?case
  proof (cases "length acc = 255")
    case True
    then show ?thesis by simp
  next
    case False
    then have "255 - length acc = Suc (254 - length acc)" using Cons.prems by simp
    then show ?thesis using Cons False by simp
  qed
qed

lemma acc_letters_fold:
  "length acc \<le> 255 \<Longrightarrow> fold (\<lambda>t a. acc_letters a t) ts acc = take 255 (acc @ filter lower (concat ts))"
proof (induction ts arbitrary: acc)
  case Nil
  then show ?case by simp
next
  case (Cons t ts)
  have "fold (\<lambda>t a. acc_letters a t) (t # ts) acc = fold (\<lambda>t a. acc_letters a t) ts (take 255 (acc @ filter lower t))"
    using acc_letters_take [OF Cons.prems] by simp
  also have "\<dots> = take 255 (take 255 (acc @ filter lower t) @ filter lower (concat ts))"
    by (rule Cons.IH) simp
  also have "\<dots> = take 255 (acc @ filter lower (concat (t # ts)))" by (simp add: min_def)
  finally show ?case .
qed


subsection \<open>The queue\<close>

interpretation events: bounded_queue push_event "cand_q :: 'z cand_env_scheme \<Rightarrow> cand_event list" CAND_QUEUE
  by unfold_locales (auto simp: push_event_def CAND_QUEUE_def Let_def)

text \<open>The calls of one batch of the engine, as the hooks see them: a match string for every
  pending input, the array of the pending inputs, the iterator, the callback.\<close>

fun match_calls :: "u64 list \<Rightarrow> 'z cand_env_scheme \<Rightarrow> 'z cand_env_scheme option" where
  "match_calls [] s = Some s"
| "match_calls (v # vs) s = do { s' \<leftarrow> pending_input_field ''match'' v s; match_calls vs s' }"

definition batch_calls :: "u64 list \<times> u64 \<times> u64 \<Rightarrow> 'z cand_env_scheme \<Rightarrow> 'z cand_env_scheme option" where
  "batch_calls b s = (case b of (vs, arr, it) \<Rightarrow> do {
     s1 \<leftarrow> match_calls vs s;
     s2 \<leftarrow> pending_input_field ''pendingInputs'' arr s1;
     Some (probe_listener (iterator_hook ''newIterator'' it s2))
   })"

fun batches :: "(u64 list \<times> u64 \<times> u64) list \<Rightarrow> 'z cand_env_scheme \<Rightarrow> 'z cand_env_scheme option" where
  "batches [] s = Some s"
| "batches (b # bs) s = do { s' \<leftarrow> batch_calls b s; batches bs s' }"

text \<open>The text of a Java string object.\<close>

definition jtext :: "(u64 \<rightharpoonup> hobj) \<Rightarrow> u64 \<Rightarrow> string option" where
  "jtext h v = (case h v of
       Some (HObj ob) \<Rightarrow> (case obj_get ob ''.str'' of
          Some f \<Rightarrow> if jmagic ob = JO_MAGIC \<and> v \<noteq> 0 \<and> fval f \<noteq> 0
                    then (case h (fval f) of Some (HStr t) \<Rightarrow> Some t | _ \<Rightarrow> None) else None
        | None \<Rightarrow> None)
     | _ \<Rightarrow> None)"

lemma jtextD:
  assumes "jtext h v = Some t"
  obtains ob f where "h v = Some (HObj ob)" "jmagic ob = JO_MAGIC" "v \<noteq> 0" "obj_get ob ''.str'' = Some f"
    "fval f \<noteq> 0" "h (fval f) = Some (HStr t)"
  using assms by (auto simp: jtext_def split: option.split_asm hobj.split_asm if_split_asm)

lemma match_call:
  assumes "jtext (heap s) v = Some t"
  shows "pending_input_field ''match'' v s = Some (s\<lparr>pi_acc := acc_letters (pi_acc s) t\<rparr>)"
proof -
  obtain ob f where h: "heap s v = Some (HObj ob)" "jmagic ob = JO_MAGIC" "v \<noteq> 0" "obj_get ob ''.str'' = Some f"
    "fval f \<noteq> 0" "heap s (fval f) = Some (HStr t)"
    using assms by (rule jtextD)
  have j: "is_jobj v s = Some True" "get_obj v s = Some ob" "get_str (fval f) s = Some t"
    using h by (simp_all add: is_jobj_def)
  show ?thesis unfolding pending_input_field_def j using h by (simp add: j(3) del: get_str_Some)
qed

lemma match_calls_text:
  "list_all2 (\<lambda>v t. jtext (heap s) v = Some t) vs ts \<Longrightarrow>
   match_calls vs s = Some (s\<lparr>pi_acc := fold (\<lambda>t a. acc_letters a t) ts (pi_acc s)\<rparr>)"
proof (induction vs arbitrary: ts s)
  case Nil
  then show ?case by simp
next
  case (Cons v vs)
  then obtain t ts' where ts: "ts = t # ts'" "jtext (heap s) v = Some t"
    "list_all2 (\<lambda>v t. jtext (heap s) v = Some t) vs ts'" by (cases ts) auto
  let ?s = "s\<lparr>pi_acc := acc_letters (pi_acc s) t\<rparr>"
  have "match_calls vs ?s = Some (?s\<lparr>pi_acc := fold (\<lambda>t a. acc_letters a t) ts' (pi_acc ?s)\<rparr>)"
    by (rule Cons.IH) (simp add: ts(3))
  then show ?case using match_call [OF ts(2)] by (simp add: ts(1))
qed

definition batch_texts :: "(u64 \<rightharpoonup> hobj) \<Rightarrow> u64 list \<times> u64 \<times> u64 \<Rightarrow> string list \<Rightarrow> bool" where
  "batch_texts h b ts \<longleftrightarrow> list_all2 (\<lambda>v t. jtext h v = Some t) (fst b) ts"

text \<open>C14. Candidate events. In daemon mode, starting with an empty accumulator and a queue of at
  most 32 events, after the calls of any batches, each with the match strings of its pending
  inputs and an iterator, no call has faulted and the queue holds the last 32 events in order:
  one per batch, carrying its iterator and, as the known input, the letters of its own match
  strings (at most 255), never those of another batch.\<close>

theorem batches_tagged:
  assumes "daemon_mode s" and "pi_acc s = []" and "length (cand_q s) \<le> CAND_QUEUE"
    and "list_all2 (batch_texts (heap s)) bs tss"
    and "\<forall>(vs, arr, it) \<in> set bs. it \<noteq> 0"
  shows "\<exists>s'. batches bs s = Some s' \<and> heap s' = heap s \<and> pi_acc s' = [] \<and>
    cand_q s' = drop (length (cand_q s) + length bs - 32) (cand_q s @
      map2 (\<lambda>(vs, arr, it) ts. \<lparr>ev_it = it, ev_known = True, ev_input = take 255 (filter lower (concat ts))\<rparr>) bs tss)"
proof -
  let ?ev = "\<lambda>(vs, arr, it) ts. \<lparr>ev_it = it, ev_known = True, ev_input = take 255 (filter lower (concat ts))\<rparr>"
  have "\<exists>s'. batches bs s = Some s' \<and> heap s' = heap s \<and> pi_acc s' = [] \<and>
      cand_q s' = cand_q (fold push_event (map2 ?ev bs tss) s)"
    using assms(1,2,4,5)
  proof (induction bs arbitrary: s tss)
    case Nil
    then show ?case by simp
  next
    case (Cons b bs)
    obtain vs arr it where b: "b = (vs, arr, it)" by (cases b) auto
    obtain ts tss' where tss: "tss = ts # tss'" and ts: "list_all2 (\<lambda>v t. jtext (heap s) v = Some t) vs ts"
      using Cons.prems(3) b by (cases tss) (auto simp: batch_texts_def)
    let ?w = "take 255 (filter lower (concat ts))"
    let ?e = "\<lparr>ev_it = it, ev_known = True, ev_input = ?w\<rparr>"
    obtain s1 where run: "batch_calls b s = Some s1" and s1: "heap s1 = heap s" "pi_acc s1 = []"
      "daemon_mode s1" "cand_q s1 = cand_q (push_event ?e s)"
    proof
      have it: "it \<noteq> 0" using Cons.prems(4) b by simp
      have m: "match_calls vs s = Some (s\<lparr>pi_acc := ?w\<rparr>)"
        using match_calls_text [OF ts] acc_letters_fold [of "[]" ts] Cons.prems(2) by simp
      let ?s2 = "s\<lparr>pi_last := ?w, pi_acc := [], pi_have := True\<rparr>"
      let ?s3 = "iterator_hook ''newIterator'' it ?s2"
      show "batch_calls b s = Some (probe_listener ?s3)"
        by (simp add: batch_calls_def b m pending_input_field_def)
      have w: "snprintf_s 256 ?w = ?w" by (rule snprintf_s_id) simp
      show "heap (probe_listener ?s3) = heap s" "pi_acc (probe_listener ?s3) = []"
        "daemon_mode (probe_listener ?s3)" "cand_q (probe_listener ?s3) = cand_q (push_event ?e s)"
        using it Cons.prems(1) w
        by (simp_all add: iterator_hook_def probe_listener_def push_event_def Let_def)
    qed
    have "list_all2 (batch_texts (heap s1)) bs tss'"
      using Cons.prems(3) by (simp add: tss s1)
    then obtain s' where s': "batches bs s1 = Some s'" "heap s' = heap s1" "pi_acc s' = []"
      "cand_q s' = cand_q (fold push_event (map2 ?ev bs tss') s1)"
      using Cons.IH [OF s1(3,2), of tss'] Cons.prems(4) by auto
    have cong: "cand_q (fold push_event es s1) = cand_q (fold push_event es (push_event ?e s))" for es
    proof -
      have "cand_q x = cand_q y \<Longrightarrow> cand_q (fold push_event es x) = cand_q (fold push_event es y)"
        for x y :: "'a cand_env_scheme"
        by (induction es arbitrary: x y) (simp_all add: push_event_def Let_def)
      then show ?thesis using s1(4) by blast
    qed
    show ?case using run s' s1(1) by (simp add: b tss cong)
  qed
  moreover have "length (map2 ?ev bs tss) = length bs" using list_all2_lengthD [OF assms(4)] by simp
  ultimately show ?thesis
    using events.fold_push [OF assms(3), of "map2 ?ev bs tss"] by (simp add: CAND_QUEUE_def)
qed

definition sample_cand :: cand_env where
  "sample_cand = jenv.extend sample_env (cand_env.fields True 0 [] [] [] False 0 False [] 0)"

lemma sample_cand_sel:
  "heap sample_cand = map_of env_blocks" "daemon_mode sample_cand" "cand_q sample_cand = []"
  "pi_acc sample_cand = []"
  by (simp_all add: sample_cand_def sample_env_def jenv.defs cand_env.defs)

theorem batches_tagged_witness:
  "\<exists>s'. batches [([0x70], 0x50, 0x111), ([], 0x50, 0x222)] sample_cand = Some s' \<and>
     cand_q s' = [\<lparr>ev_it = 0x111, ev_known = True, ev_input = ''hao''\<rparr>, \<lparr>ev_it = 0x222, ev_known = True, ev_input = []\<rparr>]"
proof -
  let ?bs = "[([0x70], 0x50, 0x111), ([], 0x50, 0x222)] :: (u64 list \<times> u64 \<times> u64) list"
  have j: "jtext (heap sample_cand) 0x70 = Some ''hao''"
    by (simp add: jtext_def obj_get_def sample_cand_sel env_blocks_def)
  have t: "list_all2 (batch_texts (heap sample_cand)) ?bs [[''hao''], []]"
    by (simp add: batch_texts_def j)
  have l: "filter lower ''hao'' = ''hao''" by (simp add: lower_def)
  obtain s' where "batches ?bs sample_cand = Some s'"
    "cand_q s' = drop (length (cand_q sample_cand) + length ?bs - 32) (cand_q sample_cand @
      map2 (\<lambda>(vs, arr, it) ts. \<lparr>ev_it = it, ev_known = True, ev_input = take 255 (filter lower (concat ts))\<rparr>)
        ?bs [[''hao''], []])"
    using batches_tagged [OF sample_cand_sel(2,4) _ t] by (auto simp: sample_cand_sel)
  with l show ?thesis by (intro exI [of _ s']) (simp add: sample_cand_sel)
qed

end
