(* ===== verification/Cmd_Reader.thy ===== *)
theory Cmd_Reader
  imports Prelude
begin

text \<open>
  The line reader of the daemon (\<open>cmd_fill\<close>, \<open>cmd_read\<close> and \<open>cmd_next_is_batch\<close> in
  \<open>harness/jinterop.c\<close>). The pipe is the list \<open>chunks\<close> of what its writer has written and
  will write: a \<open>read\<close> delivers a non-empty first part of the first chunk, as much as fits
  the buffer; an empty chunk, or no chunk at all, is the end of the input or an error. The
  answers of \<open>poll\<close> are the list \<open>polls\<close>, exhausted meaning not readable.
\<close>

definition IN_CAP :: nat where "IN_CAP = 8192"

record cmd_in =
  g_in :: bytes
  chunks :: "bytes list"
  polls :: "bool list"

definition NL :: char where "NL = CHR 0x0A"

definition cmd_fill :: "bool \<Rightarrow> 'z cmd_in_scheme \<Rightarrow> bool \<times> 'z cmd_in_scheme" where
  "cmd_fill block s =
     (let ready = (block \<or> (polls s \<noteq> [] \<and> hd (polls s)));
          s1 = (if block then s else s\<lparr>polls := tl (polls s)\<rparr>)
      in if \<not> ready then (False, s1)
         else
           let s2 = (if length (g_in s1) = IN_CAP then s1\<lparr>g_in := []\<rparr> else s1) in
           case chunks s2 of
             [] \<Rightarrow> (False, s2)
           | c # cs \<Rightarrow>
               if c = [] then (False, s2\<lparr>chunks := cs\<rparr>)
               else
                 let n = IN_CAP - length (g_in s2); rest = drop n c
                 in (True, s2\<lparr>g_in := g_in s2 @ take n c, chunks := (if rest = [] then cs else rest # cs)\<rparr>))"

definition pending :: "'z cmd_in_scheme \<Rightarrow> nat" where
  "pending s = length (concat (chunks s))"

lemma cmd_fill_pending:
  "length (g_in s) \<le> IN_CAP \<Longrightarrow> cmd_fill b s = (True, s') \<Longrightarrow> pending s' < pending s"
  by (cases "chunks s") (auto simp: cmd_fill_def pending_def IN_CAP_def Let_def split: if_split_asm)

text \<open>\<open>cmd_read\<close>: the loop returns the line up to the first newline, cut to \<open>cap - 1\<close> bytes. (The
  buffer never holds more than its capacity; the test makes the definition total.)\<close>

function cmd_read :: "nat \<Rightarrow> bool \<Rightarrow> 'z cmd_in_scheme \<Rightarrow> bytes option \<times> 'z cmd_in_scheme" where
  "cmd_read cap block s =
     (if NL \<in> set (g_in s) then
        (let n = length (takeWhile (\<lambda>c. c \<noteq> NL) (g_in s));
             keep = (if n < cap - 1 then n else cap - 1)
         in (Some (take keep (g_in s)), s\<lparr>g_in := drop (n + 1) (g_in s)\<rparr>))
      else if IN_CAP < length (g_in s) then (None, s)
      else case cmd_fill block s of
          (True, s') \<Rightarrow> cmd_read cap block s'
        | (False, s') \<Rightarrow> (None, s'))"
  by pat_completeness auto
termination
  by (relation "measure (\<lambda>(cap, block, s). pending s)") (auto intro: cmd_fill_pending)

declare cmd_read.simps [simp del]

function fill_line :: "'z cmd_in_scheme \<Rightarrow> bool \<times> 'z cmd_in_scheme" where
  "fill_line s =
     (if NL \<in> set (g_in s) then (True, s)
      else if IN_CAP < length (g_in s) then (False, s)
      else case cmd_fill False s of
          (True, s') \<Rightarrow> fill_line s'
        | (False, s') \<Rightarrow> (False, s'))"
  by pat_completeness auto
termination
  by (relation "measure pending") (auto intro: cmd_fill_pending)

declare fill_line.simps [simp del]

definition cmd_next_is_batch :: "'z cmd_in_scheme \<Rightarrow> bool \<times> 'z cmd_in_scheme" where
  "cmd_next_is_batch s =
     (let (found, s') = fill_line s
      in (found \<and> 2 < length (g_in s') \<and> g_in s' ! 0 = CHR ''B'' \<and> g_in s' ! 1 = CHR '' '', s'))"

subsection \<open>The input as one stream\<close>

definition stream :: "'z cmd_in_scheme \<Rightarrow> bytes" where
  "stream s = g_in s @ concat (chunks s)"

definition in_ok :: "'z cmd_in_scheme \<Rightarrow> bool" where
  "in_ok s \<longleftrightarrow> length (g_in s) \<le> IN_CAP \<and> [] \<notin> set (chunks s)"

text \<open>A successful read moves bytes from the pipe to the buffer; a full buffer is emptied first.\<close>

lemma cmd_fill_stream:
  assumes ok: "in_ok s" and f: "cmd_fill b s = (r, s')"
  shows "in_ok s'"
    and "r \<Longrightarrow> stream s' = (if length (g_in s) = IN_CAP then concat (chunks s) else stream s)"
    and "r \<Longrightarrow> pending s' < pending s"
    and "\<not> r \<Longrightarrow> b \<Longrightarrow> chunks s = []"
proof -
  show "pending s' < pending s" if r using cmd_fill_pending [of s b s'] ok f that by (simp add: in_ok_def)
  show "in_ok s'"
  proof (cases "chunks s")
    case Nil
    then show ?thesis using ok f by (auto simp: cmd_fill_def in_ok_def Let_def split: if_split_asm)
  next
    case (Cons c cs)
    then show ?thesis using ok f
      by (auto simp: cmd_fill_def in_ok_def Let_def split: if_split_asm)
  qed
  show "stream s' = (if length (g_in s) = IN_CAP then concat (chunks s) else stream s)" if r
  proof (cases "chunks s")
    case Nil
    then show ?thesis using f that by (auto simp: cmd_fill_def Let_def split: if_split_asm)
  next
    case (Cons c cs)
    have t: "take n c @ concat (if drop n c = [] then cs else drop n c # cs) = c @ concat cs" for n
      using append_take_drop_id [of n c] by (cases "drop n c = []") (auto simp del: append_take_drop_id)
    show ?thesis using f that Cons t by (auto simp: cmd_fill_def stream_def Let_def split: if_split_asm)
  qed
  show "chunks s = []" if "\<not> r" "b" using ok f that
    by (cases "chunks s") (auto simp: cmd_fill_def in_ok_def Let_def split: if_split_asm)
qed


text \<open>What is left of a line when the full buffers before its last part have been dropped.\<close>

definition line_tail :: "bytes \<Rightarrow> bytes" where
  "line_tail l = drop (IN_CAP * (length l div IN_CAP)) l"

lemma line_tail_short: "length l < IN_CAP \<Longrightarrow> line_tail l = l"
  by (simp add: line_tail_def)

lemma line_tail_drop: "length g = IN_CAP \<Longrightarrow> line_tail (g @ l) = line_tail l"
  by (simp add: line_tail_def IN_CAP_def div_add_self1)

lemma split_at_NL:
  assumes "g @ c = l @ NL # rest" and "NL \<notin> set l"
  shows "NL \<in> set g \<Longrightarrow> \<exists>x. g = l @ NL # x \<and> x @ c = rest"
    and "NL \<notin> set g \<Longrightarrow> \<exists>y. l = g @ y \<and> c = y @ NL # rest"
proof -
  obtain us where us: "(g = l @ us \<and> us @ c = NL # rest) \<or> (g @ us = l \<and> c = us @ NL # rest)"
    using assms(1) by (auto simp: append_eq_append_conv2)
  show "\<exists>x. g = l @ NL # x \<and> x @ c = rest" if "NL \<in> set g"
    using us that assms(2) by (cases us) auto
  show "\<exists>y. l = g @ y \<and> c = y @ NL # rest" if "NL \<notin> set g"
    using us that by (cases us) auto
qed

lemma takeWhile_line: "NL \<notin> set l \<Longrightarrow> takeWhile (\<lambda>c. c \<noteq> NL) (l @ NL # x) = l"
  by (induction l) auto

lemma cmd_read_buffered:
  assumes "g_in s = l @ NL # x" and "NL \<notin> set l"
  shows "cmd_read cap b s = (Some (take (cap - 1) l), s\<lparr>g_in := x\<rparr>)"
  using assms takeWhile_line [OF assms(2), of x] by (subst cmd_read.simps) (auto simp: Let_def)

lemma cmd_read_line:
  assumes "in_ok s" and "stream s = l @ NL # rest" and "NL \<notin> set l"
  shows "\<exists>s'. cmd_read cap True s = (Some (take (cap - 1) (line_tail l)), s') \<and> in_ok s' \<and> stream s' = rest"
  using assms
proof (induction "pending s" arbitrary: s l rule: less_induct)
  case less
  note ok = less.prems(1) and st = less.prems(2) [unfolded stream_def] and nl = less.prems(3)
  show ?case
  proof (cases "NL \<in> set (g_in s)")
    case True
    then obtain x where x: "g_in s = l @ NL # x" "x @ concat (chunks s) = rest"
      using split_at_NL(1) [OF st nl] by blast
    have "length l < IN_CAP" using ok x(1) by (simp add: in_ok_def)
    then have "cmd_read cap True s = (Some (take (cap - 1) (line_tail l)), s\<lparr>g_in := x\<rparr>)"
      using cmd_read_buffered [OF x(1) nl] by (simp add: line_tail_short)
    moreover have "in_ok (s\<lparr>g_in := x\<rparr>)" and "stream (s\<lparr>g_in := x\<rparr>) = rest"
      using ok x by (simp_all add: in_ok_def stream_def)
    ultimately show ?thesis by blast
  next
    case False
    then obtain y where y: "l = g_in s @ y" "concat (chunks s) = y @ NL # rest"
      using split_at_NL(2) [OF st nl] by blast
    obtain r s1 where f: "cmd_fill True s = (r, s1)" by fastforce
    note fs = cmd_fill_stream [OF ok f]
    have r: "r" using fs(4) y(2) by (cases r) auto
    have step: "cmd_read cap True s = cmd_read cap True s1"
      using False f r ok by (subst cmd_read.simps) (simp add: in_ok_def)
    show ?thesis
    proof (cases "length (g_in s) = IN_CAP")
      case True
      have "stream s1 = y @ NL # rest" using fs(2) [OF r] True y(2) by simp
      moreover have "NL \<notin> set y" using nl y(1) by simp
      ultimately show ?thesis
        using less.hyps [OF fs(3) [OF r] fs(1), of y] line_tail_drop [OF True, of y] by (simp add: step y(1))
    next
      case False
      then have "stream s1 = l @ NL # rest" using fs(2) [OF r] less.prems(2) by simp
      then show ?thesis using less.hyps [OF fs(3) [OF r] fs(1) _ nl] by (simp add: step)
    qed
  qed
qed

lemma cmd_read_end:
  assumes "in_ok s" and "NL \<notin> set (stream s)"
  shows "\<exists>s'. cmd_read cap True s = (None, s')"
  using assms
proof (induction "pending s" arbitrary: s rule: less_induct)
  case less
  obtain r s1 where f: "cmd_fill True s = (r, s1)" by fastforce
  note fs = cmd_fill_stream [OF less.prems(1) f]
  have n: "NL \<notin> set (g_in s)" using less.prems(2) by (simp add: stream_def)
  show ?case
  proof (cases r)
    case True
    have "NL \<notin> set (stream s1)" using fs(2) [OF True] less.prems(2) by (auto simp: stream_def split: if_split_asm)
    then show ?thesis
      using less.hyps [OF fs(3) [OF True] fs(1)] n f True less.prems(1)
      by (subst cmd_read.simps) (simp add: in_ok_def)
  next
    case False
    then show ?thesis using n f less.prems(1) by (subst cmd_read.simps) (simp add: in_ok_def)
  qed
qed

text \<open>Reading until the end of the input, at most \<open>k\<close> lines.\<close>

fun read_lines :: "nat \<Rightarrow> nat \<Rightarrow> 'z cmd_in_scheme \<Rightarrow> bytes list" where
  "read_lines 0 cap s = []"
| "read_lines (Suc k) cap s = (case cmd_read cap True s of
       (Some l, s') \<Rightarrow> l # read_lines k cap s'
     | (None, s') \<Rightarrow> [])"

text \<open>C15. The command reader. However the input is cut into chunks, and whatever is already in
  the buffer, reading line after line returns one string for each line of the input, in order, and stops
  at an unfinished last line. For a line of fewer than 8192 bytes this is the line, cut to the first
  \<open>cap - 1\<close> bytes. A longer line is neither returned nor dropped as the comment on \<open>cmd_fill\<close> says: its
  full blocks of 8192 bytes are lost, and what follows them is returned as if it were the line.\<close>

theorem read_lines_spec:
  assumes "in_ok s" and "stream s = concat (map (\<lambda>l. l @ [NL]) ls) @ rest"
    and "\<forall>l \<in> set ls. NL \<notin> set l" and "NL \<notin> set rest" and "length ls < k"
  shows "read_lines k cap s = map (\<lambda>l. take (cap - 1) (line_tail l)) ls \<and>
    (\<forall>l. line_tail l = (if length l < 8192 then l else drop (8192 * (length l div 8192)) l))"
proof (rule conjI)
  show "read_lines k cap s = map (\<lambda>l. take (cap - 1) (line_tail l)) ls"
    using assms
  proof (induction ls arbitrary: s k)
    case Nil
    then obtain k' where "k = Suc k'" by (cases k) auto
    then show ?case using cmd_read_end [of s cap] Nil.prems by auto
  next
    case (Cons l ls)
    then obtain k' where k: "k = Suc k'" by (cases k) auto
    have "stream s = l @ NL # (concat (map (\<lambda>l. l @ [NL]) ls) @ rest)" using Cons.prems(2) by simp
    from cmd_read_line [OF Cons.prems(1) this, of cap] Cons.prems(3)
    obtain s' where s': "cmd_read cap True s = (Some (take (cap - 1) (line_tail l)), s')" "in_ok s'"
      "stream s' = concat (map (\<lambda>l. l @ [NL]) ls) @ rest" by auto
    then show ?case using Cons.IH [OF s'(2,3), of k'] Cons.prems k by simp
  qed
  show "\<forall>l. line_tail l = (if length l < 8192 then l else drop (8192 * (length l div 8192)) l)"
    by (simp add: line_tail_def IN_CAP_def)
qed

theorem read_lines_spec_witness:
  "read_lines 3 512 \<lparr>g_in = ''PI'', chunks = [''N'', ''G'' @ [NL] @ ''B n'', ''i'' @ [NL]], polls = []\<rparr> = [''PING'', ''B ni'']"
proof -
  let ?s = "\<lparr>g_in = ''PI'', chunks = [''N'', ''G'' @ [NL] @ ''B n'', ''i'' @ [NL]], polls = []\<rparr>"
  have "read_lines 3 512 ?s = map (\<lambda>l. take (512 - 1) (line_tail l)) [''PING'', ''B ni'']"
    using read_lines_spec [of ?s "[''PING'', ''B ni'']" "[]" 3 512]
    by (simp add: in_ok_def IN_CAP_def stream_def NL_def)
  then show ?thesis by (simp add: line_tail_short IN_CAP_def)
qed

text \<open>Overlong lines. The comment on \<open>cmd_fill\<close> says that an overlong line is dropped. Only
  its full buffers are: of a line of 8192 bytes and more, the bytes that follow them are
  returned as a command of their own.\<close>

theorem overlong_line_becomes_command:
  assumes "in_ok s" and "stream s = filler @ cmd @ NL # rest" and "length filler = IN_CAP"
    and "NL \<notin> set filler" and "NL \<notin> set cmd" and "length cmd < IN_CAP" and "length cmd < cap"
  shows "\<exists>s'. cmd_read cap True s = (Some cmd, s') \<and> stream s' = rest"
proof -
  have "stream s = (filler @ cmd) @ NL # rest" using assms(2) by simp
  from cmd_read_line [OF assms(1) this, of cap] assms
  show ?thesis by (auto simp: line_tail_drop line_tail_short)
qed

theorem overlong_line_becomes_command_witness:
  "\<exists>s'. cmd_read 512 True \<lparr>g_in = [], chunks = [replicate 8192 CHR ''x'' @ ''S 0'' @ [NL]], polls = []\<rparr> =
     (Some ''S 0'', s') \<and> stream s' = []"
proof -
  let ?s = "\<lparr>g_in = [], chunks = [replicate 8192 CHR ''x'' @ ''S 0'' @ [NL]], polls = []\<rparr>"
  show ?thesis
    using overlong_line_becomes_command [of ?s "replicate 8192 CHR ''x''" "''S 0''" "[]" 512]
    by (simp add: in_ok_def IN_CAP_def stream_def NL_def)
qed

lemma fill_line_stream:
  assumes "in_ok s" and "fill_line s = (f, s')"
  shows "in_ok s' \<and> (f \<longrightarrow> NL \<in> set (g_in s')) \<and>
    (NL \<in> set (take IN_CAP (stream s)) \<longrightarrow> stream s' = stream s)"
  using assms
proof (induction "pending s" arbitrary: s rule: less_induct)
  case less
  show ?case
  proof (cases "NL \<in> set (g_in s)")
    case True
    then show ?thesis using less.prems by (subst (asm) fill_line.simps) simp
  next
    case no: False
    obtain r s1 where f: "cmd_fill False s = (r, s1)" by fastforce
    note fs = cmd_fill_stream [OF less.prems(1) f]
    show ?thesis
    proof (cases r)
      case True
      have run: "fill_line s1 = (f, s')"
        using less.prems f True no by (subst (asm) fill_line.simps) (simp add: in_ok_def)
      have "length (g_in s) \<noteq> IN_CAP" if "NL \<in> set (take IN_CAP (stream s))"
        using that no by (auto simp: stream_def)
      then show ?thesis using less.hyps [OF fs(3) [OF True] fs(1) run] fs(2) [OF True] by auto
    next
      case False
      then have s': "\<not> f" "s' = s1" using less.prems f no by (subst (asm) fill_line.simps; simp add: in_ok_def)+
      have "stream s1 = stream s" if "NL \<in> set (take IN_CAP (stream s))"
        using that no f False less.prems(1)
        by (cases "chunks s") (auto simp: cmd_fill_def stream_def in_ok_def Let_def split: if_split_asm)
      then show ?thesis using s' fs(1) by simp
    qed
  qed
qed

lemma next_is_batch_yes:
  assumes "in_ok s" and "cmd_next_is_batch s = (True, s')"
  shows "\<exists>l rest. g_in s' = ''B '' @ l @ NL # rest \<and> NL \<notin> set l"
proof -
  obtain f where f: "fill_line s = (f, s')"
    and bb: "f" "2 < length (g_in s')" "g_in s' ! 0 = CHR ''B''" "g_in s' ! 1 = CHR '' ''"
    using assms(2) by (auto simp: cmd_next_is_batch_def Let_def split: prod.split_asm)
  obtain x y zs where g: "g_in s' = x # y # zs" using bb(2) by (cases "g_in s'"; cases "tl (g_in s')") auto
  then have xy: "x = CHR ''B''" "y = CHR '' ''" using bb(3,4) by simp_all
  have "NL \<in> set (g_in s')" using fill_line_stream [OF assms(1) f] bb(1) by simp
  then have "NL \<in> set zs" using g xy by (simp add: NL_def)
  then obtain l r where "zs = l @ NL # r" "NL \<notin> set l" by (auto dest: split_list_first)
  then show ?thesis using g xy by auto
qed

lemma next_is_batch_stream:
  assumes "in_ok s" and "cmd_next_is_batch s = (b, s')"
  shows "in_ok s'" and "NL \<in> set (take IN_CAP (stream s)) \<Longrightarrow> stream s' = stream s"
  using fill_line_stream [OF assms(1)] assms(2)
  by (auto simp: cmd_next_is_batch_def Let_def split: prod.split_asm)

text \<open>Looking ahead for a queued batch takes nothing out of the input: when the next line
  fits the buffer the input is the same afterwards, and after the answer yes the next line is
  complete in the buffer, starts with \<open>B\<close> and a space, and is what a non-blocking read
  returns.\<close>

theorem next_is_batch_sound:
  assumes "in_ok s" and "cmd_next_is_batch s = (b, s')"
  shows "in_ok s' \<and> (NL \<in> set (take IN_CAP (stream s)) \<longrightarrow> stream s' = stream s) \<and>
    (b \<longrightarrow> (\<exists>l rest s2. stream s' = ''B '' @ l @ NL # rest \<and> NL \<notin> set l \<and>
       cmd_read cap False s' = (Some (take (cap - 1) (''B '' @ l)), s2) \<and> stream s2 = rest))"
proof -
  have "\<exists>l rest s2. stream s' = ''B '' @ l @ NL # rest \<and> NL \<notin> set l \<and>
       cmd_read cap False s' = (Some (take (cap - 1) (''B '' @ l)), s2) \<and> stream s2 = rest" if b
  proof -
    have "cmd_next_is_batch s = (True, s')" using assms(2) that by simp
    from next_is_batch_yes [OF assms(1) this]
    obtain l r where g: "g_in s' = (''B '' @ l) @ NL # r" and l: "NL \<notin> set l" by auto
    have "NL \<notin> set (''B '' @ l)" using l by (simp add: NL_def)
    from cmd_read_buffered [OF g this, of cap False] g l show ?thesis
      by (auto simp: stream_def)
  qed
  with next_is_batch_stream [OF assms] show ?thesis by blast
qed

theorem next_is_batch_sound_witness:
  "\<exists>s' l. cmd_next_is_batch \<lparr>g_in = ''B'', chunks = ['' ni'', [NL]], polls = [True, True]\<rparr> = (True, s') \<and>
     stream s' = ''B '' @ l @ [NL] \<and> l = ''ni''"
proof -
  let ?s = "\<lparr>g_in = ''B'', chunks = ['' ni'', [NL]], polls = [True, True]\<rparr>"
  obtain b s' where n: "cmd_next_is_batch ?s = (b, s')" by fastforce
  have f3: "fill_line \<lparr>g_in = ''B ni'' @ [NL], chunks = [], polls = []\<rparr> = (True, \<lparr>g_in = ''B ni'' @ [NL], chunks = [], polls = []\<rparr>)"
    by (subst fill_line.simps) (simp add: NL_def)
  have f2: "fill_line \<lparr>g_in = ''B ni'', chunks = [[NL]], polls = [True]\<rparr> = fill_line \<lparr>g_in = ''B ni'' @ [NL], chunks = [], polls = []\<rparr>"
    by (subst fill_line.simps) (simp add: NL_def cmd_fill_def IN_CAP_def)
  have f1: "fill_line ?s = fill_line \<lparr>g_in = ''B ni'', chunks = [[NL]], polls = [True]\<rparr>"
    by (subst fill_line.simps) (simp add: NL_def cmd_fill_def IN_CAP_def)
  have b: "b" using n f1 f2 f3 by (simp add: cmd_next_is_batch_def)
  have "in_ok ?s" and t: "NL \<in> set (take IN_CAP (stream ?s))" by (simp_all add: in_ok_def IN_CAP_def stream_def)
  from next_is_batch_sound [OF this(1) n] t have "stream s' = stream ?s" by blast
  then show ?thesis using n b by (intro exI [of _ s'] exI [of _ "''ni''"]) (simp add: stream_def)
qed

end
