(* ===== verification/Daemon_Wait.thy ===== *)
theory Daemon_Wait
  imports Cand_Queue
begin

text \<open>
  Waiting for the candidates of the current input (\<open>daemon_free_it\<close>, \<open>daemon_drop_events\<close> and
  \<open>daemon_wait_cand\<close> in \<open>harness/jinterop.c\<close>), and who owns the native iterators. A pass of
  the waiting loop sees the events that have arrived since the previous pass and the clock;
  the list of these observations stands for the engine's threads and for the timed wait on
  the condition variable. The calls of \<open>delete_candidate_iterator\<close> are recorded in order.
\<close>

subsection \<open>Giving iterators back\<close>

text \<open>\<open>daemon_free_it\<close>: the iterators to delete for one that is no longer wanted.\<close>

definition daemon_free_it :: "u64 \<Rightarrow> u64 \<Rightarrow> u64 list" where
  "daemon_free_it cur it = (if it \<noteq> 0 \<and> it \<noteq> cur then [it] else [])"

text \<open>\<open>daemon_drop_events\<close>: the queue is emptied and every iterator in it given back.\<close>

definition daemon_drop_events :: "u64 \<Rightarrow> 'z cand_env_scheme \<Rightarrow> u64 list \<times> 'z cand_env_scheme" where
  "daemon_drop_events cur s =
     (concat (map (\<lambda>e. daemon_free_it cur (ev_it e)) (cand_q s)), s\<lparr>cand_q := []\<rparr>)"

subsection \<open>Waiting\<close>

record wait_st =
  w_best :: u64
  w_last :: int
  w_exact :: bool
  w_possible :: bool
  w_dels :: "u64 list"

text \<open>The loop over the events taken out of the queue.\<close>

fun take_events :: "string \<Rightarrow> u64 \<Rightarrow> cand_event list \<Rightarrow> wait_st \<Rightarrow> wait_st" where
  "take_events expected cur [] w = w"
| "take_events expected cur (e # es) w =
     (let dels = (if w_best w \<noteq> 0 then w_dels w @ daemon_free_it cur (w_best w) else w_dels w);
          exact = (ev_known e \<and> ev_input e = expected);
          possible = (if expected \<noteq> [] \<and> ev_known e \<and> \<not> exact then False else w_possible w)
      in take_events expected cur es
           (w\<lparr>w_best := ev_it e, w_exact := exact, w_possible := possible, w_dels := dels\<rparr>))"

definition wait_until :: "string \<Rightarrow> int \<Rightarrow> int \<Rightarrow> wait_st \<Rightarrow> int" where
  "wait_until expected deadline quiet w =
     (if w_best w \<noteq> 0 \<and> (expected = [] \<or> \<not> w_possible w) \<and> w_last w + quiet < deadline
      then w_last w + quiet else deadline)"

text \<open>The outer loop, one observation per pass; \<open>None\<close> when the observations end before the
  loop does. The result carries the observations that are left.\<close>

fun wait_loop :: "string \<Rightarrow> int \<Rightarrow> int \<Rightarrow> u64 \<Rightarrow> (cand_event list \<times> int) list \<Rightarrow> wait_st \<Rightarrow>
    (wait_st \<times> (cand_event list \<times> int) list) option" where
  "wait_loop expected deadline quiet cur [] w = None"
| "wait_loop expected deadline quiet cur ((q, now) # obs) w =
     (if q \<noteq> [] then
        let w1 = (take_events expected cur q w)\<lparr>w_last := now\<rparr> in
        if w_exact w1 then Some (w1, obs) else wait_loop expected deadline quiet cur obs w1
      else if wait_until expected deadline quiet w \<le> now then Some (w, obs)
      else wait_loop expected deadline quiet cur obs w)"

definition daemon_wait_cand :: "string \<Rightarrow> int \<Rightarrow> int \<Rightarrow> u64 \<Rightarrow> int \<Rightarrow> (cand_event list \<times> int) list \<Rightarrow>
    (wait_st \<times> (cand_event list \<times> int) list) option" where
  "daemon_wait_cand expected timeout_ms quiet_ms cur t0 obs =
     wait_loop expected (t0 + timeout_ms) (if expected = [] then 300 else quiet_ms) cur obs
       \<lparr>w_best = 0, w_last = 0, w_exact = False, w_possible = True, w_dels = []\<rparr>"

subsection \<open>Ownership of the iterators\<close>

definition handed :: "(cand_event list \<times> int) list \<Rightarrow> u64 list" where
  "handed obs = map ev_it (concat (map fst obs))"

text \<open>What has been received is what has been deleted, then the best one so far, in order; the
  daemon's current iterator is never deleted here.\<close>

definition accounted :: "u64 \<Rightarrow> u64 list \<Rightarrow> wait_st \<Rightarrow> bool" where
  "accounted cur its w \<longleftrightarrow>
     w_best w = (if its = [] then 0 else last its) \<and>
     w_dels w = filter (\<lambda>i. i \<noteq> cur) (butlast its)"

lemma take_events_accounted:
  "accounted cur its w \<Longrightarrow> 0 \<notin> set its \<Longrightarrow> 0 \<notin> set (map ev_it es) \<Longrightarrow>
   accounted cur (its @ map ev_it es) (take_events expected cur es w)"
proof (induction es arbitrary: its w)
  case Nil
  then show ?case by simp
next
  case (Cons e es)
  let ?w = "w\<lparr>w_best := ev_it e,
      w_exact := ev_known e \<and> ev_input e = expected,
      w_possible := (if expected \<noteq> [] \<and> ev_known e \<and> \<not> (ev_known e \<and> ev_input e = expected) then False else w_possible w),
      w_dels := (if w_best w \<noteq> 0 then w_dels w @ daemon_free_it cur (w_best w) else w_dels w)\<rparr>"
  have "accounted cur (its @ [ev_it e]) ?w"
  proof (cases its rule: rev_cases)
    case (snoc ys y)
    then show ?thesis using Cons.prems(1,2) by (auto simp: accounted_def daemon_free_it_def butlast_append)
  qed (use Cons.prems in \<open>auto simp: accounted_def\<close>)
  then have "accounted cur ((its @ [ev_it e]) @ map ev_it es) (take_events expected cur es ?w)"
    by (rule Cons.IH) (use Cons.prems in auto)
  then show ?case by (simp add: Let_def)
qed

lemma accounted_last [simp]: "accounted cur its (w\<lparr>w_last := t\<rparr>) = accounted cur its w"
  by (simp add: accounted_def)

lemma take_events_exact:
  "es \<noteq> [] \<Longrightarrow> w_exact (take_events expected cur es w) = (ev_known (last es) \<and> ev_input (last es) = expected)"
  by (induction es arbitrary: w) (auto simp: Let_def)

lemma wait_loop_accounted:
  assumes "wait_loop expected deadline quiet cur obs w = Some (w', rest)"
    and "accounted cur its w" "0 \<notin> set its" "0 \<notin> set (handed obs)"
  shows "\<exists>used. obs = used @ rest \<and> used \<noteq> [] \<and> accounted cur (its @ handed used) w' \<and>
    (w_exact w' \<and> \<not> w_exact w \<longrightarrow> (\<exists>e. fst (last used) \<noteq> [] \<and> e = last (fst (last used)) \<and>
       ev_it e = w_best w' \<and> ev_known e \<and> ev_input e = expected))"
  using assms
proof (induction obs arbitrary: w its)
  case Nil
  then show ?case by simp
next
  case (Cons o1 obs)
  obtain q now where o: "o1 = (q, now)" by fastforce
  show ?case
  proof (cases "q = []")
    case True
    show ?thesis
    proof (cases "wait_until expected deadline quiet w \<le> now")
      case True
      then show ?thesis using Cons.prems \<open>q = []\<close>
        by (intro exI [of _ "[o1]"]) (auto simp: o handed_def)
    next
      case False
      then have "wait_loop expected deadline quiet cur obs w = Some (w', rest)"
        using Cons.prems(1) \<open>q = []\<close> by (simp add: o)
      from Cons.IH [OF this Cons.prems(2,3)] Cons.prems(4) obtain used where
        u: "obs = used @ rest" "used \<noteq> []" "accounted cur (its @ handed used) w'"
        "w_exact w' \<and> \<not> w_exact w \<longrightarrow> (\<exists>e. fst (last used) \<noteq> [] \<and> e = last (fst (last used)) \<and>
           ev_it e = w_best w' \<and> ev_known e \<and> ev_input e = expected)"
        by (auto simp: o handed_def)
      then show ?thesis using \<open>q = []\<close> by (intro exI [of _ "o1 # used"]) (auto simp: o handed_def)
    qed
  next
    case False
    let ?w = "(take_events expected cur q w)\<lparr>w_last := now\<rparr>"
    have z: "0 \<notin> set (map ev_it q)" using Cons.prems(4) by (auto simp: o handed_def)
    have acc: "accounted cur (its @ map ev_it q) ?w"
      using take_events_accounted [OF Cons.prems(2,3) z] by simp
    show ?thesis
    proof (cases "w_exact ?w")
      case True
      then have r: "w' = ?w" "rest = obs" using Cons.prems(1) False by (simp_all add: o)
      have "ev_it (last q) = w_best ?w" using acc False by (simp add: accounted_def last_map)
      then show ?thesis using acc r False True take_events_exact [OF False, of expected cur w]
        by (intro exI [of _ "[o1]"]) (auto simp: o handed_def)
    next
      case ne: False
      then have "wait_loop expected deadline quiet cur obs ?w = Some (w', rest)"
        using Cons.prems(1) False by (simp add: o)
      from Cons.IH [OF this acc] Cons.prems(3,4) z ne obtain used where
        u: "obs = used @ rest" "used \<noteq> []" "accounted cur ((its @ map ev_it q) @ handed used) w'"
        "w_exact w' \<longrightarrow> (\<exists>e. fst (last used) \<noteq> [] \<and> e = last (fst (last used)) \<and>
           ev_it e = w_best w' \<and> ev_known e \<and> ev_input e = expected)"
        by (auto simp: o handed_def)
      then show ?thesis by (intro exI [of _ "o1 # used"]) (auto simp: o handed_def)
    qed
  qed
qed

lemma wait_start_accounted:
  "accounted cur [] \<lparr>w_best = 0, w_last = 0, w_exact = False, w_possible = True, w_dels = []\<rparr>"
  by (simp add: accounted_def)

lemma wait_cand_accounted:
  assumes "daemon_wait_cand expected timeout_ms quiet_ms cur t0 obs = Some (w, rest)"
    and "0 \<notin> set (handed obs)"
  shows "\<exists>used. obs = used @ rest \<and> used \<noteq> [] \<and> accounted cur (handed used) w \<and>
    (w_exact w \<longrightarrow> (\<exists>e. fst (last used) \<noteq> [] \<and> e = last (fst (last used)) \<and>
       ev_it e = w_best w \<and> ev_known e \<and> ev_input e = expected))"
  using wait_loop_accounted [OF assms(1) [unfolded daemon_wait_cand_def] wait_start_accounted _ assms(2)]
  by auto

text \<open>C18. Iterators while waiting. When the wait returns, the iterators of all the events it has
  received are accounted for exactly: the last one is the result (0 when there was no event),
  every earlier one has been deleted once, in order, except the daemon's current iterator,
  which is never deleted here; and an exact result is the iterator of a last event whose input
  was known and equal to the expected one.\<close>

theorem wait_cand_ownership:
  assumes "daemon_wait_cand expected timeout_ms quiet_ms cur t0 obs = Some (w, rest)"
    and "0 \<notin> set (handed obs)"
  shows "\<exists>used. obs = used @ rest \<and>
    w_best w = (if handed used = [] then 0 else last (handed used)) \<and>
    w_dels w = filter (\<lambda>i. i \<noteq> cur) (butlast (handed used)) \<and>
    (w_exact w \<longrightarrow> (\<exists>e \<in> set (concat (map fst used)). ev_it e = w_best w \<and> ev_known e \<and> ev_input e = expected))"
proof -
  obtain used where u: "obs = used @ rest" "used \<noteq> []" "accounted cur (handed used) w"
    "w_exact w \<longrightarrow> (\<exists>e. fst (last used) \<noteq> [] \<and> e = last (fst (last used)) \<and>
       ev_it e = w_best w \<and> ev_known e \<and> ev_input e = expected)"
    using wait_cand_accounted [OF assms] by blast
  have "last (fst (last used)) \<in> set (concat (map fst used))" if "fst (last used) \<noteq> []"
    using last_in_set [OF u(2)] last_in_set [OF that] by auto
  then have "w_exact w \<longrightarrow> (\<exists>e \<in> set (concat (map fst used)). ev_it e = w_best w \<and> ev_known e \<and> ev_input e = expected)"
    using u(4) by auto
  then show ?thesis using u(1,3) by (intro exI [of _ used]) (simp add: accounted_def)
qed

theorem wait_cand_ownership_witness:
  "\<exists>w. daemon_wait_cand ''ni'' 2500 150 0x1 0
       [([\<lparr>ev_it = 0x2, ev_known = True, ev_input = ''n''\<rparr>], 10),
        ([\<lparr>ev_it = 0x3, ev_known = True, ev_input = ''ni''\<rparr>], 20)] = Some (w, []) \<and>
     w_best w = 0x3 \<and> w_dels w = [0x2] \<and> w_exact w"
proof -
  let ?obs = "[([\<lparr>ev_it = 0x2, ev_known = True, ev_input = ''n''\<rparr>], 10),
        ([\<lparr>ev_it = 0x3, ev_known = True, ev_input = ''ni''\<rparr>], 20)] :: (cand_event list \<times> int) list"
  obtain w where w: "daemon_wait_cand ''ni'' 2500 150 0x1 0 ?obs = Some (w, [])" "w_exact w"
    by (simp add: daemon_wait_cand_def daemon_free_it_def)
  have "0 \<notin> set (handed ?obs)" by (simp add: handed_def)
  from wait_cand_ownership [OF w(1) this] have "w_best w = 0x3" "w_dels w = [0x2]"
    by (auto simp: handed_def)
  with w show ?thesis by (intro exI [of _ w]) simp
qed












end
