(* ===== verification/Daemon_Fetch.thy ===== *)
theory Daemon_Fetch
  imports Daemon_Wait
begin

text \<open>
  Fetching the candidates of an iterator (\<open>cand_text\<close>, \<open>cid_copies_clear\<close> and
  \<open>daemon_fetch_cands\<close> in \<open>harness/jinterop.c\<close>): at most seven pages of ten, whose texts,
  identifiers and cover lengths are copied before the page objects are released again. The
  engine's \<open>candidate_get_n\<close> is the parameter \<open>get_n\<close>, \<open>None\<close> when the library does not have it.
  The ghost field \<open>leaked\<close> lists the iterators that nobody gives back any more. The copy of an identifier is kept as
  its bytes. An element that the copying loop does not reach any more counts as read.
\<close>

definition MAX_CAND :: nat where "MAX_CAND = 72"

record dcand =
  dc_text :: string
  dc_id :: "bytes option"
  dc_cover :: int

datatype reply =
    READY | PONG | OK | OKX int | SKIP | EMPTY | ERR | BYE
  | CAND bool "(int \<times> string) list"

record daemon = cand_env +
  g_ct :: "dcand list"
  g_cur_it :: u64
  dels :: "u64 list"
  leaked :: "u64 list"
  out :: "reply list"

text \<open>\<open>WETYPE_MAX_CAND\<close>, clamped.\<close>

definition max_cand_of :: "int option \<Rightarrow> nat" where
  "max_cand_of e =
     (let v = (case e of None \<Rightarrow> int MAX_CAND | Some v \<Rightarrow> v);
          v = (if v < 10 then 10 else v);
          v = (if v > int MAX_CAND then int MAX_CAND else v)
      in nat v)"

definition cid_copies_clear :: "'z daemon_scheme \<Rightarrow> 'z daemon_scheme" where
  "cid_copies_clear s = s\<lparr>g_ct := map (\<lambda>c. c\<lparr>dc_id := None\<rparr>) (g_ct s)\<rparr>"

subsection \<open>Reading a candidate\<close>

text \<open>\<open>cand_text\<close>: the inner \<open>None\<close> is the null result.\<close>

definition str_at :: "u64 \<Rightarrow> 'z hmem_scheme \<Rightarrow> string option option" where
  "str_at p s = (if p = 0 then Some None else map_option Some (get_str p s))"

definition cand_text :: "u64 \<Rightarrow> 'z hmem_scheme \<Rightarrow> string option option" where
  "cand_text c s =
     (if c = 0 then Some None
      else do {
        ob \<leftarrow> get_obj c s;
        case obj_get ob ''text'' of
          None \<Rightarrow> Some None
        | Some f \<Rightarrow>
            if fval f = 0 then Some None
            else if ftype f = CHR ''s'' then str_at (fval f) s
            else if ftype f = CHR ''o'' then do {
              so \<leftarrow> get_obj (fval f) s;
              case obj_get so ''.str'' of None \<Rightarrow> Some None | Some sf \<Rightarrow> str_at (fval sf) s
            }
            else Some None
      })"

text \<open>The test of the first word of a block for the magic of a byte array.\<close>

definition is_jbytes :: "u64 \<Rightarrow> 'z hmem_scheme \<Rightarrow> bool option" where
  "is_jbytes p s = (case heap s p of
       Some (HBytes b) \<Rightarrow> Some (bmagic b = JB_MAGIC)
     | Some (HObj ob) \<Rightarrow> Some (jmagic ob = JB_MAGIC)
     | Some (HArr a) \<Rightarrow> Some (aelem a = JB_MAGIC)
     | _ \<Rightarrow> None)"

definition cand_id :: "jobj \<Rightarrow> 'z hmem_scheme \<Rightarrow> jbytes option option" where
  "cand_id ob s = (case obj_get ob ''id'' of
       None \<Rightarrow> Some None
     | Some f \<Rightarrow>
         if ftype f = CHR ''o'' \<and> fval f \<noteq> 0 then do {
           j \<leftarrow> is_jbytes (fval f) s;
           if j then map_option Some (get_bytes (fval f) s) else Some None
         }
         else Some None)"

definition copy_id :: "jbytes option \<Rightarrow> 'z hmem_scheme \<Rightarrow> (bytes option \<times> 'z hmem_scheme) option" where
  "copy_id idb s = (case idb of
       None \<Rightarrow> Some (None, s)
     | Some b \<Rightarrow>
         if 0 < sint (blen b) \<and> sint (blen b) \<le> 2 ^ 20 then
           let (ok, s1) = malloc_tmp s in
           if ok then (case heap s1 (bdata b) of
                Some (HRaw d) \<Rightarrow>
                  if unat (blen b) \<le> length d then Some (Some (take (unat (blen b)) d), s1) else None
              | _ \<Rightarrow> None)
           else Some (None, s1)
         else Some (None, s))"

definition cand_cover :: "jobj \<Rightarrow> int" where
  "cand_cover ob = (case obj_get ob ''cover_input_len'' of
       Some f \<Rightarrow> if ftype f = CHR ''i'' then sint (ucast (fval f) :: 32 word) else 0
     | None \<Rightarrow> 0)"

definition cand_one :: "u64 \<Rightarrow> 'z hmem_scheme \<Rightarrow> (dcand option \<times> 'z hmem_scheme) option" where
  "cand_one c s = do {
     t \<leftarrow> cand_text c s;
     case t of
       None \<Rightarrow> Some (None, s)
     | Some txt \<Rightarrow>
         if txt = [] then Some (None, s)
         else do {
           ob \<leftarrow> get_obj c s;
           idb \<leftarrow> cand_id ob s;
           (i, s1) \<leftarrow> copy_id idb s;
           Some (Some \<lparr>dc_text = snprintf_s 256 txt, dc_id = i, dc_cover = cand_cover ob\<rparr>, s1)
         }
   }"

fun scan_elems :: "nat \<Rightarrow> u64 list \<Rightarrow> dcand list \<Rightarrow> 'z hmem_scheme \<Rightarrow> (dcand list \<times> 'z hmem_scheme) option" where
  "scan_elems mc [] acc s = Some (acc, s)"
| "scan_elems mc (c # cs) acc s =
     (if mc \<le> length acc then Some (acc, s)
      else do {
        (r, s1) \<leftarrow> cand_one c s;
        scan_elems mc cs (case r of None \<Rightarrow> acc | Some d \<Rightarrow> acc @ [d]) s1
      })"

subsection \<open>Pages\<close>

definition arr_elems :: "u64 \<Rightarrow> 'z hmem_scheme \<Rightarrow> u64 list option" where
  "arr_elems p s = do {
     a \<leftarrow> get_arr p s;
     if sint (alen a) \<le> 0 then Some []
     else case heap s (aelem a) of
         Some (HVec vs) \<Rightarrow> if sint (alen a) \<le> int (length vs) then Some (take (nat (sint (alen a))) vs) else None
       | _ \<Rightarrow> None
   }"

fun scan_arrays :: "nat \<Rightarrow> u64 list \<Rightarrow> dcand list \<Rightarrow> 'z hmem_scheme \<Rightarrow> (dcand list \<times> 'z hmem_scheme) option" where
  "scan_arrays mc [] acc s = Some (acc, s)"
| "scan_arrays mc (a # as) acc s = do {
     es \<leftarrow> arr_elems a s;
     (acc1, s1) \<leftarrow> scan_elems mc es acc s;
     scan_arrays mc as acc1 s1
   }"

fun fetch_batches ::
    "(u64 \<Rightarrow> nat \<Rightarrow> 'z hmem_scheme \<Rightarrow> u64 \<times> 'z hmem_scheme) \<Rightarrow> u64 \<Rightarrow> nat \<Rightarrow> 'z hmem_scheme \<Rightarrow>
     (u64 list \<times> 'z hmem_scheme) option" where
  "fetch_batches get_n it 0 s = Some ([], s)"
| "fetch_batches get_n it (Suc k) s =
     (let (a, s1) = get_n it 10 s in
      if a = 0 then Some ([], s1)
      else do {
        ar \<leftarrow> get_arr a s1;
        if sint (alen ar) < 10 then Some ([a], s1)
        else do { (as, s2) \<leftarrow> fetch_batches get_n it k s1; Some (a # as, s2) }
      })"

subsection \<open>Releasing the pages\<close>

text \<open>The search for a pointer that occurs twice, over a table of 79 entries.\<close>

fun dup_scan :: "u64 list \<Rightarrow> u64 list \<Rightarrow> bool" where
  "dup_scan seen [] = False"
| "dup_scan seen (p # ps) =
     (if p \<in> set seen then True
      else dup_scan (if length seen < MAX_CAND + MAX_CAND div 10 then seen @ [p] else seen) ps)"

fun page_ptrs :: "u64 list \<Rightarrow> 'z hmem_scheme \<Rightarrow> u64 list option" where
  "page_ptrs [] s = Some []"
| "page_ptrs (a # as) s = do { es \<leftarrow> arr_elems a s; ps \<leftarrow> page_ptrs as s; Some (es @ [a] @ ps) }"

definition release_cand :: "u64 \<Rightarrow> 'z hreg_scheme \<Rightarrow> 'z hreg_scheme option" where
  "release_cand c s = do {
     j \<leftarrow> is_jobj c s;
     if \<not> j then Some s
     else do {
       ob \<leftarrow> get_obj c s;
       s1 \<leftarrow> (case obj_get ob ''id'' of
           Some f \<Rightarrow> if ftype f = CHR ''o'' \<and> fval f \<noteq> 0 then map_option snd (reg_release (fval f) s) else Some s
         | None \<Rightarrow> Some s);
       map_option snd (reg_release c s1)
     }
   }"

fun release_cands :: "u64 list \<Rightarrow> 'z hreg_scheme \<Rightarrow> 'z hreg_scheme option" where
  "release_cands [] s = Some s"
| "release_cands (c # cs) s = do { s1 \<leftarrow> release_cand c s; release_cands cs s1 }"

fun release_pages :: "u64 list \<Rightarrow> 'z hreg_scheme \<Rightarrow> 'z hreg_scheme option" where
  "release_pages [] s = Some s"
| "release_pages (a # as) s = do {
     es \<leftarrow> arr_elems a s;
     s1 \<leftarrow> release_cands es s;
     s2 \<leftarrow> map_option snd (reg_release a s1);
     release_pages as s2
   }"

text \<open>\<open>daemon_fetch_cands\<close>. Without \<open>candidate_get_n\<close> it returns at once, and nobody keeps the iterator.\<close>

definition daemon_fetch_cands ::
    "(u64 \<Rightarrow> nat \<Rightarrow> 'z daemon_scheme \<Rightarrow> u64 \<times> 'z daemon_scheme) option \<Rightarrow> nat \<Rightarrow> u64 \<Rightarrow>
     'z daemon_scheme \<Rightarrow> (nat \<times> 'z daemon_scheme) option" where
  "daemon_fetch_cands sym_cg mc it s =
     (let s0 = (cid_copies_clear s)\<lparr>g_ct := []\<rparr> in
      case sym_cg of
        None \<Rightarrow> Some (0, s0\<lparr>leaked := leaked s0 @ (if it = 0 \<or> it = g_cur_it s0 then [] else [it])\<rparr>)
      | Some get_n \<Rightarrow>
      if it = 0 then Some (0, s0)
      else do {
        (as, s1) \<leftarrow> fetch_batches get_n it (mc div 10) s0;
        (cs, s2) \<leftarrow> scan_arrays mc as [] s1;
        let s3 = s2\<lparr>g_ct := cs\<rparr>;
        ps \<leftarrow> page_ptrs as s3;
        s4 \<leftarrow> (if dup_scan [] ps then Some s3 else release_pages as s3);
        let s5 = s4\<lparr>dels := dels s4 @ (if g_cur_it s4 \<noteq> 0 \<and> g_cur_it s4 \<noteq> it then [g_cur_it s4] else []),
                    g_cur_it := it\<rparr>;
        Some (length (g_ct s5), s5)
      })"

end
