(* ===== verification/Daemon.thy ===== *)
theory Daemon
  imports Daemon_Fetch Cmd_Reader "HOL-Library.Multiset"
begin

text \<open>
  The command loop of the daemon (\<open>run_daemon\<close> in \<open>harness/jinterop.c\<close>): one function per
  command, over the state of \<open>Daemon_Fetch\<close> extended with the session and the composition.
  The engine's functions are the record \<open>engine\<close>, parameters of every definition; the
  environment of a wait (the events that arrive before each pass, and the clock) is the field \<open>obs\<close>, and the
  clock of the registry moves only between commands. Replies are kept as values and rendered
  by \<open>render\<close>. The input is the reader state of \<open>Cmd_Reader\<close>, an argument of its own.
\<close>

record dstate = daemon +
  sid :: u64
  sent :: string
  sent_known :: bool
  spans :: bool
  since_gc :: nat
  obs :: "(cand_event list \<times> int) list"

text \<open>\<open>dlsym\<close>'ed functions; \<open>candidate_get_n\<close>, the session functions and \<open>gc_sessions\<close> may be missing.\<close>

record 's engine =
  process_input :: "u64 \<Rightarrow> string \<Rightarrow> 's \<Rightarrow> 's"
  candidate_get_n :: "(u64 \<Rightarrow> nat \<Rightarrow> 's \<Rightarrow> u64 \<times> 's) option"
  select_candidate :: "u64 \<Rightarrow> string \<Rightarrow> bytes \<Rightarrow> 's \<Rightarrow> 's"
  create_session :: "'s \<Rightarrow> u64 \<times> 's"
  destroy_session :: "u64 \<Rightarrow> 's \<Rightarrow> 's"
  has_sessions :: bool
  gc_sessions :: "('s \<Rightarrow> 's) option"
  call_export :: "string \<Rightarrow> u64 \<Rightarrow> 's \<Rightarrow> int \<times> 's"

record config =
  quiet_ms :: int
  gc_every :: int
  max_cand :: nat

subsection \<open>Configuration\<close>

text \<open>\<open>WETYPE_QUIET_MS\<close>: a full decimal number from 1 to 2500, otherwise 150.\<close>

definition parse_quiet :: "string option \<Rightarrow> int" where
  "parse_quiet e = (case e of
       None \<Rightarrow> 150
     | Some s \<Rightarrow> if s = [] then 150 else
         (case strtol s of (v, rest, ok) \<Rightarrow>
            if ok \<and> rest = [] \<and> 1 \<le> v \<and> v \<le> 2500 then v else 150))"

subsection \<open>Replies\<close>

definition reply :: "reply \<Rightarrow> 'z daemon_scheme \<Rightarrow> 'z daemon_scheme" where
  "reply r s = s\<lparr>out := out s @ [r]\<rparr>"

definition daemon_reply_cands :: "int \<Rightarrow> bool \<Rightarrow> 'z daemon_scheme \<Rightarrow> 'z daemon_scheme" where
  "daemon_reply_cands got sp s =
     (if 0 < got then reply (CAND sp (map (\<lambda>c. (dc_cover c, dc_text c)) (g_ct s))) s
      else reply EMPTY s)"

subsection \<open>Keys and waiting\<close>

definition daemon_key :: "'s engine \<Rightarrow> u64 \<Rightarrow> char \<Rightarrow> string \<Rightarrow> 's \<Rightarrow> 's" where
  "daemon_key eng sd opc payload s = process_input eng sd (snprintf_s 64 ([opc, CHR '' ''] @ payload)) s"

definition push_sent :: "char \<Rightarrow> 'z dstate_scheme \<Rightarrow> 'z dstate_scheme" where
  "push_sent c s =
     (if sent_known s \<and> length (sent s) + 1 < 256 then s\<lparr>sent := sent s @ [c]\<rparr>
      else s\<lparr>sent_known := False\<rparr>)"

fun send_keys :: "'z dstate_scheme engine \<Rightarrow> string \<Rightarrow> 'z dstate_scheme \<Rightarrow> 'z dstate_scheme" where
  "send_keys eng [] s = s"
| "send_keys eng (c # cs) s =
     send_keys eng cs (push_sent c (daemon_key eng (sid s) CHR ''u'' [c] (daemon_key eng (sid s) CHR ''d'' [c] s)))"

text \<open>What a series of candidate events leaves in the queue, and the iterators that fall out of it because
  it is full (\<open>push_event\<close>, one event after the other).\<close>

fun queued_after :: "cand_event list \<Rightarrow> cand_event list \<Rightarrow> cand_event list" where
  "queued_after q [] = q"
| "queued_after q (e # es) = queued_after ((if length q = CAND_QUEUE then tl q else q) @ [e]) es"

fun evicted :: "cand_event list \<Rightarrow> cand_event list \<Rightarrow> u64 list" where
  "evicted q [] = []"
| "evicted q (e # es) =
     (if length q = CAND_QUEUE then [ev_it (hd q)] else []) @
     evicted ((if length q = CAND_QUEUE then tl q else q) @ [e]) es"

lemma fold_push_event: "cand_q (fold push_event es s) = queued_after (cand_q s) es"
  by (induction es arbitrary: s) (auto simp: push_event_def Let_def)

text \<open>The passes of a wait as the queue shows them, and what fell out of it meanwhile: what is in the queue
  already is seen by the first pass, and every pass takes the queue empty.\<close>

fun passes :: "cand_event list \<Rightarrow> (cand_event list \<times> int) list \<Rightarrow> (cand_event list \<times> int) list" where
  "passes q [] = []"
| "passes q ((es, now) # r) = (queued_after q es, now) # passes [] r"

fun overrun :: "cand_event list \<Rightarrow> (cand_event list \<times> int) list \<Rightarrow> u64 list" where
  "overrun q [] = []"
| "overrun q ((es, now) # r) = evicted q es @ overrun [] r"

text \<open>\<open>daemon_wait_cand\<close> on the state.\<close>

definition wait_cand :: "config \<Rightarrow> string \<Rightarrow> 'z dstate_scheme \<Rightarrow> (u64 \<times> 'z dstate_scheme) option" where
  "wait_cand cfg expected s = do {
     (w, rest) \<leftarrow> daemon_wait_cand expected 2500 (quiet_ms cfg) (g_cur_it s) (clk s) (passes (cand_q s) (obs s));
     let n = length (obs s) - length rest;
     Some (w_best w, s\<lparr>cand_q := [], obs := drop n (obs s), dels := dels s @ w_dels w,
       leaked := leaked s @ overrun (cand_q s) (take n (obs s))\<rparr>)
   }"

definition drop_events :: "'z daemon_scheme \<Rightarrow> 'z daemon_scheme" where
  "drop_events s = (let (ds, s1) = daemon_drop_events (g_cur_it s) s in s1\<lparr>dels := dels s1 @ ds\<rparr>)"

definition fetch_and_reply ::
    "'z dstate_scheme engine \<Rightarrow> config \<Rightarrow> nat \<Rightarrow> string \<Rightarrow> 'z dstate_scheme \<Rightarrow> 'z dstate_scheme option" where
  "fetch_and_reply eng cfg skipped expected s = do {
     (it, s1) \<leftarrow> wait_cand cfg expected s;
     (got, s2) \<leftarrow> (if it \<noteq> 0
        then map_option (apfst int) (daemon_fetch_cands (candidate_get_n eng) (max_cand cfg) it s1)
        else Some (- 1, s1));
     Some (daemon_reply_cands got (spans s2) (s2\<lparr>out := out s2 @ replicate skipped SKIP\<rparr>))
   }"

subsection \<open>Commands\<close>

definition cmd_batch ::
    "'z dstate_scheme engine \<Rightarrow> config \<Rightarrow> bool \<Rightarrow> string \<Rightarrow> nat \<Rightarrow> 'z dstate_scheme \<Rightarrow> 'z dstate_scheme option" where
  "cmd_batch eng cfg single keys skipped s =
     (if keys = [] \<or> sid s = 0 then Some (reply EMPTY (s\<lparr>out := out s @ replicate skipped SKIP\<rparr>))
      else do {
        s1 \<leftarrow> reg_sweep (drop_events s);
        let s2 = send_keys eng (if single then take 1 keys else keys) s1;
        s3 \<leftarrow> fetch_and_reply eng cfg skipped (if sent_known s2 then sent s2 else []) s2;
        Some (case gc_sessions eng of
            Some gc \<Rightarrow>
              if gc_every cfg \<noteq> 0 then
                (let n = since_gc s3 + 1
                 in if gc_every cfg \<le> int n then (gc s3)\<lparr>since_gc := 0\<rparr> else s3\<lparr>since_gc := n\<rparr>)
              else s3
          | None \<Rightarrow> s3)
      })"

definition cmd_select ::
    "'z dstate_scheme engine \<Rightarrow> config \<Rightarrow> string \<Rightarrow> 'z dstate_scheme \<Rightarrow> 'z dstate_scheme option" where
  "cmd_select eng cfg arg s =
     (let idx = atoi arg in
      if idx < 0 \<or> int (length (g_ct s)) \<le> idx then Some (reply ERR s)
      else
        let c = g_ct s ! nat idx in
        case dc_id c of
          None \<Rightarrow> Some (reply ERR s)
        | Some i \<Rightarrow>
            let partial = (spans s \<and> sent_known s \<and> 0 < dc_cover c \<and> dc_cover c < int (length (sent s))) in
            do {
              s1 \<leftarrow> reg_sweep (drop_events s);
              let s2 = select_candidate eng (sid s) (dc_text c) i s1;
              if \<not> partial then Some (reply OK (s2\<lparr>sent := [], sent_known := False\<rparr>))
              else
                let s3 = s2\<lparr>sent := drop (nat (dc_cover c)) (sent s2)\<rparr>
                in fetch_and_reply eng cfg 0 (sent s3) s3
            })"

definition cmd_clear :: "'z dstate_scheme engine \<Rightarrow> 'z dstate_scheme \<Rightarrow> 'z dstate_scheme option" where
  "cmd_clear eng s = do {
     s1 \<leftarrow> reg_sweep (drop_events s);
     let s2 = (cid_copies_clear s1)\<lparr>g_ct := []\<rparr>;
     let s3 = s2\<lparr>dels := dels s2 @ (if g_cur_it s2 \<noteq> 0 then [g_cur_it s2] else []), g_cur_it := 0\<rparr>;
     let (sd, s4) = create_session eng (destroy_session eng (sid s3) s3);
     Some (reply OK (s4\<lparr>sid := sd, g_ct := [], last_iterator := 0, sent := [], sent_known := True, since_gc := 0\<rparr>))
   }"

definition cmd_export :: "'z dstate_scheme engine \<Rightarrow> string \<Rightarrow> 'z dstate_scheme \<Rightarrow> 'z dstate_scheme" where
  "cmd_export eng name s = (let (r, s1) = call_export eng name (sid s) s in reply (OKX r) s1)"

subsection \<open>Coalescing queued batches\<close>

lemma cmd_fill_length: "length (stream (snd (cmd_fill b s))) \<le> length (stream s)"
proof (cases "chunks s")
  case Nil
  then show ?thesis by (auto simp: cmd_fill_def stream_def Let_def)
next
  case (Cons c cs)
  have "length (take n c @ concat (if drop n c = [] then cs else drop n c # cs)) \<le> length (c @ concat cs)" for n
    by (cases "drop n c = []") auto
  note this [of "IN_CAP - length (g_in s)"] this [of IN_CAP]
  then show ?thesis using Cons by (auto simp: cmd_fill_def stream_def Let_def)
qed

lemma cmd_read_length: "cmd_read cap b s = (Some l, s') \<Longrightarrow> length (stream s') < length (stream s)"
proof (induction cap b s rule: cmd_read.induct)
  case (1 cap b s)
  show ?case
  proof (cases "NL \<in> set (g_in s)")
    case True
    then have "g_in s \<noteq> []" by auto
    then show ?thesis using 1(2) True by (subst (asm) cmd_read.simps) (auto simp: stream_def Let_def)
  next
    case False
    obtain r s1 where f: "cmd_fill b s = (r, s1)" by fastforce
    have sz: "\<not> IN_CAP < length (g_in s)" using 1(2) False by (subst (asm) cmd_read.simps) (auto split: if_split_asm)
    have r: "r" using 1(2) False f sz by (subst (asm) cmd_read.simps) (auto split: if_split_asm bool.split_asm)
    then have "cmd_read cap b s1 = (Some l, s')" using 1(2) False f sz by (subst (asm) cmd_read.simps) auto
    then have "length (stream s') < length (stream s1)" using 1(1) [OF False sz f [symmetric]] r f by auto
    also have "\<dots> \<le> length (stream s)" using cmd_fill_length [of b s] f by simp
    finally show ?thesis .
  qed
qed

lemma cmd_read_rest_length: "length (stream (snd (cmd_read cap b s))) \<le> length (stream s)"
proof (induction cap b s rule: cmd_read.induct)
  case (1 cap b s)
  show ?case
  proof (cases "NL \<in> set (g_in s) \<or> IN_CAP < length (g_in s)")
    case True
    then show ?thesis by (subst cmd_read.simps) (auto simp: stream_def Let_def)
  next
    case False
    obtain r s1 where f: "cmd_fill b s = (r, s1)" by fastforce
    have "length (stream s1) \<le> length (stream s)" using cmd_fill_length [of b s] f by simp
    moreover have "r \<Longrightarrow> length (stream (snd (cmd_read cap b s1))) \<le> length (stream s1)" using 1 False f by auto
    ultimately show ?thesis using False f by (subst cmd_read.simps) (cases r; auto)
  qed
qed

lemma fill_line_length: "length (stream (snd (fill_line s))) \<le> length (stream s)"
proof (induction s rule: fill_line.induct)
  case (1 s)
  show ?case
  proof (cases "NL \<in> set (g_in s) \<or> IN_CAP < length (g_in s)")
    case True
    then show ?thesis by (subst fill_line.simps) auto
  next
    case False
    obtain r s1 where f: "cmd_fill False s = (r, s1)" by fastforce
    have le: "length (stream s1) \<le> length (stream s)" using cmd_fill_length [of False s] f by simp
    show ?thesis
    proof (cases r)
      case True
      then have "length (stream (snd (fill_line s1))) \<le> length (stream s1)"
        using 1 False f by auto
      with le show ?thesis using False f True by (subst fill_line.simps) auto
    next
      case r: False
      then show ?thesis using False f le by (subst fill_line.simps) auto
    qed
  qed
qed

lemma next_is_batch_length: "cmd_next_is_batch s = (b, s') \<Longrightarrow> length (stream s') \<le> length (stream s)"
  using fill_line_length [of s] by (auto simp: cmd_next_is_batch_def Let_def split: prod.split_asm)

text \<open>The loop over queued \<open>B\<close> lines: the keys are appended as far as the buffer of 512 bytes
  takes them.\<close>

function coalesce :: "string \<Rightarrow> nat \<Rightarrow> cmd_in \<Rightarrow> string \<times> nat \<times> cmd_in" where
  "coalesce keys skipped inp =
     (if length keys + 64 < 512 then
        (case cmd_next_is_batch inp of
           (False, inp1) \<Rightarrow> (keys, skipped, inp1)
         | (True, inp1) \<Rightarrow>
             (case cmd_read 512 False inp1 of
                (None, inp2) \<Rightarrow> (keys, skipped, inp2)
              | (Some next, inp2) \<Rightarrow>
                  coalesce (take 511 (keys @ drop 2 (c_string next))) (Suc skipped) inp2))
      else (keys, skipped, inp))"
  by pat_completeness auto
termination
  by (relation "measure (\<lambda>(keys, skipped, inp). length (stream inp))")
    (auto dest!: cmd_read_length [OF sym] next_is_batch_length [OF sym])

declare coalesce.simps [simp del]


subsection \<open>The loop\<close>

fun strip_cr :: "string \<Rightarrow> string" where
  "strip_cr l = (if l \<noteq> [] \<and> (last l = NL \<or> last l = CHR 0x0D) then strip_cr (butlast l) else l)"

declare strip_cr.simps [simp del]

datatype 's outcome = Next cmd_in 's | Quit 's

text \<open>One line that is not empty.\<close>

definition daemon_line ::
    "'z dstate_scheme engine \<Rightarrow> config \<Rightarrow> string \<Rightarrow> cmd_in \<Rightarrow> 'z dstate_scheme \<Rightarrow>
     'z dstate_scheme outcome option" where
  "daemon_line eng cfg line inp s =
     (if line = ''Q'' then Some (Quit s)
      else if line = ''PING'' then Some (Next inp (reply PONG s))
      else if take 2 line = ''X '' then Some (Next inp (cmd_export eng (drop 2 line) s))
      else if line = ''OPT spans'' then Some (Next inp (reply OK (s\<lparr>spans := True\<rparr>)))
      else if line = ''SAVE'' then Some (Next inp (reply OK s))
      else if take 2 line = ''L '' then
        map_option (Next inp) (cmd_batch eng cfg True (drop 2 line) 0 s)
      else if take 2 line = ''B '' then
        (let (keys, skipped, inp1) = coalesce (drop 2 line) 0 inp
         in map_option (Next inp1) (cmd_batch eng cfg False keys skipped s))
      else if hd line = CHR ''S'' then map_option (Next inp) (cmd_select eng cfg (tl line) s)
      else if line = ''C'' \<and> has_sessions eng then map_option (Next inp) (cmd_clear eng s)
      else Some (Next inp (reply ERR s)))"

text \<open>Leaving the loop: the current iterator is deleted and the session destroyed.\<close>

definition daemon_exit :: "'z dstate_scheme engine \<Rightarrow> 'z dstate_scheme \<Rightarrow> 'z dstate_scheme" where
  "daemon_exit eng s =
     (let s1 = s\<lparr>dels := dels s @ (if g_cur_it s \<noteq> 0 then [g_cur_it s] else [])\<rparr>;
          s2 = cid_copies_clear s1;
          s3 = (if 0 < sint (sid s2) \<and> has_sessions eng then destroy_session eng (sid s2) s2 else s2)
      in reply BYE s3)"

text \<open>The loop itself, for at most \<open>k\<close> lines: the fuel is more than enough when it exceeds the
  length of the input, because every line takes at least its newline.\<close>

fun daemon_loop ::
    "nat \<Rightarrow> 'z dstate_scheme engine \<Rightarrow> config \<Rightarrow> cmd_in \<Rightarrow> 'z dstate_scheme \<Rightarrow> 'z dstate_scheme option" where
  "daemon_loop 0 eng cfg inp s = None"
| "daemon_loop (Suc k) eng cfg inp s =
     (case cmd_read 512 True inp of
        (None, inp1) \<Rightarrow> Some (daemon_exit eng s)
      | (Some raw, inp1) \<Rightarrow>
          let line = strip_cr (c_string raw) in
          if line = [] then daemon_loop k eng cfg inp1 s
          else (case daemon_line eng cfg line inp1 s of
              None \<Rightarrow> None
            | Some (Quit s1) \<Rightarrow> Some (daemon_exit eng s1)
            | Some (Next inp2 s1) \<Rightarrow> daemon_loop k eng cfg inp2 s1))"

text \<open>\<open>run_daemon\<close>: the registry as it is at the start becomes permanent, and the loop runs.\<close>

definition run_daemon ::
    "'z dstate_scheme engine \<Rightarrow> config \<Rightarrow> cmd_in \<Rightarrow> 'z dstate_scheme \<Rightarrow> 'z dstate_scheme option" where
  "run_daemon eng cfg inp s =
     daemon_loop (Suc (length (stream inp))) eng cfg inp
       (reply READY (s\<lparr>keep_from := regn s, sent := [], sent_known := True, spans := False, since_gc := 0\<rparr>))"

subsection \<open>What the engine may change\<close>

text \<open>The iterators the daemon has to do with: deleted, current, queued, still to arrive, and the ones that
  fell out of the full queue or were dropped without \<open>candidate_get_n\<close>.\<close>

definition its :: "'z dstate_scheme \<Rightarrow> u64 list" where
  "its s = dels s @ (if g_cur_it s \<noteq> 0 then [g_cur_it s] else []) @ map ev_it (cand_q s) @ handed (obs s) @ leaked s"

text \<open>A call into the engine leaves the daemon's own variables alone; through the callback it may
  queue any number of events, each with a new iterator that is not in \<open>X\<close> either; what the queue has
  no room for falls out of it.\<close>

definition engine_call :: "u64 set \<Rightarrow> 'z dstate_scheme \<Rightarrow> 'z dstate_scheme \<Rightarrow> bool" where
  "engine_call X s s' \<longleftrightarrow>
     out s' = out s \<and> sent s' = sent s \<and> sent_known s' = sent_known s \<and> spans s' = spans s \<and>
     sid s' = sid s \<and> dels s' = dels s \<and> g_cur_it s' = g_cur_it s \<and> obs s' = obs s \<and>
     g_ct s' = g_ct s \<and>
     (\<exists>es. cand_q s' = queued_after (cand_q s) es \<and> leaked s' = leaked s @ evicted (cand_q s) es \<and>
        distinct (map ev_it es) \<and> 0 \<notin> set (map ev_it es) \<and>
        set (map ev_it es) \<inter> (set (its s) \<union> X) = {})"

definition engine_ok :: "'z dstate_scheme engine \<Rightarrow> bool" where
  "engine_ok eng \<longleftrightarrow>
     (\<forall>sd k s. engine_call {} s (process_input eng sd k s)) \<and>
     (\<forall>get_n it n s. candidate_get_n eng = Some get_n \<longrightarrow> engine_call {it} s (snd (get_n it n s))) \<and>
     (\<forall>sd t i s. engine_call {} s (select_candidate eng sd t i s)) \<and>
     (\<forall>s. engine_call {} s (snd (create_session eng s))) \<and>
     (\<forall>sd s. engine_call {} s (destroy_session eng sd s)) \<and>
     (\<forall>gc s. gc_sessions eng = Some gc \<longrightarrow> engine_call {} s (gc s)) \<and>
     (\<forall>n sd s. engine_call {} s (snd (call_export eng n sd s)))"

definition its_ok :: "'z dstate_scheme \<Rightarrow> bool" where
  "its_ok s \<longleftrightarrow> distinct (its s) \<and> 0 \<notin> set (its s)"

lemma queued_after_append: "queued_after q (es @ fs) = queued_after (queued_after q es) fs"
  by (induction es arbitrary: q) simp_all

lemma evicted_append: "evicted q (es @ fs) = evicted q es @ evicted (queued_after q es) fs"
  by (induction es arbitrary: q) simp_all

text \<open>Nothing disappears: what was queued or arrives is in the queue or has fallen out.\<close>

lemma queue_mset: "mset (map ev_it (queued_after q es)) + mset (evicted q es) = mset (map ev_it q) + mset (map ev_it es)"
proof (induction es arbitrary: q)
  case (Cons e es)
  show ?case
  proof (cases "length q = CAND_QUEUE")
    case True
    then obtain x xs where "q = x # xs" by (cases q) (auto simp: CAND_QUEUE_def)
    then show ?thesis using Cons.IH [of "xs @ [e]"] True by simp
  next
    case False
    then show ?thesis using Cons.IH [of "q @ [e]"] by simp
  qed
qed simp

lemma passes_mset:
  "mset (handed (passes q os)) + mset (overrun q os) = mset (handed os) + (if os = [] then {#} else mset (map ev_it q))"
proof (induction os arbitrary: q)
  case (Cons a os)
  obtain es now where a: "a = (es, now)" by fastforce
  have "mset (handed (passes [] os)) + mset (overrun [] os) = mset (handed os)" using Cons.IH [of "[]"] by simp
  moreover have "handed ((x, t) # r) = map ev_it x @ handed r" for x t r by (simp add: handed_def)
  ultimately show ?case using queue_mset [of q es] by (simp add: a) (metis (no_types, lifting) add.assoc add.commute)
qed (simp add: handed_def)

lemma passes_length [simp]: "length (passes q os) = length os"
  by (induction q os rule: passes.induct) simp_all

lemma passes_take: "take n (passes q os) = passes q (take n os)"
  by (induction os arbitrary: q n) (auto simp: take_Cons' split: prod.split)

lemma engine_call_refl [simp]: "engine_call X s s"
  unfolding engine_call_def by (intro conjI refl exI [of _ "[]"]) simp_all

lemma engine_call_sel:
  assumes "engine_call X s s'"
  shows "out s' = out s" "sent s' = sent s" "sent_known s' = sent_known s" "spans s' = spans s"
    "sid s' = sid s" "dels s' = dels s" "g_cur_it s' = g_cur_it s" "obs s' = obs s" "g_ct s' = g_ct s"
  using assms by (simp_all add: engine_call_def)

lemma engine_call_new:
  assumes "engine_call X s s'"
  obtains es where "cand_q s' = queued_after (cand_q s) es" "leaked s' = leaked s @ evicted (cand_q s) es"
    "distinct (map ev_it es)" "0 \<notin> set (map ev_it es)" "set (map ev_it es) \<inter> (set (its s) \<union> X) = {}"
    "mset (its s') = mset (its s) + mset (map ev_it es)"
proof -
  obtain es where es: "cand_q s' = queued_after (cand_q s) es" "leaked s' = leaked s @ evicted (cand_q s) es"
    "distinct (map ev_it es)" "0 \<notin> set (map ev_it es)" "set (map ev_it es) \<inter> (set (its s) \<union> X) = {}"
    using assms by (auto simp: engine_call_def)
  have "mset (its s') = mset (its s) + mset (map ev_it es)"
    using engine_call_sel(6-8) [OF assms] queue_mset [of "cand_q s" es] by (simp add: its_def es(1,2) add_ac)
  with es show ?thesis by (rule that)
qed

lemma engine_call_trans:
  assumes a: "engine_call X s s1" and b: "engine_call X s1 s2"
  shows "engine_call X s s2"
proof -
  obtain e1 where e1: "cand_q s1 = queued_after (cand_q s) e1" "leaked s1 = leaked s @ evicted (cand_q s) e1"
    "distinct (map ev_it e1)" "0 \<notin> set (map ev_it e1)"
    "set (map ev_it e1) \<inter> (set (its s) \<union> X) = {}" "mset (its s1) = mset (its s) + mset (map ev_it e1)"
    using a by (rule engine_call_new)
  obtain e2 where e2: "cand_q s2 = queued_after (cand_q s1) e2" "leaked s2 = leaked s1 @ evicted (cand_q s1) e2"
    "distinct (map ev_it e2)" "0 \<notin> set (map ev_it e2)"
    "set (map ev_it e2) \<inter> (set (its s1) \<union> X) = {}" using b by (rule engine_call_new)
  have "set (its s1) = set (its s) \<union> set (map ev_it e1)"
    using arg_cong [OF e1(6), of set_mset] by simp
  then have "cand_q s2 = queued_after (cand_q s) (e1 @ e2) \<and> leaked s2 = leaked s @ evicted (cand_q s) (e1 @ e2) \<and>
      distinct (map ev_it (e1 @ e2)) \<and> 0 \<notin> set (map ev_it (e1 @ e2)) \<and>
      set (map ev_it (e1 @ e2)) \<inter> (set (its s) \<union> X) = {}"
    using e1 e2 by (auto simp: queued_after_append evicted_append)
  then show ?thesis
    unfolding engine_call_def using engine_call_sel [OF a] engine_call_sel [OF b] by (metis (no_types, lifting))
qed

lemma engine_call_mono: "engine_call X s s' \<Longrightarrow> Y \<subseteq> X \<Longrightarrow> engine_call Y s s'"
  unfolding engine_call_def by blast

lemma reg_frame_call: "reg_frame s s' \<Longrightarrow> engine_call X s s'"
  unfolding engine_call_def by (auto simp: reg_frame_def intro: exI [of _ "[]"])

text \<open>Iterators are only ever added, each new one once; nothing is lost.\<close>

definition its_grow :: "'z dstate_scheme \<Rightarrow> 'z dstate_scheme \<Rightarrow> bool" where
  "its_grow s s' \<longleftrightarrow> (\<exists>new. mset (its s') = mset (its s) + mset new \<and> distinct new \<and> 0 \<notin> set new \<and>
     set new \<inter> set (its s) = {})"

lemma its_growI: "mset (its s') = mset (its s) \<Longrightarrow> its_grow s s'"
  unfolding its_grow_def by (rule exI [of _ "[]"]) simp

lemma its_grow_refl [simp]: "its_grow s s"
  by (rule its_growI) simp

lemma its_grow_set: "its_grow s s' \<Longrightarrow> set (its s) \<subseteq> set (its s')"
proof -
  assume "its_grow s s'"
  then obtain new where "mset (its s') = mset (its s) + mset new" by (auto simp: its_grow_def)
  from arg_cong [OF this, of set_mset] show ?thesis by auto
qed

lemma its_grow_trans:
  assumes "its_grow s s1" and "its_grow s1 s2"
  shows "its_grow s s2"
proof -
  obtain n1 where n1: "mset (its s1) = mset (its s) + mset n1" "distinct n1" "0 \<notin> set n1" "set n1 \<inter> set (its s) = {}"
    using assms(1) by (auto simp: its_grow_def)
  obtain n2 where n2: "mset (its s2) = mset (its s1) + mset n2" "distinct n2" "0 \<notin> set n2" "set n2 \<inter> set (its s1) = {}"
    using assms(2) by (auto simp: its_grow_def)
  have "set (its s1) = set (its s) \<union> set n1" using arg_cong [OF n1(1), of set_mset] by simp
  then show ?thesis unfolding its_grow_def using n1 n2 by (intro exI [of _ "n1 @ n2"]) auto
qed

lemma its_grow_ok: "its_grow s s' \<Longrightarrow> its_ok s \<Longrightarrow> its_ok s'"
proof -
  assume "its_grow s s'" and ok: "its_ok s"
  then obtain new where new: "mset (its s') = mset (its s @ new)" "distinct new" "0 \<notin> set new"
    "set new \<inter> set (its s) = {}" by (auto simp: its_grow_def)
  have "distinct (its s @ new)" and "0 \<notin> set (its s @ new)" using new ok by (auto simp: its_ok_def)
  then show "its_ok s'"
    using mset_eq_imp_distinct_iff [OF new(1)] mset_eq_setD [OF new(1)] by (simp add: its_ok_def)
qed

lemma engine_call_grow: "engine_call X s s' \<Longrightarrow> its_grow s s'"
proof -
  assume e: "engine_call X s s'"
  then obtain es where es: "cand_q s' = queued_after (cand_q s) es" "leaked s' = leaked s @ evicted (cand_q s) es"
    "distinct (map ev_it es)" "0 \<notin> set (map ev_it es)"
    "set (map ev_it es) \<inter> (set (its s) \<union> X) = {}" "mset (its s') = mset (its s) + mset (map ev_it es)"
    by (rule engine_call_new)
  then have "set (map ev_it es) \<inter> set (its s) = {}" by blast
  then show ?thesis using es(3,4,6) unfolding its_grow_def by blast
qed

end
