(* ===== verification/Daemon_Props.thy ===== *)
theory Daemon_Props
  imports Daemon
begin

text \<open>
  Properties of the daemon's command loop: every native iterator is deleted at most once and
  none is lost, every command gets exactly one reply, the record of the composition is the
  letters typed.
\<close>

subsection \<open>The parts of a command that only touch the registry\<close>

lemma reg_frame_sel:
  fixes s s' :: "'z dstate_scheme"
  assumes "reg_frame s s'"
  shows "out s' = out s" "sent s' = sent s" "sent_known s' = sent_known s" "spans s' = spans s"
    "sid s' = sid s" "dels s' = dels s" "g_cur_it s' = g_cur_it s" "obs s' = obs s" "g_ct s' = g_ct s"
    "cand_q s' = cand_q s" "its s' = its s"
  using assms by (auto simp: reg_frame_def its_def)

lemma copy_id_frame: "copy_id idb s = Some (r, s') \<Longrightarrow> reg_frame s (s' :: 'z hreg_scheme)"
proof (cases idb)
  case None
  assume "copy_id idb s = Some (r, s')"
  with None show ?thesis by (simp add: copy_id_def)
next
  case (Some b)
  assume c: "copy_id idb s = Some (r, s')"
  obtain ok s1 where m: "malloc_tmp s = (ok, s1)" by fastforce
  have "s' = s \<or> s' = s1"
    using c Some m by (cases ok) (auto simp: copy_id_def split: if_split_asm option.split_asm hobj.split_asm)
  then show ?thesis using malloc_tmp_frame [OF m] by auto
qed

lemma cand_one_frame: "cand_one c s = Some (r, s') \<Longrightarrow> reg_frame s (s' :: 'z hreg_scheme)"
proof -
  assume r: "cand_one c s = Some (r, s')"
  then obtain t where t: "cand_text c s = Some t" by (auto simp: cand_one_def)
  show ?thesis
  proof (cases "t = None \<or> t = Some []")
    case True
    then show ?thesis using r t by (auto simp: cand_one_def)
  next
    case False
    then obtain y where y: "t = Some y" "y \<noteq> []" by auto
    then obtain ob idb i where "copy_id idb s = Some (i, s')"
      using r t by (simp add: cand_one_def) fastforce
    then show ?thesis by (rule copy_id_frame)
  qed
qed

lemma scan_elems_frame: "scan_elems mc cs acc s = Some (r, s') \<Longrightarrow> reg_frame s (s' :: 'z hreg_scheme)"
proof (induction cs arbitrary: acc s)
  case Nil
  then show ?case by simp
next
  case (Cons c cs)
  show ?case
  proof (cases "mc \<le> length acc")
    case True
    then show ?thesis using Cons.prems by simp
  next
    case False
    then obtain d s1 where "cand_one c s = Some (d, s1)"
      "scan_elems mc cs (case d of None \<Rightarrow> acc | Some x \<Rightarrow> acc @ [x]) s1 = Some (r, s')"
      using Cons.prems by auto
    then show ?thesis using cand_one_frame Cons.IH reg_frame_trans by blast
  qed
qed

lemma scan_arrays_frame: "scan_arrays mc as acc s = Some (r, s') \<Longrightarrow> reg_frame s (s' :: 'z hreg_scheme)"
proof (induction as arbitrary: acc s)
  case Nil
  then show ?case by simp
next
  case (Cons a as)
  then obtain es acc1 s1 where "scan_elems mc es acc s = Some (acc1, s1)"
    "scan_arrays mc as acc1 s1 = Some (r, s')" by auto
  then show ?case using scan_elems_frame Cons.IH reg_frame_trans by blast
qed

lemma release_cand_frame: "release_cand c s = Some s' \<Longrightarrow> reg_frame s s'"
proof -
  assume r: "release_cand c s = Some s'"
  then obtain j where j: "is_jobj c s = Some j" by (auto simp: release_cand_def)
  show ?thesis
  proof (cases j)
    case False
    then show ?thesis using r j by (simp add: release_cand_def)
  next
    case True
    then obtain ob s1 b where s1: "(case obj_get ob ''id'' of
           Some f \<Rightarrow> if ftype f = CHR ''o'' \<and> fval f \<noteq> 0 then map_option snd (reg_release (fval f) s) else Some s
         | None \<Rightarrow> Some s) = Some s1" and c: "reg_release c s1 = Some (b, s')"
      using r j by (auto simp: release_cand_def)
    have "reg_frame s s1"
      using s1 reg_release_frame by (auto split: option.split_asm if_split_asm)
    then show ?thesis using reg_release_frame [OF c] reg_frame_trans by blast
  qed
qed

lemma release_cands_frame: "release_cands cs s = Some s' \<Longrightarrow> reg_frame s s'"
proof (induction cs arbitrary: s)
  case Nil
  then show ?case by simp
next
  case (Cons c cs)
  then obtain s1 where "release_cand c s = Some s1" "release_cands cs s1 = Some s'" by auto
  then show ?case using release_cand_frame Cons.IH reg_frame_trans by blast
qed

lemma release_pages_frame: "release_pages as s = Some s' \<Longrightarrow> reg_frame s s'"
proof (induction as arbitrary: s)
  case Nil
  then show ?case by simp
next
  case (Cons a as)
  then obtain es s1 b s2 where r: "release_cands es s = Some s1" "reg_release a s1 = Some (b, s2)"
    "release_pages as s2 = Some s'" by auto
  show ?case
    by (rule reg_frame_trans [OF release_cands_frame [OF r(1)]
          reg_frame_trans [OF reg_release_frame [OF r(2)] Cons.IH [OF r(3)]]])
qed

lemma fetch_batches_call:
  assumes "engine_ok eng" and g: "candidate_get_n eng = Some get_n" and "fetch_batches get_n it k s = Some (as, s')"
  shows "engine_call {it} s s'"
  using assms(3)
proof (induction k arbitrary: s as)
  case 0
  then show ?case by simp
next
  case (Suc k)
  obtain a s1 where n: "get_n it 10 s = (a, s1)" by fastforce
  have "engine_call {it} s (snd (get_n it 10 s))" using assms(1) g by (simp add: engine_ok_def)
  then have c: "engine_call {it} s s1" by (simp add: n)
  have "s' = s1 \<or> (\<exists>bs. fetch_batches get_n it k s1 = Some (bs, s'))"
    using Suc.prems n by (auto split: if_split_asm)
  then show ?case using c Suc.IH engine_call_trans by blast
qed

subsection \<open>Dropping, waiting and fetching\<close>

lemma drop_events_its:
  assumes "its_ok s"
  shows "mset (its (drop_events s)) = mset (its s)"
proof -
  have "ev_it e \<noteq> 0 \<and> ev_it e \<noteq> g_cur_it s" if "e \<in> set (cand_q s)" for e
    using assms imageI [OF that, of ev_it] by (auto simp: its_ok_def its_def split: if_split_asm)
  then have "concat (map (\<lambda>e. daemon_free_it (g_cur_it s) (ev_it e)) (cand_q s)) = map ev_it (cand_q s)"
    by (simp add: daemon_free_it_def concat_map_singleton cong: map_cong)
  then show ?thesis by (simp add: drop_events_def daemon_drop_events_def its_def)
qed

lemma wait_cand_its:
  assumes ok: "its_ok s" and w: "wait_cand cfg ex s = Some (it, s1)"
  shows "mset (its s) = mset (its s1) + (if it = 0 then {#} else {#it#})"
    and "s1 = s\<lparr>cand_q := [], obs := obs s1, dels := dels s1, leaked := leaked s1\<rparr>"
proof -
  let ?o = "passes (cand_q s) (obs s)"
  obtain w rest where d: "daemon_wait_cand ex 2500 (quiet_ms cfg) (g_cur_it s) (clk s) ?o = Some (w, rest)"
    and it: "it = w_best w" and s1: "s1 = s\<lparr>cand_q := [], obs := drop (length (obs s) - length rest) (obs s),
      dels := dels s @ w_dels w, leaked := leaked s @ overrun (cand_q s) (take (length (obs s) - length rest) (obs s))\<rparr>"
    using w by (auto simp: wait_cand_def Let_def)
  have ne: "obs s \<noteq> []" using d by (auto simp: daemon_wait_cand_def)
  have "set (handed ?o) \<subseteq> set (handed (obs s)) \<union> ev_it ` set (cand_q s)"
    using arg_cong [OF passes_mset [of "cand_q s" "obs s"], of set_mset] ne by auto
  then have z: "0 \<notin> set (handed ?o)" and cur: "g_cur_it s \<noteq> 0 \<Longrightarrow> g_cur_it s \<notin> set (handed ?o)"
    using ok by (auto simp: its_ok_def its_def split: if_split_asm)
  obtain used where u: "?o = used @ rest" "used \<noteq> []" "w_best w = (if handed used = [] then 0 else last (handed used))"
    "w_dels w = filter (\<lambda>i. i \<noteq> g_cur_it s) (butlast (handed used))"
    using wait_cand_accounted [OF d z] by (auto simp: accounted_def)
  let ?n = "length (obs s) - length rest"
  have n: "?n = length used" using arg_cong [OF u(1), of length] by simp
  then have used: "used = passes (cand_q s) (take ?n (obs s))" and ne': "take ?n (obs s) \<noteq> []"
    using arg_cong [OF u(1), of "take ?n"] u(2) ne by (simp_all add: passes_take)
  have hu: "handed ?o = handed used @ handed rest" by (simp add: u(1) handed_def)
  have "g_cur_it s \<notin> set (handed used)" using cur z hu by (cases "g_cur_it s = 0") auto
  then have dl: "w_dels w = butlast (handed used)"
    using u(4) by (auto simp: filter_id_conv dest: in_set_butlastD)
  have b0: "(it = 0) = (handed used = [])"
  proof (cases "handed used = []")
    case True
    then show ?thesis using u(3) it by simp
  next
    case False
    have "last (handed used) \<noteq> 0" using last_in_set [OF False] z hu by auto
    then show ?thesis using u(3) it False by simp
  qed
  have "mset (handed used) = mset (butlast (handed used)) + (if handed used = [] then {#} else {#last (handed used)#})"
    by (cases "handed used" rule: rev_cases) auto
  then have "mset (handed used) = mset (w_dels w) + (if it = 0 then {#} else {#it#})"
    using dl b0 it u(3) by simp
  moreover have "handed (obs s) = handed (take ?n (obs s)) @ handed (drop ?n (obs s))"
    by (metis append_take_drop_id concat_append handed_def map_append)
  moreover have "mset (handed used) + mset (overrun (cand_q s) (take ?n (obs s))) =
      mset (handed (take ?n (obs s))) + mset (map ev_it (cand_q s))"
    using passes_mset [of "cand_q s" "take ?n (obs s)"] ne' unfolding used [symmetric] by simp
  moreover have "handed [] = []" by (simp add: handed_def)
  ultimately show "mset (its s) = mset (its s1) + (if it = 0 then {#} else {#it#})"
    by (cases "it = 0") (simp_all add: its_def s1 ac_simps)
  show "s1 = s\<lparr>cand_q := [], obs := obs s1, dels := dels s1, leaked := leaked s1\<rparr>" by (simp add: s1)
qed

text \<open>The variables of the composition, the session and the replies.\<close>

definition same_comp :: "'z dstate_scheme \<Rightarrow> 'z dstate_scheme \<Rightarrow> bool" where
  "same_comp s s' \<longleftrightarrow> out s' = out s \<and> sent s' = sent s \<and> sent_known s' = sent_known s \<and> spans s' = spans s \<and>
     sid s' = sid s"

lemma same_compI:
  "engine_call X s s' \<Longrightarrow> same_comp s s'"
  by (simp add: same_comp_def engine_call_sel)

lemma same_comp_trans: "same_comp s s1 \<Longrightarrow> same_comp s1 s2 \<Longrightarrow> same_comp s s2"
  by (simp add: same_comp_def)

lemma fetch_cands_effect:
  fixes s :: "'z dstate_scheme"
  assumes e: "engine_ok eng" and it: "it \<noteq> 0" "it \<notin> set (its s)" "its_ok s"
    and f: "daemon_fetch_cands (candidate_get_n eng) mc it s = Some (n, s')"
  shows "same_comp s s' \<and> n = length (g_ct s') \<and>
    (\<exists>new. mset (its s') = mset (its s) + {#it#} + mset new \<and> distinct new \<and> 0 \<notin> set new \<and>
      set new \<inter> (set (its s) \<union> {it}) = {})"
proof (cases "candidate_get_n eng")
  case None
  have "g_cur_it s \<noteq> it" using it by (auto simp: its_def)
  then show ?thesis using f it(1) unfolding None
    by (intro conjI exI [of _ "[]"]) (auto simp: daemon_fetch_cands_def cid_copies_clear_def same_comp_def its_def)
next
  case (Some get_n)
  let ?s = "(cid_copies_clear s)\<lparr>g_ct := []\<rparr>"
  obtain as s1 cs s2 ps s4 where
    b: "fetch_batches get_n it (mc div 10) ?s = Some (as, s1)" and
    sc: "scan_arrays mc as [] s1 = Some (cs, s2)" and
    r: "(if dup_scan [] ps then Some (s2\<lparr>g_ct := cs\<rparr>) else release_pages as (s2\<lparr>g_ct := cs\<rparr>)) = Some s4" and
    s': "s' = s4\<lparr>dels := dels s4 @ (if g_cur_it s4 \<noteq> 0 \<and> g_cur_it s4 \<noteq> it then [g_cur_it s4] else []),
                    g_cur_it := it\<rparr>" "n = length (g_ct s4)"
    using f it(1) Some unfolding daemon_fetch_cands_def Let_def by auto
  have c: "engine_call {it} ?s s2"
    using fetch_batches_call [OF e Some b] reg_frame_call [OF scan_arrays_frame [OF sc]] engine_call_trans by blast
  have fr: "reg_frame (s2\<lparr>g_ct := cs\<rparr>) s4"
    using r release_pages_frame by (auto split: if_split_asm)
  note c4 = reg_frame_sel [OF fr]
  have same: "same_comp s s'"
    using engine_call_sel [OF c] c4 by (simp add: same_comp_def s' cid_copies_clear_def)
  obtain es where es: "cand_q s2 = queued_after (cand_q ?s) es" "leaked s2 = leaked ?s @ evicted (cand_q ?s) es"
    "distinct (map ev_it es)" "0 \<notin> set (map ev_it es)"
    "set (map ev_it es) \<inter> (set (its ?s) \<union> {it}) = {}" "mset (its s2) = mset (its ?s) + mset (map ev_it es)"
    using c by (rule engine_call_new)
  have is0: "its ?s = its s" by (simp add: its_def cid_copies_clear_def)
  have cur: "g_cur_it s4 = g_cur_it s" "g_cur_it s \<noteq> it"
    using c4 engine_call_sel [OF c] it by (auto simp: cid_copies_clear_def its_def)
  have "mset (its s') = mset (its s4) + {#it#}"
    using cur it(1) by (auto simp: s' its_def)
  also have "its s4 = its s2" using c4(11) by (simp add: its_def)
  finally have "mset (its s') = mset (its s) + {#it#} + mset (map ev_it es)" using es(6) is0 by simp
  moreover have "n = length (g_ct s')" by (simp add: s')
  ultimately show ?thesis using same es(3-5) is0 by metis
qed

lemma fetch_and_reply_effect:
  fixes s :: "'z dstate_scheme"
  assumes e: "engine_ok eng" and ok: "its_ok s" and f: "fetch_and_reply eng cfg k ex s = Some s'"
  shows "its_grow s s'"
    and "\<exists>r. r \<noteq> SKIP \<and> out s' = out s @ replicate k SKIP @ [r]"
    and "sent s' = sent s \<and> sent_known s' = sent_known s \<and> spans s' = spans s \<and> sid s' = sid s"
proof -
  obtain it s1 where w: "wait_cand cfg ex s = Some (it, s1)"
    using f by (auto simp: fetch_and_reply_def)
  note wi = wait_cand_its [OF ok w]
  have sc1: "same_comp s s1" by (subst wi(2)) (simp add: same_comp_def)
  obtain got s2 where g: "(if it \<noteq> 0 then map_option (apfst int)
        (daemon_fetch_cands (candidate_get_n eng) (max_cand cfg) it s1) else Some (- 1, s1)) = Some (got, s2)"
    and s': "s' = daemon_reply_cands got (spans s2) (s2\<lparr>out := out s2 @ replicate k SKIP\<rparr>)"
    using f w by (auto simp: fetch_and_reply_def)
  have grow: "its_grow s s2 \<and> same_comp s s2"
  proof (cases "it = 0")
    case True
    then show ?thesis using g wi(1) sc1 by (auto intro: its_growI)
  next
    case False
    then obtain n where n: "daemon_fetch_cands (candidate_get_n eng) (max_cand cfg) it s1 = Some (n, s2)"
      using g by auto
    have m: "mset (its s) = mset (its s1 @ [it])" using wi(1) False by simp
    have "distinct (its s1 @ [it])" and "0 \<notin> set (its s1 @ [it])" and set: "set (its s) = set (its s1 @ [it])"
      using ok mset_eq_imp_distinct_iff [OF m] mset_eq_setD [OF m] by (auto simp: its_ok_def)
    then have "it \<notin> set (its s1)" "its_ok s1" by (simp_all add: its_ok_def)
    from fetch_cands_effect [OF e False this n] obtain new where
      "same_comp s1 s2" "mset (its s2) = mset (its s1) + {#it#} + mset new" "distinct new" "0 \<notin> set new"
      "set new \<inter> (set (its s1) \<union> {it}) = {}" by auto
    moreover have "set (its s) = set (its s1) \<union> {it}" using set by auto
    ultimately show ?thesis using wi(1) False sc1 same_comp_trans by (auto simp: its_grow_def)
  qed
  have upd: "its (s\<lparr>out := x\<rparr>) = its s" for x and s :: "'z dstate_scheme" by (simp add: its_def)
  show "its_grow s s'" using grow by (auto simp: s' daemon_reply_cands_def reply_def its_grow_def upd)
  show "\<exists>r. r \<noteq> SKIP \<and> out s' = out s @ replicate k SKIP @ [r]"
    using grow by (auto simp: s' daemon_reply_cands_def reply_def same_comp_def)
  show "sent s' = sent s \<and> sent_known s' = sent_known s \<and> spans s' = spans s \<and> sid s' = sid s"
    using grow by (auto simp: s' daemon_reply_cands_def reply_def same_comp_def)
qed


subsection \<open>Typing keys\<close>

text \<open>What the daemon knows of the composition: the letters since the last reset, or nothing.\<close>

definition comp :: "'z dstate_scheme \<Rightarrow> string option" where
  "comp s = (if sent_known s then Some (sent s) else None)"

text \<open>Edits of the composition.\<close>

datatype edit = Type string | Cut nat | Forget | Reset | Keep

fun apply_edit :: "edit \<Rightarrow> string option \<Rightarrow> string option" where
  "apply_edit (Type cs) (Some t) = (if cs = [] \<or> length t + length cs < 256 then Some (t @ cs) else None)"
| "apply_edit (Type cs) None = None"
| "apply_edit (Cut n) c = map_option (drop n) c"
| "apply_edit Forget c = None"
| "apply_edit Reset c = Some []"
| "apply_edit Keep c = c"

lemma apply_edit_step:
  "apply_edit (Type cs) (apply_edit (Type [c]) x) = apply_edit (Type (c # cs)) x"
  by (cases x) auto

lemma push_sent_comp: "comp (push_sent c s) = apply_edit (Type [c]) (comp s)"
  by (simp add: comp_def push_sent_def)

lemma push_sent_sel [simp]:
  "its (push_sent c s) = its s" "out (push_sent c s) = out s" "spans (push_sent c s) = spans s"
  "sid (push_sent c s) = sid s"
  by (simp_all add: push_sent_def its_def)

lemma push_sent_len: "length (sent s) < 256 \<Longrightarrow> length (sent (push_sent c s)) < 256"
  by (simp add: push_sent_def)

lemma apply_edit_nil [simp]: "apply_edit (Type []) x = x"
  by (cases x) simp_all

lemma daemon_key_call: "engine_ok eng \<Longrightarrow> engine_call {} s (daemon_key eng sd op p s)"
  by (simp add: engine_ok_def daemon_key_def)

lemma send_keys_effect:
  assumes "engine_ok eng"
  shows "its_grow s (send_keys eng cs s) \<and> out (send_keys eng cs s) = out s \<and>
    spans (send_keys eng cs s) = spans s \<and> sid (send_keys eng cs s) = sid s \<and>
    comp (send_keys eng cs s) = apply_edit (Type cs) (comp s) \<and>
    (length (sent s) < 256 \<longrightarrow> length (sent (send_keys eng cs s)) < 256)"
proof (induction cs arbitrary: s)
  case Nil
  then show ?case by simp
next
  case (Cons c cs)
  let ?m = "daemon_key eng (sid s) CHR ''u'' [c] (daemon_key eng (sid s) CHR ''d'' [c] s)"
  have e: "engine_call {} s ?m"
    using engine_call_trans [OF daemon_key_call [OF assms] daemon_key_call [OF assms]] by blast
  note sel = engine_call_sel [OF e]
  have "its_grow s (push_sent c ?m)" using engine_call_grow [OF e] by (simp add: its_grow_def)
  moreover have "comp ?m = comp s" using sel by (simp add: comp_def)
  moreover have "length (sent s) < 256 \<Longrightarrow> length (sent (push_sent c ?m)) < 256"
    using sel push_sent_len [of ?m c] by simp
  ultimately show ?case
    using Cons.IH [of "push_sent c ?m"] sel its_grow_trans
    by (auto simp: push_sent_comp apply_edit_step simp del: apply_edit.simps(1))
qed

subsection \<open>One command\<close>

text \<open>The effect of a command on the iterators, the replies and the composition.\<close>

definition effect :: "reply list \<Rightarrow> edit \<Rightarrow> 'z dstate_scheme \<Rightarrow> 'z dstate_scheme \<Rightarrow> bool" where
  "effect rs e s s' \<longleftrightarrow> its_grow s s' \<and> out s' = out s @ rs \<and> comp s' = apply_edit e (comp s) \<and>
     (length (sent s) < 256 \<longrightarrow> length (sent s') < 256)"

text \<open>Exactly one reply, after one \<open>SKIP\<close> for each batch that was taken along.\<close>

definition answers :: "nat \<Rightarrow> reply list \<Rightarrow> bool" where
  "answers k rs \<longleftrightarrow> (\<exists>r. r \<noteq> SKIP \<and> rs = replicate k SKIP @ [r])"

lemma effect_reply: "effect [r] Keep s (reply r s)"
  by (simp add: effect_def reply_def its_def its_growI comp_def)

lemma answers_one [simp]: "answers 0 [r] \<longleftrightarrow> r \<noteq> SKIP"
  by (auto simp: answers_def)

lemma sweep_drop:
  assumes ok: "its_ok s" and r: "reg_sweep (drop_events s) = Some s1"
  shows "its_grow s s1" "its_ok s1" "same_comp s s1" "g_ct s1 = g_ct s"
proof -
  note f = reg_frame_sel [OF reg_sweep_frame [OF r]]
  have d: "g_ct (drop_events s) = g_ct s" "same_comp s (drop_events s)"
    by (simp_all add: drop_events_def daemon_drop_events_def same_comp_def)
  show g: "its_grow s s1" using drop_events_its [OF ok] f(11) by (simp add: its_growI)
  show "its_ok s1" by (rule its_grow_ok [OF g ok])
  show "same_comp s s1" "g_ct s1 = g_ct s" using f d by (simp_all add: same_comp_def)
qed

lemma its_upd [simp]:
  "its (s\<lparr>out := a\<rparr>) = its s" "its (s\<lparr>sent := b\<rparr>) = its s" "its (s\<lparr>sent_known := c\<rparr>) = its s"
  "its (s\<lparr>since_gc := d\<rparr>) = its s" "its (s\<lparr>sid := e\<rparr>) = its s" "its (s\<lparr>g_ct := f\<rparr>) = its s"
  "its (s\<lparr>last_iterator := g\<rparr>) = its s"
  for s :: "'z dstate_scheme"
  by (simp_all add: its_def)

lemma its_grow_same: "its s1 = its s2 \<Longrightarrow> its_grow s s1 = its_grow s s2"
  by (simp add: its_grow_def)

lemma cmd_batch_effect:
  assumes e: "engine_ok eng" and ok: "its_ok s" and b: "cmd_batch eng cfg single keys k s = Some s'"
  shows "\<exists>rs. answers k rs \<and>
    effect rs (if keys = [] \<or> sid s = 0 then Keep else Type (if single then take 1 keys else keys)) s s'"
proof (cases "keys = [] \<or> sid s = 0")
  case True
  then have "s' = s\<lparr>out := (out s @ replicate k SKIP) @ [EMPTY]\<rparr>" using b by (simp add: cmd_batch_def reply_def)
  then show ?thesis using True
    by (intro exI [of _ "replicate k SKIP @ [EMPTY]"])
      (simp add: answers_def effect_def comp_def its_def its_growI)
next
  case False
  let ?ks = "if single then take 1 keys else keys"
  obtain s1 s3 where s1: "reg_sweep (drop_events s) = Some s1"
    and s3: "fetch_and_reply eng cfg k (if sent_known (send_keys eng ?ks s1) then sent (send_keys eng ?ks s1) else [])
      (send_keys eng ?ks s1) = Some s3"
    and s': "s' = (case gc_sessions eng of
            Some gc \<Rightarrow>
              if gc_every cfg \<noteq> 0 then
                (let n = since_gc s3 + 1
                 in if gc_every cfg \<le> int n then (gc s3)\<lparr>since_gc := 0\<rparr> else s3\<lparr>since_gc := n\<rparr>)
              else s3
          | None \<Rightarrow> s3)"
    using b False unfolding cmd_batch_def Let_def by (auto simp del: send_keys.simps)
  let ?s2 = "send_keys eng ?ks s1"
  note d = sweep_drop [OF ok s1]
  note k = send_keys_effect [OF e, of s1 ?ks]
  have ok2: "its_ok ?s2" using its_grow_ok d(2) k by blast
  note f = fetch_and_reply_effect [OF e ok2 s3]
  obtain r where r: "r \<noteq> SKIP" "out s3 = out ?s2 @ replicate k SKIP @ [r]" using f(2) by blast
  have gc: "engine_call {} s3 (gc s3)" if "gc_sessions eng = Some gc" for gc
    using e that by (simp add: engine_ok_def)
  have n: "its_grow s3 (x\<lparr>since_gc := n\<rparr>) = its_grow s3 x" for x :: "'a dstate_scheme" and n
    by (rule its_grow_same) simp
  have last: "its_grow s3 s' \<and> out s' = out s3 \<and> sent s' = sent s3 \<and> sent_known s' = sent_known s3"
  proof (cases "gc_sessions eng")
    case None
    then show ?thesis by (simp add: s')
  next
    case (Some gf)
    then show ?thesis using engine_call_grow [OF gc] engine_call_sel [OF gc]
      by (simp add: s' n Let_def)
  qed
  have "its_grow s s'"
    using its_grow_trans [OF d(1)] its_grow_trans [OF _ f(1)] its_grow_trans k last by metis
  moreover have "out s' = out s @ replicate k SKIP @ [r]" using last r(2) k d(3) by (simp add: same_comp_def)
  moreover have "comp s' = comp ?s2" and "comp s1 = comp s"
    using last f(3) d(3) by (simp_all add: comp_def same_comp_def)
  then have "comp s' = apply_edit (Type ?ks) (comp s)" using k by simp
  moreover have "length (sent s) < 256 \<Longrightarrow> length (sent s') < 256"
    using last f(3) k d(3) by (simp add: same_comp_def)
  ultimately show ?thesis using False r(1)
    by (intro exI [of _ "replicate k SKIP @ [r]"]) (simp add: answers_def effect_def)
qed

text \<open>What selecting does to the composition.\<close>

definition sel_edit :: "string \<Rightarrow> 'z dstate_scheme \<Rightarrow> edit" where
  "sel_edit arg s =
     (let i = atoi arg in
      if i < 0 \<or> int (length (g_ct s)) \<le> i then Keep
      else let c = g_ct s ! nat i in
      if dc_id c = None then Keep
      else if spans s \<and> sent_known s \<and> 0 < dc_cover c \<and> dc_cover c < int (length (sent s)) then Cut (nat (dc_cover c))
      else Forget)"

lemma cmd_select_effect:
  assumes e: "engine_ok eng" and ok: "its_ok s" and b: "cmd_select eng cfg arg s = Some s'"
  shows "\<exists>rs. answers 0 rs \<and> effect rs (sel_edit arg s) s s'"
proof (cases "atoi arg < 0 \<or> int (length (g_ct s)) \<le> atoi arg \<or> dc_id (g_ct s ! nat (atoi arg)) = None")
  case True
  then have "s' = reply ERR s" and "sel_edit arg s = Keep"
    using b by (auto simp: cmd_select_def sel_edit_def Let_def split: if_split_asm)
  then show ?thesis using effect_reply [of ERR s] by (intro exI [of _ "[ERR]"]) simp
next
  case False
  let ?c = "g_ct s ! nat (atoi arg)"
  let ?p = "spans s \<and> sent_known s \<and> 0 < dc_cover ?c \<and> dc_cover ?c < int (length (sent s))"
  obtain i where i: "dc_id ?c = Some i" using False by auto
  have g0: "its_grow a (x\<lparr>sent := u, sent_known := v, out := w\<rparr>) = its_grow a x" for a x :: "'a dstate_scheme" and u v w
    by (rule its_grow_same) simp
  have sel: "sel_edit arg s = (if ?p then Cut (nat (dc_cover ?c)) else Forget)"
    using False by (auto simp: sel_edit_def Let_def)
  obtain s1 where s1: "reg_sweep (drop_events s) = Some s1"
    using b False i by (auto simp: cmd_select_def Let_def)
  let ?s2 = "select_candidate eng (sid s) (dc_text ?c) i s1"
  note d = sweep_drop [OF ok s1]
  have c: "engine_call {} s1 ?s2" using e by (simp add: engine_ok_def)
  note cs = engine_call_sel [OF c]
  have g: "its_grow s ?s2" using its_grow_trans [OF d(1) engine_call_grow [OF c]] .
  show ?thesis
  proof (cases ?p)
    case False
    then have "s' = reply OK (?s2\<lparr>sent := [], sent_known := False\<rparr>)"
      using b \<open>\<not> (atoi arg < 0 \<or> _)\<close> i s1 by (auto simp: cmd_select_def Let_def)
    then show ?thesis using g cs d(3) sel False
      by (intro exI [of _ "[OK]"])
        (simp add: effect_def reply_def comp_def same_comp_def g0)
  next
    case True
    let ?s3 = "?s2\<lparr>sent := drop (nat (dc_cover ?c)) (sent ?s2)\<rparr>"
    have f: "fetch_and_reply eng cfg 0 (sent ?s3) ?s3 = Some s'"
      using b \<open>\<not> (atoi arg < 0 \<or> _)\<close> i s1 True by (auto simp: cmd_select_def Let_def)
    have i3: "its ?s3 = its ?s2" by (simp add: its_def)
    have g3: "its_grow s ?s3" using g by (simp add: its_grow_def i3)
    note fe = fetch_and_reply_effect [OF e its_grow_ok [OF g3 ok] f]
    obtain r where "r \<noteq> SKIP" "out s' = out ?s3 @ replicate 0 SKIP @ [r]" using fe(2) by blast
    then show ?thesis using its_grow_trans [OF g3 fe(1)] fe(3) cs d(3) sel True
      by (intro exI [of _ "[r]"]) (auto simp: effect_def comp_def same_comp_def)
  qed
qed

lemma cmd_clear_effect:
  assumes e: "engine_ok eng" and ok: "its_ok s" and b: "cmd_clear eng s = Some s'"
  shows "effect [OK] Reset s s'"
proof -
  obtain s1 where s1: "reg_sweep (drop_events s) = Some s1" using b by (auto simp: cmd_clear_def)
  let ?s2 = "(cid_copies_clear s1)\<lparr>g_ct := []\<rparr>"
  let ?s3 = "?s2\<lparr>dels := dels ?s2 @ (if g_cur_it ?s2 \<noteq> 0 then [g_cur_it ?s2] else []), g_cur_it := 0\<rparr>"
  let ?d = "destroy_session eng (sid ?s3) ?s3"
  obtain sd s4 where s4: "create_session eng ?d = (sd, s4)" by fastforce
  have s': "s' = reply OK (s4\<lparr>sid := sd, g_ct := [], last_iterator := 0, sent := [], sent_known := True, since_gc := 0\<rparr>)"
    using b s1 s4 by (simp add: cmd_clear_def Let_def)
  note d = sweep_drop [OF ok s1]
  have "its_grow s1 ?s3" by (rule its_growI) (simp add: its_def cid_copies_clear_def)
  have c1: "engine_call {} ?s3 ?d" using e by (simp add: engine_ok_def)
  have "engine_call {} x (snd (create_session eng x))" for x using e by (simp add: engine_ok_def)
  from this [of ?d] have c2: "engine_call {} ?d s4" unfolding s4 by simp
  note c = engine_call_trans [OF c1 c2]
  have "its_grow s s4"
    using its_grow_trans [OF d(1) its_grow_trans [OF \<open>its_grow s1 ?s3\<close> engine_call_grow [OF c]]] .
  then have "its_grow s s'" by (simp add: s' reply_def its_grow_def)
  moreover have "out s4 = out s" using engine_call_sel [OF c] d(3) by (simp add: same_comp_def cid_copies_clear_def)
  ultimately show ?thesis by (simp add: s' effect_def reply_def comp_def)
qed

lemma cmd_export_effect:
  assumes e: "engine_ok eng"
  shows "\<exists>r. effect [OKX r] Keep s (cmd_export eng name s)"
proof -
  obtain r s1 where x: "call_export eng name (sid s) s = (r, s1)" by fastforce
  have "engine_call {} s (snd (call_export eng name (sid s) s))" using e by (simp add: engine_ok_def)
  then have c: "engine_call {} s s1" by (simp add: x)
  have "its_grow s (s1\<lparr>out := z\<rparr>)" for z using engine_call_grow [OF c] by (simp add: its_grow_def)
  then show ?thesis using engine_call_sel [OF c]
    by (intro exI [of _ r]) (simp add: cmd_export_def x effect_def reply_def comp_def)
qed

subsection \<open>What is fetched\<close>

lemma str_at_cong: "heap s = heap s' \<Longrightarrow> str_at p s = str_at p s'"
  by (simp add: str_at_def get_str_def)

lemma cand_text_cong: "heap s = heap s' \<Longrightarrow> cand_text c s = cand_text c s'"
  by (simp add: cand_text_def get_obj_def str_at_cong [of s s'] cong: option.case_cong if_cong)

lemma arr_elems_cong: "heap s = heap s' \<Longrightarrow> arr_elems p s = arr_elems p s'"
  by (simp add: arr_elems_def get_arr_def cong: if_cong option.case_cong)

text \<open>The texts of a list of candidates: those with a non-empty text, each cut to its buffer.\<close>

definition texts_of :: "u64 list \<Rightarrow> 'z hmem_scheme \<Rightarrow> string list" where
  "texts_of cs s = concat (map (\<lambda>c. case cand_text c s of
       Some (Some t) \<Rightarrow> if t = [] then [] else [snprintf_s 256 t] | _ \<Rightarrow> []) cs)"

lemma texts_of_simps [simp]:
  "texts_of [] s = []" "texts_of (cs @ ds) s = texts_of cs s @ texts_of ds s"
  by (simp_all add: texts_of_def)

lemma texts_of_cong: "heap s = heap s' \<Longrightarrow> texts_of cs s = texts_of cs s'"
  by (simp add: texts_of_def cand_text_cong [of s s'])

lemma malloc_tmp_heap: "malloc_tmp s = (ok, s') \<Longrightarrow> heap s' = heap s"
  by (auto simp: malloc_tmp_def split: list.split_asm)

lemma copy_id_heap: "copy_id idb s = Some (r, s') \<Longrightarrow> heap s' = heap s"
  by (cases "malloc_tmp s") (auto simp: copy_id_def malloc_tmp_heap Let_def
      split: option.split_asm if_split_asm hobj.split_asm)

lemma cand_one_text:
  assumes "cand_one c s = Some (r, s')"
  shows "heap s' = heap s" and "texts_of [c] s = (case r of None \<Rightarrow> [] | Some d \<Rightarrow> [dc_text d])"
proof -
  obtain t where t: "cand_text c s = Some t" using assms by (auto simp: cand_one_def)
  show "heap s' = heap s" and "texts_of [c] s = (case r of None \<Rightarrow> [] | Some d \<Rightarrow> [dc_text d])"
    using assms copy_id_heap
    by (auto simp: cand_one_def texts_of_def t split: option.split_asm if_split_asm)
qed

lemma scan_elems_texts:
  "scan_elems mc cs acc s = Some (r, s') \<Longrightarrow> heap s' = heap s \<and>
     map dc_text r = map dc_text acc @ take (mc - length acc) (texts_of cs s)"
proof (induction cs arbitrary: acc s)
  case Nil
  then show ?case by simp
next
  case (Cons c cs)
  show ?case
  proof (cases "mc \<le> length acc")
    case True
    then show ?thesis using Cons.prems by simp
  next
    case False
    then obtain d s1 where d: "cand_one c s = Some (d, s1)"
      and r: "scan_elems mc cs (case d of None \<Rightarrow> acc | Some x \<Rightarrow> acc @ [x]) s1 = Some (r, s')"
      using Cons.prems by auto
    have h: "heap s1 = heap s" and t: "texts_of [c] s = (case d of None \<Rightarrow> [] | Some x \<Rightarrow> [dc_text x])"
      using cand_one_text [OF d] by simp_all
    have "texts_of (c # cs) s = texts_of [c] s @ texts_of cs s" using texts_of_simps(2) [of "[c]" cs s] by simp
    moreover have "texts_of cs s1 = texts_of cs s" by (rule texts_of_cong [OF h])
    moreover have "mc - length acc = Suc (mc - Suc (length acc))" using False by simp
    ultimately show ?thesis using Cons.IH [OF r] h t by (cases d) simp_all
  qed
qed

lemma scan_arrays_texts:
  "scan_arrays mc as acc s = Some (r, s') \<Longrightarrow> heap s' = heap s \<and>
     (\<exists>ps. map (\<lambda>a. arr_elems a s) as = map Some ps \<and>
        map dc_text r = map dc_text acc @ take (mc - length acc) (texts_of (concat ps) s))"
proof (induction as arbitrary: acc s)
  case Nil
  then show ?case by (intro conjI exI [of _ "[]"]) simp_all
next
  case (Cons a as)
  then obtain es acc1 s1 where es: "arr_elems a s = Some es" and sc: "scan_elems mc es acc s = Some (acc1, s1)"
    and r: "scan_arrays mc as acc1 s1 = Some (r, s')" by auto
  note e = scan_elems_texts [OF sc]
  from Cons.IH [OF r] obtain ps where ps: "heap s' = heap s1" "map (\<lambda>a. arr_elems a s1) as = map Some ps"
    "map dc_text r = map dc_text acc1 @ take (mc - length acc1) (texts_of (concat ps) s1)" by blast
  have ae: "(\<lambda>a. arr_elems a s1) = (\<lambda>a. arr_elems a s)" using arr_elems_cong e by blast
  have te: "texts_of (concat ps) s1 = texts_of (concat ps) s" using texts_of_cong e by blast
  have len: "length acc1 = length acc + min (length (texts_of es s)) (mc - length acc)"
    using arg_cong [OF conjunct2 [OF e], of length] by simp
  then have "take (mc - length acc) (texts_of (concat (es # ps)) s) =
      take (mc - length acc) (texts_of es s) @ take (mc - length acc1) (texts_of (concat ps) s)"
    by (cases "length (texts_of es s) \<le> mc - length acc") simp_all
  then show ?case using e ps ae te es by (intro conjI exI [of _ "es # ps"]) auto
qed

lemma snprintf_s_len: "length (snprintf_s (Suc n) t) \<le> n"
  by (simp add: snprintf_s_def)

lemma texts_of_len: "t \<in> set (texts_of cs s) \<Longrightarrow> t \<noteq> [] \<and> length t \<le> 255"
  using snprintf_s_len [of 255]
  by (auto simp: texts_of_def snprintf_s_def split: option.split_asm if_split_asm)

lemma max_cand_of_range: "10 \<le> max_cand_of e \<and> max_cand_of e \<le> 72"
  by (auto simp: max_cand_of_def MAX_CAND_def Let_def nat_le_iff le_nat_iff split: option.split)

text \<open>C25. The fetched candidates. The limit is the value of \<open>WETYPE_MAX_CAND\<close>, at least 10 and at most 72,
  and 72 without it. With it, the engine is asked for as many full pages of ten, and the candidates kept
  are the first so many of the non-empty texts of the pages that were read, in page order; every
  kept text is non-empty and fits its buffer of 256 bytes, so no table of the daemon overflows,
  and the reported number is the number kept.\<close>

theorem fetched_candidates:
  fixes s :: "'z dstate_scheme"
  assumes "daemon_fetch_cands (Some get_n) (max_cand_of e) it s = Some (n, s')" and "it \<noteq> 0"
    and "limit = (case e of None \<Rightarrow> 72 | Some v \<Rightarrow> nat (max 10 (min 72 v)))"
  shows "10 \<le> limit \<and> limit \<le> 72 \<and> n = length (g_ct s') \<and> n \<le> limit \<and> g_cur_it s' = it \<and>
    (\<forall>c \<in> set (g_ct s'). dc_text c \<noteq> [] \<and> length (dc_text c) < 256) \<and>
    (\<exists>as s1 ps. fetch_batches get_n it (limit div 10) ((cid_copies_clear s)\<lparr>g_ct := []\<rparr>) = Some (as, s1) \<and>
       map (\<lambda>a. arr_elems a s1) as = map Some ps \<and>
       map dc_text (g_ct s') = take limit (texts_of (concat ps) s1))"
proof -
  let ?mc = "max_cand_of e" and ?s = "(cid_copies_clear s)\<lparr>g_ct := []\<rparr>"
  have lim: "?mc = limit" by (auto simp: assms(3) max_cand_of_def MAX_CAND_def Let_def split: option.split)
  have range: "10 \<le> limit \<and> limit \<le> 72" by (auto simp: assms(3) nat_le_iff le_nat_iff split: option.split)
  obtain as s1 cs s2 ps0 s4 where
    b: "fetch_batches get_n it (?mc div 10) ?s = Some (as, s1)" and
    sc: "scan_arrays ?mc as [] s1 = Some (cs, s2)" and
    r: "(if dup_scan [] ps0 then Some (s2\<lparr>g_ct := cs\<rparr>) else release_pages as (s2\<lparr>g_ct := cs\<rparr>)) = Some s4" and
    s': "g_ct s' = g_ct s4" "g_cur_it s' = it" "n = length (g_ct s4)"
    using assms(1,2) unfolding daemon_fetch_cands_def Let_def by auto
  have "reg_frame (s2\<lparr>g_ct := cs\<rparr>) s4" using r release_pages_frame by (auto split: if_split_asm)
  then have g: "g_ct s4 = cs" using reg_frame_sel(9) by fastforce
  from scan_arrays_texts [OF sc] obtain ps where ps: "map (\<lambda>a. arr_elems a s1) as = map Some ps"
    "map dc_text cs = take ?mc (texts_of (concat ps) s1)" by auto
  have "length cs \<le> ?mc" using arg_cong [OF ps(2), of length] by simp
  then have "n \<le> limit" using s' g by (simp add: lim)
  moreover have "dc_text c \<noteq> [] \<and> length (dc_text c) < 256" if "c \<in> set cs" for c
  proof -
    have "dc_text c \<in> set (map dc_text cs)" using that by simp
    then have "dc_text c \<in> set (texts_of (concat ps) s1)" unfolding ps(2) by (rule in_set_takeD)
    from texts_of_len [OF this] show ?thesis by simp
  qed
  ultimately show ?thesis using range
    by (intro conjI exI [of _ as] exI [of _ s1] exI [of _ ps]) (auto simp: s' g b [unfolded lim] ps [unfolded lim])
qed

text \<open>A concrete daemon, for the examples.\<close>

definition sample_daemon :: dstate where
  "sample_daemon = \<lparr>heap = Map.empty, answers = [0x1000], clk = 0, slots = [], regn = 0, regcap = 0, keep_from = 0,
     gc_grace = 3000, gc_off = False, gc_freed = 0, pin_calls = 0, last_bytes = 0,
     clsreg = [], tokens = [], lit_empty = 0, empty_arr = 0, empty_str = 0, auto_objs = [],
     daemon_mode = True, cb_count = 0, cand_q = [], pi_acc = [], pi_last = [], pi_have = False, pend_it = 0,
     pend_known = False, pend_input = [], last_iterator = 0,
     g_ct = [], g_cur_it = 0, dels = [], leaked = [], out = [],
     sid = 1, sent = [], sent_known = True, spans = False, since_gc = 0,
     obs = [([\<lparr>ev_it = 0x2, ev_known = True, ev_input = ''ni''\<rparr>], 10)]\<rparr>"

definition page_blocks :: "(u64 \<times> hobj) list" where
  "page_blocks =
     [(0x100, HArr \<lparr>aelem = 0x108, alen = 2\<rparr>),
      (0x108, HVec [0x110, 0x120]),
      (0x110, HObj \<lparr>jmagic = JO_MAGIC, jcls = ''Candidate'',
         jfields = [\<lparr>fname = ''text'', ftype = CHR ''s'', fowned = True, fval = 0x118\<rparr>]\<rparr>),
      (0x118, HStr ''hao''),
      (0x120, HObj \<lparr>jmagic = JO_MAGIC, jcls = ''Candidate'', jfields = []\<rparr>)]"

lemma daemon_fetch_candsI:
  "it \<noteq> 0 \<Longrightarrow> fetch_batches get_n it (mc div 10) ((cid_copies_clear s)\<lparr>g_ct := []\<rparr>) = Some (as, s1) \<Longrightarrow>
   scan_arrays mc as [] s1 = Some (cs, s2) \<Longrightarrow> page_ptrs as (s2\<lparr>g_ct := cs\<rparr>) = Some ps \<Longrightarrow>
   (if dup_scan [] ps then Some (s2\<lparr>g_ct := cs\<rparr>) else release_pages as (s2\<lparr>g_ct := cs\<rparr>)) = Some s4 \<Longrightarrow>
   \<exists>s'. daemon_fetch_cands (Some get_n) mc it s = Some (length (g_ct s4), s')"
  by (simp add: daemon_fetch_cands_def Let_def split: if_split_asm)

theorem fetched_candidates_witness:
  "\<exists>s'. daemon_fetch_cands (Some (\<lambda>_ _ s. (0x100, s))) (max_cand_of (Some 5)) 0x2
     (sample_daemon\<lparr>heap := map_of page_blocks\<rparr>) = Some (1, s') \<and> length (g_ct s') = 1 \<and> g_cur_it s' = 0x2"
proof -
  let ?s = "sample_daemon\<lparr>heap := map_of page_blocks\<rparr>"
  let ?c = "\<lparr>dc_text = ''hao'', dc_id = None, dc_cover = 0\<rparr>"
  have m: "max_cand_of (Some 5) = 10" by (simp add: max_cand_of_def MAX_CAND_def)
  have s0: "g_ct ?s = []" "heap ?s = map_of page_blocks" "active ?s = []" "g_cur_it ?s = 0"
    by (simp_all add: sample_daemon_def active_def)
  have ar: "get_arr 0x100 ?s = Some \<lparr>aelem = 0x108, alen = 2\<rparr>"
    by (simp only: get_arr_def s0) (simp add: page_blocks_def)
  have fb: "fetch_batches (\<lambda>_ _ s. (0x100, s)) 0x2 (10 div 10) ?s = Some ([0x100], ?s)" using ar by simp
  have el: "arr_elems 0x100 ?s = Some [0x110, 0x120]"
    using ar by (simp only: arr_elems_def s0) (simp add: page_blocks_def)
  have t1: "cand_one 0x110 ?s = Some (Some ?c, ?s)" and t2: "cand_one 0x120 ?s = Some (None, ?s)"
    by (simp_all only: cand_one_def cand_text_def get_obj_def str_at_def get_str_def s0)
      (simp_all add: page_blocks_def obj_get_def cand_id_def copy_id_def cand_cover_def snprintf_s_def)
  have sc: "scan_arrays 10 [0x100] [] ?s = Some ([?c], ?s)" using el t1 t2 by simp
  let ?kept = "?s\<lparr>g_ct := [?c]\<rparr>"
  have el3: "arr_elems 0x100 ?kept = Some [0x110, 0x120]" using arr_elems_cong [where s = ?kept and s' = ?s and p = "0x100"] el by simp
  have j: "is_jobj 0x110 ?kept = Some True" "is_jobj 0x120 ?kept = Some True"
    "get_obj 0x110 ?kept = Some \<lparr>jmagic = JO_MAGIC, jcls = ''Candidate'',
       jfields = [\<lparr>fname = ''text'', ftype = CHR ''s'', fowned = True, fval = 0x118\<rparr>]\<rparr>"
    "get_obj 0x120 ?kept = Some \<lparr>jmagic = JO_MAGIC, jcls = ''Candidate'', jfields = []\<rparr>"
    by (simp_all add: is_jobj_def get_obj_def page_blocks_def sample_daemon_def)
  have rel: "reg_release p ?kept = Some (False, ?kept)" for p
    by (simp add: reg_release_def reg_find_locked_def active_def sample_daemon_def)
  have rp: "release_pages [0x100] ?kept = Some ?kept"
    using j rel exI [of Not False] exI [of "\<lambda>x. x" True] by (simp add: el3 release_cand_def obj_get_def)
  have pp: "page_ptrs [0x100] ?kept = Some [0x110, 0x120, 0x100]" by (simp add: el3)
  have dup: "(if dup_scan [] [0x110, 0x120, 0x100] then Some ?kept else release_pages [0x100] ?kept) = Some ?kept"
    using rp by (simp add: MAX_CAND_def del: release_pages.simps)
  have "(cid_copies_clear ?s)\<lparr>g_ct := []\<rparr> = ?s" by (simp add: cid_copies_clear_def sample_daemon_def)
  then have fb': "fetch_batches (\<lambda>_ _ s. (0x100, s)) 0x2 (10 div 10) ((cid_copies_clear ?s)\<lparr>g_ct := []\<rparr>) = Some ([0x100], ?s)"
    using fb by (simp only:)
  have "\<exists>s'. daemon_fetch_cands (Some (\<lambda>_ _ s. (0x100, s))) (max_cand_of (Some 5)) 0x2 ?s = Some (1, s')"
    using daemon_fetch_candsI [OF _ fb' sc pp dup] unfolding m by simp
  then obtain s' where f: "daemon_fetch_cands (Some (\<lambda>_ _ s. (0x100, s))) (max_cand_of (Some 5)) 0x2 ?s = Some (1, s')"
    by blast
  from fetched_candidates [OF f _ refl] f show ?thesis by (intro exI [of _ s']) simp
qed

end
