(* ===== verification/Daemon_Runs.thy ===== *)
theory Daemon_Runs
  imports Daemon_Props
begin

text \<open>
  Whole runs of the daemon: what the loop over queued batches takes from the input, one reply
  for every line, the fuel of the loop.
\<close>

subsection \<open>Coalescing and the lines of the input\<close>

definition input_lines :: "bytes list \<Rightarrow> bytes" where
  "input_lines ls = concat (map (\<lambda>l. l @ [NL]) ls)"

definition lines_ok :: "bytes list \<Rightarrow> bool" where
  "lines_ok ls \<longleftrightarrow> (\<forall>l \<in> set ls. NL \<notin> set l \<and> length l < 512)"

lemma input_lines_simps [simp]:
  "input_lines [] = []" "input_lines (l # ls) = l @ NL # input_lines ls"
  by (simp_all add: input_lines_def)

lemma lines_ok_simps [simp]:
  "lines_ok []" "lines_ok (l # ls) \<longleftrightarrow> NL \<notin> set l \<and> length l < 512 \<and> lines_ok ls"
  by (auto simp: lines_ok_def)

lemma lines_ok_drop: "lines_ok ls \<Longrightarrow> lines_ok (drop n ls)"
  by (auto simp: lines_ok_def dest: in_set_dropD)

text \<open>The keys of the batches taken along, cut to the buffer.\<close>

definition join_keys :: "string \<Rightarrow> bytes list \<Rightarrow> string" where
  "join_keys keys ls = foldl (\<lambda>k l. take 511 (k @ drop 2 (c_string l))) keys ls"

lemma first_line_buffered:
  assumes "stream s = l @ NL # rest" and "length l < 512"
  shows "NL \<in> set (take IN_CAP (stream s))"
  using assms by (simp add: IN_CAP_def take_Cons')

lemma next_is_batch_end:
  assumes "in_ok s" and "stream s = []" and "cmd_next_is_batch s = (b, s')"
  shows "\<not> b" and "in_ok s'" and "stream s' = []"
proof -
  have "g_in s = []" and "concat (chunks s) = []" using assms(2) by (simp_all add: stream_def)
  moreover have "chunks s = []" using assms(1) \<open>concat (chunks s) = []\<close> by (cases "chunks s") (auto simp: in_ok_def)
  moreover obtain r s1 where f: "cmd_fill False s = (r, s1)" by fastforce
  ultimately have "fill_line s = (False, s1)" and "g_in s1 = []" and "chunks s1 = []"
    by (auto simp: fill_line.simps [of s] cmd_fill_def Let_def IN_CAP_def split: if_split_asm)
  then show "\<not> b" and "in_ok s'" and "stream s' = []"
    using assms(3) by (auto simp: cmd_next_is_batch_def in_ok_def stream_def)
qed

lemma coalesce_lines:
  assumes "in_ok inp" and "stream inp = input_lines ls" and "lines_ok ls"
  shows "\<exists>m inp'. coalesce keys k inp = (join_keys keys (take m ls), k + m, inp') \<and> m \<le> length ls \<and>
    (\<forall>l \<in> set (take m ls). take 2 l = ''B '') \<and> in_ok inp' \<and> stream inp' = input_lines (drop m ls)"
  using assms
proof (induction ls arbitrary: keys k inp)
  case Nil
  obtain b inp1 where n: "cmd_next_is_batch inp = (b, inp1)" by fastforce
  note e = next_is_batch_end [OF Nil(1) _ n]
  show ?case using Nil e n by (subst coalesce.simps) (auto simp: join_keys_def)
next
  case (Cons l ls)
  show ?case
  proof (cases "length keys + 64 < 512")
    case False
    then have "coalesce keys k inp = (keys, k, inp)" by (subst coalesce.simps) simp
    then show ?thesis using Cons.prems by (intro exI [of _ 0] exI [of _ inp]) (simp add: join_keys_def)
  next
    case len: True
    obtain b inp1 where n: "cmd_next_is_batch inp = (b, inp1)" by fastforce
    have st: "stream inp = l @ NL # input_lines ls" using Cons.prems(2) by simp
    have nl: "NL \<notin> set l" "length l < 512" using Cons.prems(3) by simp_all
    have i1: "in_ok inp1" "stream inp1 = stream inp"
      using next_is_batch_stream [OF Cons.prems(1) n] first_line_buffered [OF st nl(2)] by simp_all
    show ?thesis
    proof (cases b)
      case False
      then have "coalesce keys k inp = (keys, k, inp1)" using len n by (subst coalesce.simps) simp
      then show ?thesis using Cons.prems i1 by (intro exI [of _ 0] exI [of _ inp1]) (simp add: join_keys_def)
    next
      case True
      with n next_is_batch_yes [OF Cons.prems(1)] obtain l' r where
        g: "g_in inp1 = (''B '' @ l') @ NL # r" and l': "NL \<notin> set l'" by auto
      then have nb: "NL \<notin> set (''B '' @ l')" by (simp add: NL_def)
      have "(''B '' @ l') @ NL # (r @ concat (chunks inp1)) = l @ NL # input_lines ls"
        using g i1(2) st by (simp add: stream_def)
      then have "''B '' @ l' = l" and r: "r @ concat (chunks inp1) = input_lines ls"
        using takeWhile_line [OF nb] takeWhile_line [OF nl(1)] by (metis, metis append_same_eq list.inject same_append_eq)
      let ?inp2 = "inp1\<lparr>g_in := r\<rparr>"
      have "take (512 - 1) (''B '' @ l') = l" unfolding \<open>''B '' @ l' = l\<close> using nl(2) by simp
      then have rd: "cmd_read 512 False inp1 = (Some l, ?inp2)"
        using cmd_read_buffered [OF g nb, of 512 False] by (simp del: take_append)
      have i2: "in_ok ?inp2" "stream ?inp2 = input_lines ls"
        using i1(1) g r by (simp_all add: in_ok_def stream_def)
      let ?keys = "take 511 (keys @ drop 2 (c_string l))"
      from Cons.IH [OF i2, of ?keys "Suc k"] Cons.prems(3) obtain m inp' where
        m: "coalesce ?keys (Suc k) ?inp2 = (join_keys ?keys (take m ls), Suc k + m, inp')" "m \<le> length ls"
          "\<forall>l \<in> set (take m ls). take 2 l = ''B ''" "in_ok inp'" "stream inp' = input_lines (drop m ls)"
        by auto
      have "coalesce keys k inp = coalesce ?keys (Suc k) ?inp2"
        using len n True rd by (subst coalesce.simps) simp
      then show ?thesis using m \<open>''B '' @ l' = l\<close>
        by (intro exI [of _ "Suc m"] exI [of _ inp']) (auto simp: join_keys_def)
    qed
  qed
qed

subsection \<open>One line\<close>

definition line_skips :: "string \<Rightarrow> cmd_in \<Rightarrow> nat" where
  "line_skips line inp = (if take 2 line = ''B '' then fst (snd (coalesce (drop 2 line) 0 inp)) else 0)"

definition line_rest :: "string \<Rightarrow> cmd_in \<Rightarrow> cmd_in" where
  "line_rest line inp = (if take 2 line = ''B '' then snd (snd (coalesce (drop 2 line) 0 inp)) else inp)"

text \<open>What a line does to the composition.\<close>

definition line_edit :: "'z dstate_scheme engine \<Rightarrow> string \<Rightarrow> cmd_in \<Rightarrow> 'z dstate_scheme \<Rightarrow> edit" where
  "line_edit eng line inp s =
     (let typed = (\<lambda>keys. if sid s = 0 then Keep else Type keys) in
      if take 2 line = ''L '' then typed (take 1 (drop 2 line))
      else if take 2 line = ''B '' then typed (fst (coalesce (drop 2 line) 0 inp))
      else if hd line = CHR ''S'' \<and> line \<noteq> ''SAVE'' then sel_edit (tl line) s
      else if line = ''C'' \<and> has_sessions eng then Reset
      else Keep)"

lemma effect_mono: "effect rs e s s' \<Longrightarrow> (\<And>x. apply_edit e x = apply_edit e' x) \<Longrightarrow> effect rs e' s s'"
  by (simp add: effect_def)

lemma line_effect:
  assumes e: "engine_ok eng" and ok: "its_ok s" and l: "line \<noteq> []"
    and d: "daemon_line eng cfg line inp s = Some (Next inp' s')"
  shows "inp' = line_rest line inp \<and>
    (\<exists>rs. answers (line_skips line inp) rs \<and> effect rs (line_edit eng line inp s) s s')"
proof -
  have one: "\<exists>rs. answers 0 rs \<and> effect rs Keep s (reply r s)" if "r \<noteq> SKIP" for r
    using effect_reply [of r s] that by (intro exI [of _ "[r]"]) simp
  consider (ping) "line = ''PING''" | (x) "take 2 line = ''X ''" | (opt) "line = ''OPT spans''" | (save) "line = ''SAVE''"
    | (lk) "take 2 line = ''L ''" | (bk) "take 2 line = ''B ''"
    | (sk) "hd line = CHR ''S''" "line \<noteq> ''SAVE''"
    | (c) "line = ''C''" "has_sessions eng"
    | (other) "line \<noteq> ''PING''" "take 2 line \<noteq> ''X ''" "line \<noteq> ''OPT spans''" "line \<noteq> ''SAVE''"
        "take 2 line \<noteq> ''L ''" "take 2 line \<noteq> ''B ''" "hd line \<noteq> CHR ''S''" "\<not> (line = ''C'' \<and> has_sessions eng)"
    by blast
  then show ?thesis
  proof cases
    case ping
    then have "inp' = inp" "s' = reply PONG s" using d by (simp_all add: daemon_line_def)
    then show ?thesis using ping one by (simp add: line_rest_def line_skips_def line_edit_def)
  next
    case x
    then have h: "line \<noteq> ''Q''" "line \<noteq> ''PING''" "hd line = CHR ''X''" "line \<noteq> ''C''"
      using l by (auto simp: take_Suc_conv_app_nth neq_Nil_conv)
    have i: "inp' = inp" "s' = cmd_export eng (drop 2 line) s" using d x h by (simp_all add: daemon_line_def)
    obtain r where "effect [OKX r] Keep s s'" using cmd_export_effect [OF e] i(2) by blast
    then show ?thesis using x h i by (auto simp: line_rest_def line_skips_def line_edit_def intro!: exI [of _ "[OKX r]"])
  next
    case opt
    then have "inp' = inp" "s' = reply OK (s\<lparr>spans := True\<rparr>)" using d by (simp_all add: daemon_line_def)
    moreover have "effect [OK] Keep s (reply OK (s\<lparr>spans := True\<rparr>))"
      by (simp add: effect_def reply_def its_def its_growI comp_def)
    ultimately show ?thesis using opt
      by (auto simp: line_rest_def line_skips_def line_edit_def intro!: exI [of _ "[OK]"])
  next
    case save
    then have "inp' = inp" "s' = reply OK s" using d by (simp_all add: daemon_line_def)
    then show ?thesis using save one by (simp add: line_rest_def line_skips_def line_edit_def)
  next
    case lk
    then obtain z where z: "line = CHR ''L'' # CHR '' '' # z" by (cases line; cases "tl line") auto
    then have i: "inp' = inp" "cmd_batch eng cfg True z 0 s = Some s'" using d by (auto simp: daemon_line_def)
    from cmd_batch_effect [OF e ok i(2)] obtain rs where
      "answers 0 rs" "effect rs (if z = [] \<or> sid s = 0 then Keep else Type (take 1 z)) s s'" by (auto simp only: if_True)
    then show ?thesis using i(1) z
      by (intro conjI exI [of _ rs])
        (auto simp: line_rest_def line_skips_def line_edit_def Let_def split: if_split_asm elim: effect_mono)
  next
    case bk
    then obtain z where z: "line = CHR ''B'' # CHR '' '' # z" by (cases line; cases "tl line") auto
    obtain ks n i2 where co: "coalesce z 0 inp = (ks, n, i2)" by (cases "coalesce z 0 inp")
    have i: "inp' = i2" "cmd_batch eng cfg False ks n s = Some s'" using d z co by (auto simp: daemon_line_def)
    from cmd_batch_effect [OF e ok i(2)] obtain rs where
      "answers n rs" "effect rs (if ks = [] \<or> sid s = 0 then Keep else Type ks) s s'" by (auto simp only: if_False)
    then show ?thesis using i(1) z co
      by (intro conjI exI [of _ rs])
        (auto simp: line_rest_def line_skips_def line_edit_def Let_def split: if_split_asm elim: effect_mono)
  next
    case sk
    then obtain z where z: "line = CHR ''S'' # z" using l by (cases line) auto
    have i: "inp' = inp" "cmd_select eng cfg z s = Some s'" using d z sk by (auto simp: daemon_line_def)
    from cmd_select_effect [OF e ok i(2)] show ?thesis using i(1) z sk
      by (simp add: line_rest_def line_skips_def line_edit_def)
  next
    case c
    then have i: "inp' = inp" "cmd_clear eng s = Some s'" using d by (auto simp: daemon_line_def)
    from cmd_clear_effect [OF e ok i(2)] show ?thesis using i(1) c
      by (intro conjI exI [of _ "[OK]"]) (simp_all add: line_rest_def line_skips_def line_edit_def)
  next
    case other
    then have "line \<noteq> ''Q''" using d by (auto simp: daemon_line_def)
    then have i: "inp' = inp" "s' = reply ERR s" using d other by (auto simp: daemon_line_def)
    have "line_edit eng line inp s = Keep" using other unfolding line_edit_def Let_def by simp
    then show ?thesis using i other one by (simp add: line_rest_def line_skips_def)
  qed
qed

subsection \<open>Runs\<close>

definition start :: "'z dstate_scheme \<Rightarrow> 'z dstate_scheme" where
  "start s = reply READY (s\<lparr>keep_from := regn s, sent := [], sent_known := True, spans := False, since_gc := 0\<rparr>)"

lemma run_daemon_start: "run_daemon eng cfg inp s = daemon_loop (Suc (length (stream inp))) eng cfg inp (start s)"
  by (simp add: run_daemon_def start_def)

lemma start_sel [simp]: "its (start s) = its s" "its_ok (start s) = its_ok s" "out (start s) = out s @ [READY]"
  "comp (start s) = Some []" "sent (start s) = []"
  by (simp_all add: start_def reply_def its_def its_ok_def comp_def)

lemma line_not_quit: "daemon_line eng cfg line inp s = Some (Next inp' s') \<Longrightarrow> line \<noteq> ''Q''"
  by (auto simp: daemon_line_def)

lemma line_quit: "daemon_line eng cfg line inp s = Some (Quit s') \<Longrightarrow> line = ''Q'' \<and> s' = s"
  by (auto simp: daemon_line_def Let_def split: if_split_asm prod.split_asm)


text \<open>Where every iterator is in the end: deleted, in the queue, not arrived yet, or dropped.\<close>

definition whereabouts :: "'z dstate_scheme \<Rightarrow> u64 list" where
  "whereabouts s = dels s @ map ev_it (cand_q s) @ handed (obs s) @ leaked s"

lemma exit_effect:
  assumes e: "engine_ok eng" and ok: "its_ok s"
  shows "distinct (whereabouts (daemon_exit eng s))" and "0 \<notin> set (whereabouts (daemon_exit eng s))"
    and "set (its s) \<subseteq> set (whereabouts (daemon_exit eng s))"
    and "out (daemon_exit eng s) = out s @ [BYE]"
proof -
  let ?s2 = "cid_copies_clear (s\<lparr>dels := dels s @ (if g_cur_it s \<noteq> 0 then [g_cur_it s] else [])\<rparr>)"
  let ?s3 = "if 0 < sint (sid ?s2) \<and> has_sessions eng then destroy_session eng (sid ?s2) ?s2 else ?s2"
  have x: "daemon_exit eng s = reply BYE ?s3" by (simp add: daemon_exit_def Let_def)
  have c: "engine_call {} ?s2 ?s3" using e by (simp add: engine_ok_def)
  obtain es where es: "cand_q ?s3 = queued_after (cand_q ?s2) es" "leaked ?s3 = leaked ?s2 @ evicted (cand_q ?s2) es"
    "distinct (map ev_it es)" "0 \<notin> set (map ev_it es)" "set (map ev_it es) \<inter> (set (its ?s2) \<union> {}) = {}"
    using c by (rule engine_call_new)
  have "dels (daemon_exit eng s) = dels s @ (if g_cur_it s \<noteq> 0 then [g_cur_it s] else [])" "obs (daemon_exit eng s) = obs s"
    unfolding x using engine_call_sel [OF c] by (simp_all add: reply_def cid_copies_clear_def)
  moreover have "cand_q (daemon_exit eng s) = queued_after (cand_q s) es" "leaked (daemon_exit eng s) = leaked s @ evicted (cand_q s) es"
    unfolding x using es(1,2) by (simp_all add: reply_def cid_copies_clear_def)
  ultimately have m: "mset (whereabouts (daemon_exit eng s)) = mset (its s @ map ev_it es)"
    using queue_mset [of "cand_q s" es] by (simp add: whereabouts_def its_def ac_simps)
  have "set (its ?s2) = set (its s)" by (auto simp: its_def cid_copies_clear_def)
  then have "distinct (its s @ map ev_it es)" "0 \<notin> set (its s @ map ev_it es)" using ok es(3-5) by (auto simp: its_ok_def)
  then show "distinct (whereabouts (daemon_exit eng s))" "0 \<notin> set (whereabouts (daemon_exit eng s))"
    "set (its s) \<subseteq> set (whereabouts (daemon_exit eng s))"
    using mset_eq_imp_distinct_iff [OF m] mset_eq_setD [OF m] by auto
  show "out (daemon_exit eng s) = out s @ [BYE]"
    unfolding x using engine_call_sel(1) [OF c] by (simp add: reply_def cid_copies_clear_def)
qed

subsection \<open>A line for a reply\<close>

lemma strip_cr_rev: "strip_cr l = rev (dropWhile (\<lambda>c. c = NL \<or> c = CHR 0x0D) (rev l))"
  by (induction l rule: rev_induct) (subst strip_cr.simps; auto)+

definition cmd_of :: "bytes \<Rightarrow> string" where
  "cmd_of l = strip_cr (c_string l)"

text \<open>The commands of an input: its lines that are not empty, up to \<open>Q\<close>.\<close>

definition requests :: "bytes list \<Rightarrow> string list" where
  "requests ls = takeWhile (\<lambda>c. c \<noteq> ''Q'') (filter (\<lambda>c. c \<noteq> []) (map cmd_of ls))"

lemma cmd_of_batch:
  assumes "take 2 l = ''B ''"
  shows "take 2 (cmd_of l) = ''B ''"
proof -
  obtain z where l: "l = CHR ''B'' # CHR '' '' # z" using assms by (cases l; cases "tl l") auto
  let ?P = "\<lambda>c. c = NL \<or> c = CHR 0x0D"
  have "dropWhile ?P (rev (CHR ''B'' # CHR '' '' # y)) = dropWhile ?P (rev y) @ [CHR '' '', CHR ''B'']" for y
    by (simp add: dropWhile_append NL_def)
  then show ?thesis by (simp add: cmd_of_def l c_string_def strip_cr_rev)
qed

lemma requests_batches:
  assumes "\<forall>l \<in> set ls. take 2 l = ''B ''"
  shows "requests (ls @ ls') = map cmd_of ls @ requests ls'"
  using assms
proof (induction ls)
  case Nil
  then show ?case by simp
next
  case (Cons l ls)
  have "cmd_of l \<noteq> []" "cmd_of l \<noteq> ''Q''" using cmd_of_batch [of l] Cons.prems by auto
  then show ?case using Cons by (simp add: requests_def)
qed

text \<open>Replies paired with the commands; only a batch may be skipped.\<close>

definition paired :: "string list \<Rightarrow> reply list \<Rightarrow> bool" where
  "paired = list_all2 (\<lambda>c r. r = SKIP \<longrightarrow> take 2 c = ''B '')"

lemma paired_answers:
  assumes "answers (length cs) rs" and "\<forall>c \<in> set (butlast (c # cs)). take 2 c = ''B ''"
  shows "paired (c # cs) rs"
proof -
  obtain r where r: "r \<noteq> SKIP" "rs = replicate (length cs) SKIP @ [r]" using assms(1) by (auto simp: answers_def)
  have b: "list_all2 (\<lambda>c r. r = SKIP \<longrightarrow> take 2 c = ''B '') xs (replicate (length xs) SKIP)"
    if "\<forall>c \<in> set xs. take 2 c = ''B ''" for xs
    using that by (induction xs) auto
  have "length (butlast (c # cs)) = length cs" by simp
  then have "list_all2 (\<lambda>c r. r = SKIP \<longrightarrow> take 2 c = ''B '') (butlast (c # cs) @ [last (c # cs)])
      (replicate (length cs) SKIP @ [r])"
    using b [OF assms(2)] r(1) by (intro list_all2_appendI) (simp_all only: list_all2_Cons list_all2_Nil, simp_all)
  then show ?thesis by (simp only: append_butlast_last_id list.discI r(2) paired_def not_False_eq_True)
qed

lemma paired_append: "paired cs rs \<Longrightarrow> paired cs' rs' \<Longrightarrow> paired (cs @ cs') (rs @ rs')"
  by (simp add: paired_def list_all2_appendI)

lemma loop_replies:
  assumes "engine_ok eng" and "its_ok s" and "in_ok inp" and "stream inp = input_lines ls" and "lines_ok ls"
    and "daemon_loop k eng cfg inp s = Some s'"
  shows "\<exists>rs. out s' = out s @ rs @ [BYE] \<and> paired (requests ls) rs"
  using assms(2-6)
proof (induction k arbitrary: inp s ls)
  case 0
  then show ?case by simp
next
  case (Suc k)
  note ok = Suc.prems(1)
  show ?case
  proof (cases ls)
    case Nil
    obtain i where "cmd_read 512 True inp = (None, i)"
      using cmd_read_end [OF Suc.prems(2), of 512] Suc.prems(3) Nil by auto
    then have "s' = daemon_exit eng s" using Suc.prems(5) by simp
    then show ?thesis using exit_effect(4) [OF assms(1) ok] Nil
      by (intro exI [of _ "[]"]) (simp add: requests_def paired_def)
  next
    case (Cons l ls1)
    have l: "NL \<notin> set l" "length l < 512" "lines_ok ls1" using Suc.prems(4) Cons by simp_all
    have "stream inp = l @ NL # input_lines ls1" using Suc.prems(3) Cons by simp
    moreover have "take (512 - 1) (line_tail l) = l" using l(2) by (simp add: line_tail_short IN_CAP_def)
    ultimately obtain inp1 where rd: "cmd_read 512 True inp = (Some l, inp1)" "in_ok inp1"
      "stream inp1 = input_lines ls1"
      using cmd_read_line [OF Suc.prems(2) _ l(1), of "input_lines ls1" 512] by auto
    let ?c = "cmd_of l"
    show ?thesis
    proof (cases "?c = []")
      case True
      then have "daemon_loop k eng cfg inp1 s = Some s'" using Suc.prems(5) rd(1) by (simp add: cmd_of_def)
      from Suc.IH [OF ok rd(2,3) l(3) this] show ?thesis using Cons True by (simp add: requests_def)
    next
      case ne: False
      then obtain o1 where o1: "daemon_line eng cfg ?c inp1 s = Some o1"
        using Suc.prems(5) rd(1) by (auto simp: cmd_of_def Let_def split: option.split_asm)
      show ?thesis
      proof (cases o1)
        case (Quit s1)
        then have q: "?c = ''Q''" "s1 = s" using line_quit o1 by blast+
        then have "s' = daemon_exit eng s" using Suc.prems(5) rd(1) ne o1 Quit by (simp add: cmd_of_def)
        moreover have "requests ls = []" using Cons q(1) by (simp add: requests_def)
        ultimately show ?thesis using exit_effect(4) [OF assms(1) ok]
          by (intro exI [of _ "[]"]) (simp add: paired_def)
      next
        case (Next inp2 s1)
        have lp: "daemon_loop k eng cfg inp2 s1 = Some s'"
          using Suc.prems(5) rd(1) ne o1 Next by (simp add: cmd_of_def)
        from line_effect [OF assms(1) ok ne] o1 Next obtain rs where
          i2: "inp2 = line_rest ?c inp1" and rs: "answers (line_skips ?c inp1) rs" "effect rs (line_edit eng ?c inp1 s) s s1"
          by blast
        have s1: "its_ok s1" "out s1 = out s @ rs" using rs(2) its_grow_ok ok by (auto simp: effect_def)
        obtain m where m: "line_skips ?c inp1 = m" "m \<le> length ls1" "\<forall>l \<in> set (take m ls1). take 2 l = ''B ''"
          "m = 0 \<or> take 2 ?c = ''B ''" "in_ok inp2" "stream inp2 = input_lines (drop m ls1)"
        proof (cases "take 2 ?c = ''B ''")
          case True
          from coalesce_lines [OF rd(2,3) l(3), of "drop 2 ?c" 0] True i2 that show ?thesis
            by (auto simp: line_skips_def line_rest_def)
        next
          case False
          then show ?thesis using that [of 0] i2 rd(2,3) by (simp add: line_skips_def line_rest_def)
        qed
        from Suc.IH [OF s1(1) m(5,6) lines_ok_drop [OF l(3)] lp] obtain rs' where
          rs': "out s' = out s1 @ rs' @ [BYE]" "paired (requests (drop m ls1)) rs'" by blast
        let ?cs = "map cmd_of (take m ls1)"
        have len: "length ?cs = m" using m(2) by simp
        have "\<forall>c \<in> set (butlast (?c # ?cs)). take 2 c = ''B ''"
          using m(3,4) cmd_of_batch by (cases m) (auto dest!: in_set_butlastD)
        then have "paired (?c # ?cs) rs" using paired_answers [of ?cs rs] rs(1) m(1) len by simp
        moreover have "?c \<noteq> ''Q''" using line_not_quit o1 unfolding Next by blast
        then have "requests ls = (?c # ?cs) @ requests (drop m ls1)"
          using requests_batches [OF m(3), of "drop m ls1"] Cons ne by (simp add: requests_def)
        ultimately show ?thesis using rs' s1(2) paired_append [of "?c # ?cs" rs _ rs']
          by (intro exI [of _ "rs @ rs'"]) simp
      qed
    qed
  qed
qed

text \<open>The run of a small engine: a session that answers nothing; the candidates of the one event
  that arrives are empty.\<close>

definition mute_engine :: "dstate engine" where
  "mute_engine = \<lparr>process_input = (\<lambda>_ _ s. s), candidate_get_n = Some (\<lambda>_ _ s. (0, s)), select_candidate = (\<lambda>_ _ _ s. s),
     create_session = (\<lambda>s. (1, s)), destroy_session = (\<lambda>_ s. s), has_sessions = True, gc_sessions = Some (\<lambda>s. s),
     call_export = (\<lambda>_ _ s. (0, s))\<rparr>"

lemma mute_engine_ok: "engine_ok mute_engine"
  by (simp add: engine_ok_def mute_engine_def)

definition sample_config :: config where
  "sample_config = \<lparr>quiet_ms = 150, gc_every = 1, max_cand = 72\<rparr>"

definition sample_input :: "bytes list \<Rightarrow> cmd_in" where
  "sample_input ls = \<lparr>g_in = input_lines ls, chunks = [], polls = []\<rparr>"

lemma sample_daemon_ok: "its_ok sample_daemon" "its sample_daemon = [0x2]" "out sample_daemon = []"
  by (simp_all add: sample_daemon_def its_ok_def its_def handed_def)

lemma fetch_batches_null: "fetch_batches (\<lambda>_ _ s. (0, s)) it k s = Some ([], s)"
  by (cases k) simp_all

lemma sample_batch:
  "\<exists>s1. daemon_line mute_engine sample_config ''B ni'' (sample_input [''Q'']) (start sample_daemon) =
     Some (Next (sample_input [''Q'']) s1)"
proof -
  have n: "cmd_next_is_batch (sample_input [''Q'']) = (False, sample_input [''Q''])"
    by (simp add: cmd_next_is_batch_def sample_input_def fill_line.simps NL_def)
  have c: "coalesce ''ni'' 0 (sample_input [''Q'']) = (''ni'', 0, sample_input [''Q''])"
    by (simp add: coalesce.simps n)
  have "\<exists>s1. cmd_batch mute_engine sample_config False ''ni'' 0 (start sample_daemon) = Some s1"
    by (simp add: cmd_batch_def start_def reply_def sample_daemon_def drop_events_def daemon_drop_events_def
        reg_sweep_def malloc_tmp_def daemon_key_def mute_engine_def push_sent_def fetch_and_reply_def wait_cand_def
        daemon_wait_cand_def daemon_free_it_def daemon_fetch_cands_def sample_config_def fetch_batches_null Let_def)
  then show ?thesis by (auto simp: daemon_line_def c)
qed

lemma sample_run:
  "\<exists>s'. run_daemon mute_engine sample_config (sample_input [''B ni'', ''Q'']) sample_daemon = Some s'"
proof -
  obtain s1 where l: "daemon_line mute_engine sample_config ''B ni'' (sample_input [''Q'']) (start sample_daemon) =
     Some (Next (sample_input [''Q'']) s1)" using sample_batch by blast
  have r1: "cmd_read 512 True (sample_input [''B ni'', ''Q'']) = (Some ''B ni'', sample_input [''Q''])"
    using cmd_read_buffered [of "sample_input [''B ni'', ''Q'']" "''B ni''" "''Q'' @ [NL]" 512 True]
    by (simp add: sample_input_def NL_def)
  have r2: "cmd_read 512 True (sample_input [''Q'']) = (Some ''Q'', sample_input [])"
    using cmd_read_buffered [of "sample_input [''Q'']" "''Q''" "[]" 512 True] by (simp add: sample_input_def NL_def)
  have c: "strip_cr (c_string ''B ni'') = ''B ni''" "strip_cr (c_string ''Q'') = ''Q''"
    by (simp_all add: c_string_def strip_cr_rev NL_def)
  have q: "daemon_line mute_engine sample_config ''Q'' (sample_input []) s1 = Some (Quit s1)"
    by (simp add: daemon_line_def)
  have lp: "daemon_loop (Suc (Suc k)) mute_engine sample_config (sample_input [''B ni'', ''Q'']) (start sample_daemon) =
      Some (daemon_exit mute_engine s1)" for k
    by (simp add: r1 r2 c l q Let_def)
  have len: "Suc (length (stream (sample_input [''B ni'', ''Q'']))) = Suc (Suc 6)"
    by (simp add: sample_input_def stream_def)
  show ?thesis unfolding run_daemon_start len by (rule exI, rule lp)
qed

lemma sample_input_ok:
  "in_ok (sample_input [''B ni'', ''Q''])" "stream (sample_input ls) = input_lines ls" "lines_ok [''B ni'', ''Q'']"
  by (simp_all add: sample_input_def in_ok_def IN_CAP_def stream_def NL_def)



text \<open>A full queue drops an iterator: 33 events between two commands leave 32 in the queue, and the first
  one is dropped.\<close>

lemma full_queue_drops:
  "length (queued_after [] (replicate 32 e @ [e'])) = 32 \<and> evicted [] (e # replicate 31 e @ [e']) = [ev_it e]"
  by (simp add: CAND_QUEUE_def numeral_eq_Suc)

text \<open>C22. One reply per command. For an input of complete lines of fewer than 512 bytes, however
  many batches are queued and taken together: after \<open>READY\<close> the replies correspond one to one
  and in order to the non-empty lines before \<open>Q\<close>, \<open>BYE\<close> follows, and only a batch is answered
  \<open>SKIP\<close>.\<close>

theorem one_reply_per_command:
  assumes "engine_ok eng" and "its_ok s" and "in_ok inp" and "stream inp = input_lines ls" and "lines_ok ls"
    and "run_daemon eng cfg inp s = Some s'"
  shows "\<exists>rs. out s' = out s @ [READY] @ rs @ [BYE] \<and> length rs = length (requests ls) \<and>
    (\<forall>i < length rs. rs ! i = SKIP \<longrightarrow> take 2 (requests ls ! i) = ''B '')"
proof -
  have "its_ok (start s)" using assms(2) by simp
  from loop_replies [OF assms(1) this assms(3-5) assms(6) [unfolded run_daemon_start]]
  obtain rs where "out s' = out (start s) @ rs @ [BYE]" and "paired (requests ls) rs" by blast
  then show ?thesis by (intro exI [of _ rs]) (auto simp: paired_def list_all2_conv_all_nth)
qed

theorem one_reply_per_command_witness:
  "\<exists>s' r. run_daemon mute_engine sample_config (sample_input [''B ni'', ''Q'']) sample_daemon = Some s' \<and>
     out s' = [READY, r, BYE]"
proof -
  obtain s' where r: "run_daemon mute_engine sample_config (sample_input [''B ni'', ''Q'']) sample_daemon = Some s'"
    using sample_run by blast
  have q: "length (requests [''B ni'', ''Q'']) = Suc 0"
    by (simp add: requests_def cmd_of_def c_string_def strip_cr_rev NL_def)
  from one_reply_per_command [OF mute_engine_ok sample_daemon_ok(1) sample_input_ok(1) sample_input_ok(2) sample_input_ok(3) r]
  obtain rs where "out s' = [READY] @ rs @ [BYE]" "length rs = Suc 0"
    unfolding q by (auto simp: sample_daemon_ok(3))
  then show ?thesis using r by (cases rs) auto
qed

text \<open>C23. The record of the composition. Each command changes what the daemon knows of the typed
  letters exactly as the abstract edit of that command: keys are appended, once more than 255
  letters would be needed nothing is known any more, selecting a candidate that covers a
  prefix cuts it off, any other selection forgets, \<open>C\<close> resets; the buffer of 256 bytes never
  overflows.\<close>

theorem composition_tracked:
  assumes "engine_ok eng" and "its_ok s" and "line \<noteq> []" and "length (sent s) < 256"
    and "daemon_line eng cfg line inp s = Some (Next inp' s')"
  shows "comp s' = apply_edit (line_edit eng line inp s) (comp s) \<and> length (sent s') < 256"
  using line_effect [OF assms(1-3,5)] assms(4) by (auto simp: effect_def)

theorem composition_tracked_witness:
  "\<exists>s1. daemon_line mute_engine sample_config ''B ni'' (sample_input [''Q'']) (start sample_daemon) =
     Some (Next (sample_input [''Q'']) s1) \<and> comp s1 = Some ''ni''"
proof -
  let ?i = "sample_input [''Q'']" and ?s = "start sample_daemon"
  obtain s1 where l: "daemon_line mute_engine sample_config ''B ni'' ?i ?s = Some (Next ?i s1)"
    using sample_batch by blast
  have "cmd_next_is_batch ?i = (False, ?i)"
    by (simp add: cmd_next_is_batch_def sample_input_def fill_line.simps NL_def)
  then have "line_edit mute_engine ''B ni'' ?i ?s = Type ''ni''"
    by (simp add: line_edit_def coalesce.simps start_def reply_def sample_daemon_def)
  moreover have "its_ok ?s" by (simp add: sample_daemon_ok)
  ultimately show ?thesis using composition_tracked [OF mute_engine_ok _ _ _ l] l by (intro exI [of _ s1]) simp
qed

subsection \<open>The loop ends\<close>

lemma coalesce_length: "length (stream (snd (snd (coalesce keys n inp)))) \<le> length (stream inp)"
proof (induction keys n inp rule: coalesce.induct)
  case (1 keys n inp)
  obtain b inp1 where nb: "cmd_next_is_batch inp = (b, inp1)" by fastforce
  obtain r inp2 where rd: "cmd_read 512 False inp1 = (r, inp2)" by fastforce
  have le: "length (stream inp1) \<le> length (stream inp)" by (rule next_is_batch_length [OF nb])
  show ?case
  proof (cases "length keys + 64 < 512 \<and> b")
    case False
    then show ?thesis using nb le by (subst coalesce.simps) auto
  next
    case True
    show ?thesis
    proof (cases r)
      case None
      have "length (stream inp2) \<le> length (stream inp1)"
        using cmd_read_rest_length [of 512 False inp1] rd by simp
      then show ?thesis using True nb rd None le by (subst coalesce.simps) auto
    next
      case (Some l)
      have "length (stream inp2) < length (stream inp1)" using cmd_read_length rd Some by blast
      moreover have "length (stream (snd (snd (coalesce (take 511 (keys @ drop 2 (c_string l))) (Suc n) inp2))))
          \<le> length (stream inp2)" using 1 True nb rd Some by auto
      ultimately show ?thesis using True nb rd Some le by (subst coalesce.simps) simp
    qed
  qed
qed

text \<open>One turn of the loop that goes on.\<close>

inductive turn ::
    "'z dstate_scheme engine \<Rightarrow> config \<Rightarrow> cmd_in \<times> 'z dstate_scheme \<Rightarrow> cmd_in \<times> 'z dstate_scheme \<Rightarrow> bool"
  for eng :: "'z dstate_scheme engine" and cfg :: config where
  empty: "cmd_read 512 True inp = (Some raw, inp1) \<Longrightarrow> cmd_of raw = [] \<Longrightarrow> turn eng cfg (inp, s) (inp1, s)"
| command: "cmd_read 512 True inp = (Some raw, inp1) \<Longrightarrow> cmd_of raw \<noteq> [] \<Longrightarrow>
    daemon_line eng cfg (cmd_of raw) inp1 s = Some (Next inp2 s1) \<Longrightarrow> turn eng cfg (inp, s) (inp2, s1)"

lemma line_rest_length:
  "daemon_line eng cfg line inp s = Some (Next inp' s') \<Longrightarrow> length (stream inp') \<le> length (stream inp)"
  using coalesce_length [of "drop 2 line" 0 inp]
  by (auto simp: daemon_line_def Let_def split: if_split_asm prod.split_asm)

lemma turn_length: "turn eng cfg (inp, s) (inp', s') \<Longrightarrow> length (stream inp') < length (stream inp)"
  by (erule turn.cases) (auto dest!: cmd_read_length line_rest_length)

lemma loop_ends:
  assumes "length (stream inp) < k"
  shows "(\<exists>s'. daemon_loop k eng cfg inp s = Some s' \<and> out s' \<noteq> [] \<and> last (out s') = BYE) \<or>
    (\<exists>inp1 s1 raw inp2. (turn eng cfg)\<^sup>*\<^sup>* (inp, s) (inp1, s1) \<and> cmd_read 512 True inp1 = (Some raw, inp2) \<and>
       cmd_of raw \<noteq> [] \<and> daemon_line eng cfg (cmd_of raw) inp2 s1 = None)"
    (is "?ret k inp s \<or> ?fault inp s")
  using assms
proof (induction k arbitrary: inp s)
  case 0
  then show ?case by simp
next
  case (Suc k)
  have bye: "out (daemon_exit eng x) \<noteq> [] \<and> last (out (daemon_exit eng x)) = BYE" for x
    by (simp add: daemon_exit_def reply_def Let_def)
  have go: "?ret (Suc k) inp s \<or> ?fault inp s"
    if t: "turn eng cfg (inp, s) (i, x)" and same: "daemon_loop (Suc k) eng cfg inp s = daemon_loop k eng cfg i x" for i x
  proof -
    have "length (stream i) < k" using turn_length [OF t] Suc.prems by simp
    then consider "?ret k i x" | "?fault i x" using Suc.IH by blast
    then show ?thesis
    proof cases
      case 1
      then show ?thesis unfolding same by blast
    next
      case 2
      then show ?thesis using converse_rtranclp_into_rtranclp [of "turn eng cfg", OF t] by blast
    qed
  qed
  obtain r inp1 where rd: "cmd_read 512 True inp = (r, inp1)" by fastforce
  show ?case
  proof (cases r)
    case None
    then show ?thesis using rd bye by simp
  next
    case (Some raw)
    note rd = rd [unfolded Some]
    show ?thesis
    proof (cases "cmd_of raw = []")
      case True
      then show ?thesis using go [OF turn.empty [OF rd True]] rd by (simp add: cmd_of_def)
    next
      case ne: False
      show ?thesis
      proof (cases "daemon_line eng cfg (cmd_of raw) inp1 s")
        case None
        then show ?thesis using rd ne by blast
      next
        case o1: (Some o1)
        show ?thesis
        proof (cases o1)
          case (Quit x)
          then show ?thesis using rd ne o1 bye by (simp add: cmd_of_def)
        next
          case (Next i x)
          show ?thesis using go [OF turn.command [OF rd ne o1 [unfolded Next]]] rd ne o1 Next
            by (simp add: cmd_of_def)
        qed
      qed
    qed
  qed
qed

text \<open>C24. The daemon comes to an end. On every input and with every engine the loop needs no more
  turns than the input has bytes: the run ends with \<open>BYE\<close>, unless a command reached in finitely
  many turns faults (a wait that never ends, or a page of the engine that is no object
  array).\<close>

theorem daemon_says_bye:
  "(\<exists>s'. run_daemon eng cfg inp s = Some s' \<and> out s' \<noteq> [] \<and> last (out s') = BYE) \<or>
   (\<exists>inp1 s1 raw inp2. (turn eng cfg)\<^sup>*\<^sup>* (inp, start s) (inp1, s1) \<and> cmd_read 512 True inp1 = (Some raw, inp2) \<and>
      cmd_of raw \<noteq> [] \<and> daemon_line eng cfg (cmd_of raw) inp2 s1 = None)"
  unfolding run_daemon_start by (rule loop_ends) simp

end
