(* ===== verification/Pinyin.thy ===== *)
theory Pinyin
  imports Prelude
begin

text \<open>
  The display of the composition (\<open>segmentPinyin\<close> in \<open>fcitx5-wetype/src/wetype.cpp\<close>): the typed
  letters with a space between syllables. The set built from the table of the source is the
  list of its words; repetitions in the table are kept.
\<close>

definition syllables :: "string list" where
  "syllables =
     [''a'', ''ai'', ''an'', ''ang'', ''ao'', ''e'', ''ei'', ''en'', ''eng'', ''er'', ''o'', ''ou''] @
     [''ba'', ''bai'', ''ban'', ''bang'', ''bao'', ''bei'', ''ben'', ''beng'', ''bi'', ''bian'', 
     ''biao'', ''bie'', ''bin'', ''bing'', ''bo'', ''bu''] @
     [''pa'', ''pai'', ''pan'', ''pang'', ''pao'', ''pei'', ''pen'', ''peng'', ''pi'', ''pian'', 
     ''piao'', ''pie'', ''pin'', ''ping'', ''po'', ''pou'', ''pu''] @
     [''ma'', ''mai'', ''man'', ''mang'', ''mao'', ''me'', ''mei'', ''men'', ''meng'', ''mi'', 
     ''mian'', ''miao'', ''mie'', ''min'', ''ming'', ''miu'', ''mo'', ''mou'', ''mu''] @
     [''fa'', ''fan'', ''fang'', ''fei'', ''fen'', ''feng'', ''fo'', ''fou'', ''fu''] @
     [''da'', ''dai'', ''dan'', ''dang'', ''dao'', ''de'', ''dei'', ''den'', ''deng'', ''di'', 
     ''dia'', ''dian'', ''diao'', ''die'', ''ding'', ''diu'', ''dong'', ''dou'', ''du'', ''duan'', 
     ''dui'', ''dun'', ''duo''] @
     [''ta'', ''tai'', ''tan'', ''tang'', ''tao'', ''te'', ''teng'', ''ti'', ''tian'', ''tiao'', 
     ''tie'', ''ting'', ''tong'', ''tou'', ''tu'', ''tuan'', ''tui'', ''tun'', ''tuo''] @
     [''na'', ''nai'', ''nan'', ''nang'', ''nao'', ''ne'', ''nei'', ''nen'', ''neng'', ''ng'', ''ni'', 
     ''nian'', ''niang'', ''niao'', ''nie'', ''nin'', ''ning'', ''niu'', ''nong'', ''nou'', ''nu'', 
     ''nuan'', ''nue'', ''nuo'', ''nv'', ''nve''] @
     [''la'', ''lai'', ''lan'', ''lang'', ''lao'', ''le'', ''lei'', ''leng'', ''li'', ''lia'', 
     ''lian'', ''liang'', ''liao'', ''lie'', ''lin'', ''ling'', ''liu'', ''long'', ''lou'', ''lu'', 
     ''luan'', ''lue'', ''lun'', ''luo'', ''lv''] @
     [''ga'', ''gai'', ''gan'', ''gang'', ''gao'', ''ge'', ''gei'', ''gen'', ''geng'', ''gong'', 
     ''gou'', ''gu'', ''gua'', ''guai'', ''guan'', ''guang'', ''gui'', ''gun'', ''guo''] @
     [''ka'', ''kai'', ''kan'', ''kang'', ''kao'', ''ke'', ''kei'', ''ken'', ''keng'', ''kong'', 
     ''kou'', ''ku'', ''kua'', ''kuai'', ''kuan'', ''kuang'', ''kui'', ''kun'', ''kuo''] @
     [''ha'', ''hai'', ''han'', ''hang'', ''hao'', ''he'', ''hei'', ''hen'', ''heng'', ''hong'', 
     ''hou'', ''hu'', ''hua'', ''huai'', ''huan'', ''huang'', ''hui'', ''hun'', ''huo''] @
     [''za'', ''zai'', ''zan'', ''zang'', ''zao'', ''ze'', ''zei'', ''zen'', ''zeng'', ''zha'', 
     ''zhai'', ''zhan'', ''zhang'', ''zhao'', ''zhe'', ''zhei'', ''zhen'', ''zheng'', ''zhi'', 
     ''zhong'', ''zhou'', ''zhu'', ''zhua'', ''zhuai'', ''zhuan'', ''zhuang'', ''zhui'', ''zhun'', 
     ''zhuo'', ''zi'', ''zong'', ''zou'', ''zu'', ''zuan'', ''zui'', ''zun'', ''zuo''] @
     [''ca'', ''cai'', ''can'', ''cang'', ''cao'', ''ce'', ''cen'', ''ceng'', ''cha'', ''chai'', 
     ''chan'', ''chang'', ''chao'', ''che'', ''chen'', ''cheng'', ''chi'', ''chong'', ''chou'', 
     ''chu'', ''chua'', ''chuai'', ''chuan'', ''chuang'', ''chui'', ''chun'', ''chuo'', ''ci'', 
     ''cong'', ''cou'', ''cu'', ''cuan'', ''cui'', ''cun'', ''cuo''] @
     [''sa'', ''sai'', ''san'', ''sang'', ''sao'', ''se'', ''sen'', ''seng'', ''sha'', ''shai'', 
     ''shan'', ''shang'', ''shao'', ''she'', ''shei'', ''shen'', ''sheng'', ''shi'', ''shou'', 
     ''shu'', ''shua'', ''shuai'', ''shuan'', ''shuang'', ''shui'', ''shun'', ''shuo'', ''si'', 
     ''song'', ''sou'', ''su'', ''suan'', ''sui'', ''sun'', ''suo''] @
     [''ra'', ''ran'', ''rang'', ''rao'', ''re'', ''ren'', ''reng'', ''ri'', ''rong'', ''rou'', 
     ''ru'', ''ruan'', ''rui'', ''run'', ''ruo''] @
     [''ji'', ''jia'', ''jian'', ''jiang'', ''jiao'', ''jie'', ''jin'', ''jing'', ''jiong'', ''jiu'', 
     ''ju'', ''juan'', ''jue'', ''jun''] @
     [''qi'', ''qia'', ''qian'', ''qiang'', ''qiao'', ''qie'', ''qin'', ''qing'', ''qiong'', ''qiu'', 
     ''qu'', ''quan'', ''que'', ''qun''] @
     [''xi'', ''xia'', ''xian'', ''xiang'', ''xiao'', ''xie'', ''xin'', ''xing'', ''xiong'', ''xiu'', 
     ''xu'', ''xuan'', ''xue'', ''xun''] @
     [''ya'', ''yan'', ''yang'', ''yao'', ''ye'', ''yi'', ''yin'', ''ying'', ''yo'', ''yong'', 
     ''you'', ''yu'', ''yuan'', ''yue'', ''yun''] @
     [''wa'', ''wai'', ''wan'', ''wang'', ''wei'', ''wen'', ''weng'', ''wo'', ''wu''] @
     [''bo'', ''bei'', ''ben'', ''beng'', ''bian'', ''bie'', ''bin'', ''bing''] @
     [''ge'', ''gei'', ''gen'', ''geng'', ''gong'', ''gou'', ''gua'', ''guai'', ''guan'', ''guang'', 
     ''gui'', ''gun'', ''guo''] @
     [''jiong'', ''juan'', ''jue'', ''jun'']"

definition QUOTE :: char where "QUOTE = CHR 0x27"
definition SP :: char where "SP = CHR 0x20"

text \<open>The inner loop, from the longest candidate down: no piece goes past an apostrophe.\<close>

fun match_loop :: "string \<Rightarrow> nat \<Rightarrow> nat" where
  "match_loop rest 0 = 0"
| "match_loop rest (Suc k) =
     (if QUOTE \<in> set (take (Suc k) rest) then match_loop rest k
      else if take (Suc k) rest \<in> set syllables then Suc k
      else match_loop rest k)"

definition space_before :: "string \<Rightarrow> string" where
  "space_before out = (if out \<noteq> [] \<and> last out \<noteq> QUOTE \<and> last out \<noteq> SP then out @ [SP] else out)"

function seg_loop :: "string \<Rightarrow> string \<Rightarrow> string" where
  "seg_loop [] out = out"
| "seg_loop (c # cs) out =
     (if c = QUOTE then seg_loop cs (out @ [c])
      else
        let m = match_loop (c # cs) (min (length (c # cs)) 6) in
        if m \<noteq> 0 then seg_loop (drop m (c # cs)) (space_before out @ take m (c # cs))
        else space_before out @ c # cs)"
  by pat_completeness auto
termination
  by (relation "measure (\<lambda>(rest, out). length rest)") auto

definition segmentPinyin :: "string \<Rightarrow> string" where
  "segmentPinyin raw = seg_loop raw []"

subsection \<open>The table\<close>

lemma syllables_chars: "list_all (\<lambda>s. s \<noteq> [] \<and> length s \<le> 6 \<and> QUOTE \<notin> set s) syllables"
  by (simp add: syllables_def QUOTE_def)

lemma syllableD: "s \<in> set syllables \<Longrightarrow> s \<noteq> [] \<and> length s \<le> 6 \<and> QUOTE \<notin> set s"
  using syllables_chars by (simp add: list_all_iff)

subsection \<open>Nothing but spaces is added\<close>

lemma filter_space_before: "filter (\<lambda>c. c \<noteq> SP) (space_before out) = filter (\<lambda>c. c \<noteq> SP) out"
  by (simp add: space_before_def)

lemma seg_loop_filter:
  "filter (\<lambda>c. c \<noteq> SP) (seg_loop rest out) = filter (\<lambda>c. c \<noteq> SP) (out @ rest)"
proof (induction rest out rule: seg_loop.induct)
  case (1 out)
  then show ?case by simp
next
  case (2 c cs out)
  let ?m = "match_loop (c # cs) (min (length (c # cs)) 6)"
  show ?case
  proof (cases "c = QUOTE")
    case True
    then show ?thesis using 2 by simp
  next
    case False
    show ?thesis
    proof (cases "?m = 0")
      case True
      then show ?thesis using False by (simp add: filter_space_before)
    next
      case m: False
      have "filter (\<lambda>c. c \<noteq> SP) (seg_loop (c # cs) out) =
          filter (\<lambda>c. c \<noteq> SP) (space_before out @ take ?m (c # cs) @ drop ?m (c # cs))"
        using 2(2) [OF False refl m] False m by (simp add: Let_def)
      then show ?thesis by (simp only: append_take_drop_id filter_append filter_space_before)
    qed
  qed
qed

text \<open>The spaces are only for display: removing them gives back the typed buffer, so what is
  shown is what is sent to the engine.\<close>

theorem segment_roundtrip:
  assumes "SP \<notin> set raw"
  shows "filter (\<lambda>c. c \<noteq> SP) (segmentPinyin raw) = raw"
  using assms seg_loop_filter [of raw "[]"] by (simp add: segmentPinyin_def filter_id_conv) metis

theorem segment_roundtrip_witness:
  "filter (\<lambda>c. c \<noteq> SP) (segmentPinyin ''xi'an'') = ''xi'an''"
  by (rule segment_roundtrip) (simp add: SP_def)

subsection \<open>The reference segmentation\<close>

definition longest :: "string list \<Rightarrow> string" where
  "longest ws = foldr (\<lambda>w best. if length best < length w then w else best) ws []"

text \<open>The longest syllable that the text starts with; empty if there is none.\<close>

definition longest_syl :: "string \<Rightarrow> string" where
  "longest_syl s = longest (filter (\<lambda>w. take (length w) s = w) syllables)"

lemma longest_max: "w \<in> set ws \<Longrightarrow> length w \<le> length (longest ws)"
  by (induction ws) (auto simp: longest_def)

lemma longest_in: "longest ws = [] \<or> longest ws \<in> set ws"
  by (induction ws) (auto simp: longest_def)

lemma longest_syl_prefix: "take (length (longest_syl s)) s = longest_syl s"
  using longest_in [of "filter (\<lambda>w. take (length w) s = w) syllables"] by (auto simp: longest_syl_def)

lemma longest_syl_max: "take j s \<in> set syllables \<Longrightarrow> j \<le> length s \<Longrightarrow> j \<le> length (longest_syl s)"
  using longest_max [of "take j s" "filter (\<lambda>w. take (length w) s = w) syllables"]
  by (simp add: longest_syl_def min_absorb1)

lemma longest_syl_in: "longest_syl s \<noteq> [] \<Longrightarrow> longest_syl s \<in> set syllables"
  using longest_in [of "filter (\<lambda>w. take (length w) s = w) syllables"] by (auto simp: longest_syl_def)

function pieces :: "string \<Rightarrow> string list" where
  "pieces [] = []"
| "pieces (c # cs) =
     (if c = QUOTE then [QUOTE] # pieces cs
      else if longest_syl (c # cs) = [] then [c # cs]
      else longest_syl (c # cs) # pieces (drop (length (longest_syl (c # cs))) (c # cs)))"
  by pat_completeness auto
termination
  by (relation "measure length") auto

definition add_piece :: "string \<Rightarrow> string \<Rightarrow> string" where
  "add_piece out p = (if p = [QUOTE] then out @ p else space_before out @ p)"

lemma match_loop_found:
  "match_loop s k \<noteq> 0 \<Longrightarrow> take (match_loop s k) s \<in> set syllables \<and> match_loop s k \<le> k"
  by (induction k) (auto split: if_split_asm)

lemma match_loop_max: "0 < j \<Longrightarrow> j \<le> k \<Longrightarrow> take j s \<in> set syllables \<Longrightarrow> j \<le> match_loop s k"
proof (induction k)
  case 0
  then show ?case by simp
next
  case (Suc k)
  then show ?case using syllableD by (cases "j = Suc k") auto
qed

lemma match_loop_longest: "match_loop s (min (length s) 6) = length (longest_syl s)"
proof (rule le_antisym)
  let ?m = "match_loop s (min (length s) 6)"
  show "?m \<le> length (longest_syl s)"
    using match_loop_found [of s "min (length s) 6"] longest_syl_max [of ?m s] by (cases "?m = 0") simp_all
  show "length (longest_syl s) \<le> ?m"
  proof (cases "longest_syl s = []")
    case False
    have "longest_syl s \<in> set syllables" by (rule longest_syl_in [OF False])
    moreover have "length (longest_syl s) \<le> length s"
      using arg_cong [OF longest_syl_prefix [of s], of length] by simp
    ultimately show ?thesis
      using match_loop_max [of "length (longest_syl s)" "min (length s) 6" s] longest_syl_prefix [of s] syllableD False
      by simp
  qed simp
qed

lemma seg_loop_pieces: "seg_loop s out = foldl add_piece out (pieces s)"
proof (induction s out rule: seg_loop.induct)
  case (1 out)
  then show ?case by simp
next
  case (2 c cs out)
  have len: "match_loop (c # cs) (min (length (c # cs)) 6) = length (longest_syl (c # cs))"
    by (rule match_loop_longest)
  show ?case
  proof (cases "c = QUOTE")
    case True
    then show ?thesis using 2(1) by (simp add: add_piece_def)
  next
    case q: False
    show ?thesis
    proof (cases "longest_syl (c # cs) = []")
      case True
      then show ?thesis using q len by (simp add: add_piece_def)
    next
      case False
      let ?w = "longest_syl (c # cs)"
      have "?w \<noteq> [QUOTE]" using syllableD [OF longest_syl_in [OF False]] by auto
      moreover have "seg_loop (c # cs) out = seg_loop (drop (length ?w) (c # cs)) (space_before out @ ?w)"
        using q False by (simp only: seg_loop.simps(2) Let_def len longest_syl_prefix) simp
      moreover have "\<dots> = foldl add_piece (space_before out @ ?w) (pieces (drop (length ?w) (c # cs)))"
        using 2(2) [OF q len [symmetric]] False by (simp only: longest_syl_prefix) simp
      ultimately show ?thesis using q False by (simp add: add_piece_def [of out ?w])
    qed
  qed
qed

lemma concat_pieces: "concat (pieces s) = s"
proof (induction s rule: pieces.induct)
  case 1
  then show ?case by simp
next
  case (2 c cs)
  then show ?case using append_take_drop_id [of "length (longest_syl (c # cs))" "c # cs"]
    by (auto simp: longest_syl_prefix simp del: append_take_drop_id)
qed

lemma syl_prefix_le:
  assumes "v \<in> set syllables" and "take (length v) s = v"
  shows "length v \<le> length (longest_syl s)" and "longest_syl s \<noteq> []"
proof -
  have "length v \<le> length s" using arg_cong [OF assms(2), of length] by simp
  then show le: "length v \<le> length (longest_syl s)" using longest_syl_max [of "length v" s] assms by simp
  show "longest_syl s \<noteq> []" using le syllableD [OF assms(1)] by auto
qed

lemma longest_syl_iff:
  "longest_syl s = w \<longleftrightarrow>
      (if \<exists>v \<in> set syllables. take (length v) s = v
       then w \<in> set syllables \<and> take (length w) s = w \<and> (\<nexists>v. v \<in> set syllables \<and> take (length v) s = v \<and> length w < length v)
       else w = [])"
proof (cases "\<exists>v \<in> set syllables. take (length v) s = v")
  case False
  then have "longest_syl s = []" using longest_syl_in longest_syl_prefix by blast
  then show ?thesis using False by auto
next
  case True
  then have ne: "longest_syl s \<noteq> []" using syl_prefix_le(2) by blast
  note l = longest_syl_in [OF ne] longest_syl_prefix [of s]
  have "w = longest_syl s" if "w \<in> set syllables" "take (length w) s = w" "\<not> length w < length (longest_syl s)"
    using that syl_prefix_le(1) [OF that(1,2)] l(2) by (metis le_antisym not_less)
  moreover have "\<nexists>v. v \<in> set syllables \<and> take (length v) s = v \<and> length (longest_syl s) < length v"
    using syl_prefix_le(1) by (meson not_less)
  ultimately show ?thesis using True l by auto
qed

text \<open>C27. The segmentation is the greedy one: the loop over at most six letters with its search
  for apostrophes computes exactly the reference, which at each position takes the longest
  syllable of the table that the rest of the text starts with, keeps apostrophes as they are,
  and leaves the rest in one piece when no syllable fits; the pieces are the text.\<close>

theorem segment_greedy:
  "segmentPinyin raw = foldl add_piece [] (pieces raw) \<and> concat (pieces raw) = raw \<and>
   (\<forall>s w. longest_syl s = w \<longleftrightarrow>
      (if \<exists>v \<in> set syllables. take (length v) s = v
       then w \<in> set syllables \<and> take (length w) s = w \<and> (\<nexists>v. v \<in> set syllables \<and> take (length v) s = v \<and> length w < length v)
       else w = []))"
proof (intro conjI allI)
  show "segmentPinyin raw = foldl add_piece [] (pieces raw)" by (simp add: segmentPinyin_def seg_loop_pieces)
  show "concat (pieces raw) = raw" by (rule concat_pieces)
  show "longest_syl s = w \<longleftrightarrow>
      (if \<exists>v \<in> set syllables. take (length v) s = v
       then w \<in> set syllables \<and> take (length w) s = w \<and> (\<nexists>v. v \<in> set syllables \<and> take (length v) s = v \<and> length w < length v)
       else w = [])" for s w
    by (rule longest_syl_iff)
qed

end
