(* ===== verification/Punctuation.thy ===== *)
theory Punctuation
  imports Prelude
begin

text \<open>
  Punctuation of the Chinese input state: the table and the digit exception of
  \<open>fcitx5-wetype/src/punctuation.h\<close>, and the per-context history with the functions that use it
  (\<open>PunctuationState\<close>, \<open>rememberTrailing\<close>, \<open>fullwidthPunctuation\<close>, \<open>punctFor\<close> in
  \<open>wetype.cpp\<close>). The text of the source is UTF-8. The framework's check that a text is valid
  UTF-8 is the parameter \<open>valid\<close>, and whether the input field is a structured one the
  parameter \<open>structured\<close>.
\<close>

text \<open>A code point from U+0800 to U+FFFF in UTF-8.\<close>

definition utf8_3 :: "nat \<Rightarrow> string" where
  "utf8_3 n = [char_of (0xE0 + n div 4096), char_of (0x80 + n div 64 mod 64), char_of (0x80 + n mod 64)]"

subsection \<open>The table\<close>

definition DQ :: char where "DQ = CHR 0x22"
definition SQ :: char where "SQ = CHR 0x27"

text \<open>Key, code point of the Chinese form, ASCII form; the quotes are apart.\<close>

definition punct_table :: "(char \<times> nat \<times> string) list" where
  "punct_table =
     [(CHR '','', 0xFF0C, '',''), (CHR ''.'', 0x3002, ''.''), (CHR ''?'', 0xFF1F, ''?''),
      (CHR ''!'', 0xFF01, ''!''), (CHR '':'', 0xFF1A, '':''), (CHR '';'', 0xFF1B, '';''),
      (CHR 0x5C, 0x3001, []), (CHR ''('', 0xFF08, ''(''), (CHR '')'', 0xFF09, '')''),
      (CHR ''['', 0x3010, ''[''), (CHR '']'', 0x3011, '']''), (CHR ''{'', 0xFF5B, ''{''),
      (CHR ''}'', 0xFF5D, ''}''), (CHR ''<'', 0x300A, ''<''), (CHR ''>'', 0x300B, ''>''),
      (CHR ''-'', 0xFF0D, ''-''), (CHR ''_'', 0xFF3F, ''_''), (CHR ''+'', 0xFF0B, ''+''),
      (CHR ''='', 0xFF1D, ''=''), (CHR ''*'', 0xFF0A, ''*''), (CHR ''/'', 0xFF0F, ''/''),
      (CHR ''#'', 0xFF03, ''#''), (CHR ''$'', 0xFF04, ''$''), (CHR ''%'', 0xFF05, ''%''),
      (CHR ''&'', 0xFF06, ''&''), (CHR ''@'', 0xFF20, ''@''), (CHR ''^'', 0xFF3E, ''^''),
      (CHR ''~'', 0xFF5E, ''~''), (CHR ''|'', 0xFF5C, ''|'')]"

definition punctuation :: "char \<Rightarrow> bool \<Rightarrow> bool \<Rightarrow> string" where
  "punctuation key fullwidth open_quote =
     (if key = DQ then (if fullwidth then utf8_3 (if open_quote then 0x201C else 0x201D) else [DQ])
      else if key = SQ then (if fullwidth then utf8_3 (if open_quote then 0x2018 else 0x2019) else [SQ])
      else case map_of punct_table key of
          Some (n, ascii) \<Rightarrow> if fullwidth then utf8_3 n else ascii
        | None \<Rightarrow> [])"

definition ownsPunctuation :: "char \<Rightarrow> bool" where
  "ownsPunctuation key \<longleftrightarrow> punctuation key True True \<noteq> []"

definition isQuote :: "char \<Rightarrow> bool" where
  "isQuote key \<longleftrightarrow> key = DQ \<or> key = SQ"

definition digitException :: "char \<Rightarrow> bool" where
  "digitException key \<longleftrightarrow> key = CHR '','' \<or> key = CHR ''.''"

definition isDigitCodepoint :: "nat \<Rightarrow> bool" where
  "isDigitCodepoint c \<longleftrightarrow> 48 \<le> c \<and> c \<le> 57"

definition blank :: "char \<Rightarrow> bool" where
  "blank c \<longleftrightarrow> c = CHR 0x20 \<or> c = CHR 0x09 \<or> c = CHR 0x0A \<or> c = CHR 0x0D"

fun strip_blanks :: "string \<Rightarrow> string" where
  "strip_blanks t = (if t \<noteq> [] \<and> blank (last t) then strip_blanks (butlast t) else t)"

declare strip_blanks.simps [simp del]

definition endsWithDigit :: "(string \<Rightarrow> bool) \<Rightarrow> string \<Rightarrow> bool" where
  "endsWithDigit valid text =
     (let t = strip_blanks text in
      if t = [] \<or> \<not> valid t then False else isDigitCodepoint (of_char (last t)))"

subsection \<open>The history of an input context\<close>

record punct_state =
  afterDigit :: bool
  openDoubleQuote :: bool
  openSingleQuote :: bool

definition rememberTrailing :: "(string \<Rightarrow> bool) \<Rightarrow> string \<Rightarrow> punct_state \<Rightarrow> punct_state" where
  "rememberTrailing valid text st = st\<lparr>afterDigit := endsWithDigit valid text\<rparr>"

definition fullwidthPunctuation ::
    "(string \<Rightarrow> bool) \<Rightarrow> bool \<Rightarrow> punct_state \<Rightarrow> char \<Rightarrow> string \<Rightarrow> bool" where
  "fullwidthPunctuation valid structured st key text =
     (if structured then False
      else if \<not> digitException key then True
      else if text = [] then \<not> afterDigit st
      else \<not> endsWithDigit valid text)"

definition punctFor :: "char \<Rightarrow> bool \<Rightarrow> punct_state \<Rightarrow> string \<times> punct_state" where
  "punctFor key fullwidth st =
     (if \<not> isQuote key then (punctuation key fullwidth True, st)
      else
        let op = (if key = DQ then openDoubleQuote st else openSingleQuote st);
            text = punctuation key fullwidth op;
            op' = (if fullwidth \<and> text \<noteq> [] then \<not> op else op)
        in (text, if key = DQ then st\<lparr>openDoubleQuote := op'\<rparr> else st\<lparr>openSingleQuote := op'\<rparr>))"

subsection \<open>Facts about the table\<close>

lemma strip_blanks_rev: "strip_blanks t = rev (dropWhile blank (rev t))"
  by (induction t rule: rev_induct) (subst strip_blanks.simps; auto)+

lemma punctuation_quotes [simp]:
  "punctuation DQ True op = utf8_3 (if op then 0x201C else 0x201D)" "punctuation DQ False op = [DQ]"
  "punctuation SQ True op = utf8_3 (if op then 0x2018 else 0x2019)" "punctuation SQ False op = [SQ]"
  by (simp_all add: punctuation_def DQ_def SQ_def)

lemma utf8_3_not_nil [simp]: "utf8_3 n \<noteq> []"
  by (simp add: utf8_3_def)

lemma owned_cases:
  "ownsPunctuation key \<longleftrightarrow> key = DQ \<or> key = SQ \<or> key \<in> fst ` set punct_table"
  by (auto simp: ownsPunctuation_def punctuation_def dom_map_of_conv_image_fst [symmetric] split: option.split)

text \<open>The code point of a three-byte sequence, and the key of a code point.\<close>

fun codepoint_3 :: "string \<Rightarrow> nat" where
  "codepoint_3 [a, b, c] = (of_char a - 0xE0) * 4096 + (of_char b - 0x80) * 64 + (of_char c - 0x80)"
| "codepoint_3 _ = 0"

definition key_of :: "nat \<Rightarrow> char option" where
  "key_of n = (if n \<in> {0x201C, 0x201D} then Some DQ else if n \<in> {0x2018, 0x2019} then Some SQ
     else map_of (map (\<lambda>(k, n, a). (n, k)) punct_table) n)"

lemma utf8_3_codepoint: "n < 65536 \<Longrightarrow> 2048 \<le> n \<Longrightarrow> codepoint_3 (utf8_3 n) = n"
proof -
  assume n: "n < 65536" "2048 \<le> n"
  have "n div 4096 < 16" using n by simp
  moreover have "n div 64 mod 64 < 64" "n mod 64 < 64" by simp_all
  ultimately have "codepoint_3 (utf8_3 n) = n div 4096 * 4096 + (n div 64 mod 64) * 64 + n mod 64"
    by (simp add: utf8_3_def)
  also have "n div 4096 = n div 64 div 64" by (simp add: div_mult2_eq [symmetric])
  finally have "codepoint_3 (utf8_3 n) = n div 64 div 64 * 4096 + n div 64 mod 64 * 64 + n mod 64" .
  moreover have "n div 64 div 64 * 64 + n div 64 mod 64 = n div 64" and "n div 64 * 64 + n mod 64 = n" by simp_all
  ultimately show ?thesis by linarith
qed

lemma table_ok:
  "list_all (\<lambda>(k, n, a). 2048 \<le> n \<and> n < 65536 \<and> k \<noteq> DQ \<and> k \<noteq> SQ \<and> key_of n = Some k \<and>
     (a = [k] \<or> k = CHR 0x5C \<and> a = [])) punct_table"
  by (simp add: punct_table_def key_of_def DQ_def SQ_def)

lemma table_entry:
  assumes "map_of punct_table key = Some (n, a)"
  shows "2048 \<le> n" and "n < 65536" and "key \<noteq> DQ" and "key \<noteq> SQ" and "key_of n = Some key"
    and "a = [key] \<or> key = CHR 0x5C \<and> a = []"
  using table_ok map_of_SomeD [OF assms] by (auto simp: list_all_iff)

lemma wide_key:
  assumes "ownsPunctuation key"
  shows "length (punctuation key True op) = 3 \<and> key_of (codepoint_3 (punctuation key True op)) = Some key"
proof (cases "key = DQ \<or> key = SQ")
  case True
  then show ?thesis
    by (cases op) (auto simp: utf8_3_codepoint key_of_def, auto simp: utf8_3_def DQ_def SQ_def)
next
  case False
  then obtain n a where t: "map_of punct_table key = Some (n, a)"
    using assms by (auto simp: ownsPunctuation_def punctuation_def split: option.split_asm)
  then have "punctuation key True op = utf8_3 n" using False by (simp add: punctuation_def)
  then show ?thesis using table_entry [OF t] by (simp add: utf8_3_codepoint) (simp add: utf8_3_def)
qed

text \<open>The Chinese forms. Every key that is owned, the two quotes in both positions included,
  has a Chinese form that is one character of three bytes and determines the key; so no two
  keys share a form. The ASCII form of a key is the key itself, except that a backslash has
  none.\<close>

theorem punctuation_forms:
  assumes "ownsPunctuation key"
  shows "length (punctuation key True op) = 3 \<and> key_of (codepoint_3 (punctuation key True op)) = Some key \<and>
    punctuation key False op = (if key = CHR 0x5C then [] else [key])"
proof -
  have "punctuation key False op = (if key = CHR 0x5C then [] else [key])"
  proof (cases "key = DQ \<or> key = SQ")
    case True
    then show ?thesis by (auto simp: DQ_def SQ_def) (simp_all flip: DQ_def SQ_def)
  next
    case False
    then obtain n a where t: "map_of punct_table key = Some (n, a)"
      using assms by (auto simp: ownsPunctuation_def punctuation_def split: option.split_asm)
    have "key = CHR 0x5C \<Longrightarrow> a = []" using t by (auto simp: punct_table_def split: if_split_asm)
    then show ?thesis using False t table_entry(6) [OF t] by (auto simp: punctuation_def)
  qed
  then show ?thesis using wide_key [OF assms] by blast
qed

theorem punctuation_forms_witness:
  "key_of (codepoint_3 (punctuation (CHR '','') True False)) = Some (CHR '','')"
  using punctuation_forms [of "CHR '',''" False] by (simp add: owned_cases punct_table_def)

subsection \<open>Quotes in turn\<close>

text \<open>A sequence of keys with their widths, and the texts they give.\<close>

fun punct_seq :: "(char \<times> bool) list \<Rightarrow> punct_state \<Rightarrow> string list \<times> punct_state" where
  "punct_seq [] st = ([], st)"
| "punct_seq ((k, w) # ks) st =
     (let (t, st1) = punctFor k w st; (ts, st2) = punct_seq ks st1 in (t # ts, st2))"

definition wide_count :: "char \<Rightarrow> (char \<times> bool) list \<Rightarrow> nat" where
  "wide_count key ks = length (filter (\<lambda>x. x = (key, True)) ks)"

lemma punctFor_state:
  "snd (punctFor k w st) = st\<lparr>openDoubleQuote := (openDoubleQuote st \<noteq> ((k, w) = (DQ, True))),
     openSingleQuote := (openSingleQuote st \<noteq> ((k, w) = (SQ, True)))\<rparr>"
  by (auto simp: punctFor_def isQuote_def Let_def DQ_def SQ_def) (simp_all flip: DQ_def SQ_def)

lemma punct_seq_state:
  "snd (punct_seq ks st) = st\<lparr>openDoubleQuote := (openDoubleQuote st \<noteq> odd (wide_count DQ ks)),
     openSingleQuote := (openSingleQuote st \<noteq> odd (wide_count SQ ks))\<rparr>"
proof (induction ks arbitrary: st)
  case Nil
  then show ?case by (simp add: wide_count_def)
next
  case (Cons x ks)
  obtain k w where x: "x = (k, w)" by fastforce
  obtain t st1 where p: "punctFor k w st = (t, st1)" by fastforce
  have "st1 = snd (punctFor k w st)" by (simp add: p)
  moreover have n: "((\<not> a) = b) = (a = (\<not> b))" for a b by blast
  ultimately show ?case using Cons.IH [of st1] punctFor_state [of k w st]
    by (cases "punct_seq ks st1") (auto simp: x p wide_count_def n)
qed

text \<open>C29. Quotes alternate. Whatever keys come in between, with whatever widths, a Chinese double
  (single) quote is the opening one exactly when it started so and an even number of Chinese
  double (single) quotes has been produced before, or it started the other way and the number
  is odd; ASCII quotes and other keys do not count.\<close>

theorem quotes_alternate:
  shows "punctFor DQ True (snd (punct_seq ks st)) =
      (utf8_3 (if openDoubleQuote st = even (wide_count DQ ks) then 0x201C else 0x201D),
       snd (punct_seq (ks @ [(DQ, True)]) st)) \<and>
    punctFor SQ True (snd (punct_seq ks st)) =
      (utf8_3 (if openSingleQuote st = even (wide_count SQ ks) then 0x2018 else 0x2019),
       snd (punct_seq (ks @ [(SQ, True)]) st)) \<and>
    afterDigit (snd (punct_seq ks st)) = afterDigit st"
  unfolding punct_seq_state
  by (auto simp: punctFor_def isQuote_def wide_count_def Let_def) (simp_all add: DQ_def SQ_def)

text \<open>Numbers stay numbers. After a text that ends in a digit, with any blanks behind it, comma
  and period come out as they are; with the same history every other key of the table comes
  out in its Chinese form, unless the field is a structured one, where all are ASCII.\<close>

theorem decimal_stays_ascii:
  assumes "isDigitCodepoint (of_char d)" and "list_all blank bs" and "valid (t @ [d])"
  shows "let st' = rememberTrailing valid (t @ d # bs) st in
     (\<not> fullwidthPunctuation valid structured st' key [] \<longleftrightarrow> structured \<or> digitException key) \<and>
     (\<not> fullwidthPunctuation valid structured st key (t @ d # bs) \<longleftrightarrow> structured \<or> digitException key)"
proof -
  have "\<not> blank d" using assms(1) by (auto simp: isDigitCodepoint_def blank_def)
  then have "strip_blanks (t @ d # bs) = t @ [d]"
    using assms(2) by (simp add: strip_blanks_rev dropWhile_append list_all_iff)
  then have "endsWithDigit valid (t @ d # bs)" using assms(1,3) by (simp add: endsWithDigit_def)
  then show ?thesis by (auto simp: rememberTrailing_def fullwidthPunctuation_def Let_def)
qed

theorem decimal_stays_ascii_witness:
  "\<not> fullwidthPunctuation (\<lambda>_. True) False
     (rememberTrailing (\<lambda>_. True) ''3 '' \<lparr>afterDigit = False, openDoubleQuote = True, openSingleQuote = True\<rparr>)
     (CHR ''.'') []"
  using decimal_stays_ascii [of "CHR ''3''" "'' ''" "\<lambda>_. True" "[]"
      "\<lparr>afterDigit = False, openDoubleQuote = True, openSingleQuote = True\<rparr>" False "CHR ''.''"]
  by (simp add: isDigitCodepoint_def blank_def digitException_def)

end
