(* ===== verification/Addon_Files.thy ===== *)
theory Addon_Files
  imports Prelude
begin

text \<open>
  Files of the addon: the gloss dictionary (\<open>fcitx5-wetype/src/glossary.h\<close>) and the log of the
  engine (\<open>harness_log.h\<close>). The content of a file is its bytes; for the log the file system
  is the sizes of its files, and whether \<open>rename\<close> succeeds is a parameter.
\<close>

subsection \<open>The gloss dictionary\<close>

definition LF :: char where "LF = CHR 0x0A"
definition CR :: char where "CR = CHR 0x0D"
definition TAB :: char where "TAB = CHR 0x09"

text \<open>\<open>std::getline\<close> until the end: the last line may lack its newline.\<close>

function getlines :: "char \<Rightarrow> string \<Rightarrow> string list" where
  "getlines d [] = []"
| "getlines d (c # cs) =
     takeWhile (\<lambda>x. x \<noteq> d) (c # cs) # getlines d (tl (dropWhile (\<lambda>x. x \<noteq> d) (c # cs)))"
  by pat_completeness auto
termination
proof (relation "measure (\<lambda>(d, s). length s)")
  fix d c :: char and cs
  have "length (dropWhile (\<lambda>x. x \<noteq> d) (c # cs)) \<le> length (c # cs)" by (rule length_dropWhile_le)
  then show "((d, tl (dropWhile (\<lambda>x. x \<noteq> d) (c # cs))), d, c # cs) \<in> measure (\<lambda>(d, s). length s)" by simp
qed simp

declare getlines.simps(2) [simp del]

definition prefixes :: "string list" where
  "prefixes = [''n. '', ''v. '', ''a. '', ''adj. '', ''adv. '', ''pron. '', ''prep. '', ''conj. '', ''int. '',
     ''num. '', ''art. '', ''det. '', ''aux. '', ''vt. '', ''vi. '', ''interj. '']"

fun strip_prefix :: "string list \<Rightarrow> string \<Rightarrow> string" where
  "strip_prefix [] g = g"
| "strip_prefix (p # ps) g = (if take (length p) g = p then drop (length p) g else strip_prefix ps g)"

text \<open>One line of the file: word and gloss, if it has them.\<close>

definition gloss_line :: "string \<Rightarrow> (string \<times> string) option" where
  "gloss_line raw =
     (let line = (if raw \<noteq> [] \<and> last raw = CR then butlast raw else raw) in
      if line = [] \<or> hd line = CHR ''#'' then None
      else if TAB \<notin> set line \<or> hd line = TAB then None
      else
        let word = takeWhile (\<lambda>c. c \<noteq> TAB) line;
            gloss = takeWhile (\<lambda>c. c \<noteq> TAB) (tl (dropWhile (\<lambda>c. c \<noteq> TAB) line));
            gloss = strip_prefix prefixes gloss
        in if gloss = [] then None else Some (word, gloss))"

fun load_lines :: "string list \<Rightarrow> (string \<rightharpoonup> string) \<Rightarrow> (string \<rightharpoonup> string)" where
  "load_lines [] m = m"
| "load_lines (l # ls) m = load_lines ls (case gloss_line l of None \<Rightarrow> m | Some (w, g) \<Rightarrow> m(w \<mapsto> g))"

text \<open>\<open>load\<close>: the entries and their number; a file that cannot be opened has no lines.\<close>

definition load_glossary :: "string option \<Rightarrow> (string \<rightharpoonup> string) \<times> nat" where
  "load_glossary file =
     (let m = load_lines (case file of None \<Rightarrow> [] | Some s \<Rightarrow> getlines LF s) Map.empty in (m, card (dom m)))"

definition gloss_lookup :: "(string \<rightharpoonup> string) \<Rightarrow> string \<Rightarrow> string option" where
  "gloss_lookup m word = m word"

text \<open>The entries of a file, in order.\<close>

definition gloss_entries :: "string option \<Rightarrow> (string \<times> string) list" where
  "gloss_entries file = List.map_filter gloss_line (case file of None \<Rightarrow> [] | Some s \<Rightarrow> getlines LF s)"

lemma load_lines_entries: "load_lines ls m = m ++ map_of (rev (List.map_filter gloss_line ls))"
  by (induction ls arbitrary: m) (auto simp: List.map_filter_simps map_add_def fun_eq_iff split: option.split)

lemma takeWhile_ne: "TAB \<in> set l \<Longrightarrow> hd l \<noteq> TAB \<Longrightarrow> takeWhile (\<lambda>c. c \<noteq> TAB) l \<noteq> []"
  by (cases l) auto

lemma strip_prefix_set: "set (strip_prefix ps g) \<subseteq> set g"
  by (induction ps) (auto dest: in_set_dropD)

lemma gloss_line_ok:
  assumes "gloss_line raw = Some (w, g)"
  shows "w \<noteq> [] \<and> g \<noteq> [] \<and> TAB \<notin> set w \<and> TAB \<notin> set g \<and> hd w \<noteq> CHR ''#''"
proof -
  let ?l = "if raw \<noteq> [] \<and> last raw = CR then butlast raw else raw"
  have l: "?l \<noteq> []" "hd ?l \<noteq> CHR ''#''" "TAB \<in> set ?l" "hd ?l \<noteq> TAB"
    and w: "w = takeWhile (\<lambda>c. c \<noteq> TAB) ?l"
    and g: "g = strip_prefix prefixes (takeWhile (\<lambda>c. c \<noteq> TAB) (tl (dropWhile (\<lambda>c. c \<noteq> TAB) ?l)))" "g \<noteq> []"
    using assms by (auto simp: gloss_line_def Let_def split: if_split_asm)
  have wn: "w \<noteq> []" unfolding w by (rule takeWhile_ne [OF l(3,4)])
  moreover have "hd w = hd ?l" using w l by (cases ?l) (simp_all split: if_split_asm)
  moreover have "TAB \<notin> set w" unfolding w by (auto dest: set_takeWhileD)
  moreover have "TAB \<notin> set g"
    using strip_prefix_set [of prefixes "takeWhile (\<lambda>c. c \<noteq> TAB) (tl (dropWhile (\<lambda>c. c \<noteq> TAB) ?l))"]
    unfolding g(1) by (auto dest: set_takeWhileD)
  ultimately show ?thesis using l g(2) by simp
qed

text \<open>C31. The dictionary. A lookup gives the gloss of the last line of the file for that word,
  whatever other lines there are, and nothing else; words and glosses are never empty and hold
  no tab, so the panel never shows a part of a third column; the reported number is the number
  of words found.\<close>

theorem glossary_lookup:
  assumes "load_glossary file = (m, n)"
  shows "gloss_lookup m word = map_of (rev (gloss_entries file)) word \<and>
    n = length (remdups (map fst (gloss_entries file))) \<and>
    (gloss_lookup m word = Some gloss \<longrightarrow>
       word \<noteq> [] \<and> gloss \<noteq> [] \<and> TAB \<notin> set word \<and> TAB \<notin> set gloss \<and> hd word \<noteq> CHR ''#'')"
proof (intro conjI)
  have m: "m = map_of (rev (gloss_entries file))"
    using assms by (simp add: load_glossary_def load_lines_entries gloss_entries_def Let_def)
  show "gloss_lookup m word = map_of (rev (gloss_entries file)) word" by (simp add: gloss_lookup_def m)
  have "dom m = set (map fst (gloss_entries file))" by (simp add: m dom_map_of_conv_image_fst)
  then show "n = length (remdups (map fst (gloss_entries file)))"
    using assms by (auto simp: load_glossary_def Let_def length_remdups_card_conv)
  show "gloss_lookup m word = Some gloss \<longrightarrow>
       word \<noteq> [] \<and> gloss \<noteq> [] \<and> TAB \<notin> set word \<and> TAB \<notin> set gloss \<and> hd word \<noteq> CHR ''#''"
  proof
    assume "gloss_lookup m word = Some gloss"
    then have "(word, gloss) \<in> set (gloss_entries file)" using map_of_SomeD by (fastforce simp: gloss_lookup_def m)
    then obtain raw where "gloss_line raw = Some (word, gloss)"
      by (auto simp: gloss_entries_def List.map_filter_def)
    then show "word \<noteq> [] \<and> gloss \<noteq> [] \<and> TAB \<notin> set word \<and> TAB \<notin> set gloss \<and> hd word \<noteq> CHR ''#''"
      by (rule gloss_line_ok)
  qed
qed

theorem glossary_lookup_witness:
  "\<exists>m. load_glossary (Some (''ni'' @ [TAB] @ ''n. you'' @ [LF, CHR ''#'', LF] @ ''ni'' @ [TAB] @ ''pron. you'')) = (m, 1) \<and>
     gloss_lookup m ''ni'' = Some ''you''"
proof -
  let ?f = "Some (''ni'' @ [TAB] @ ''n. you'' @ [LF, CHR ''#'', LF] @ ''ni'' @ [TAB] @ ''pron. you'')"
  obtain m n where l: "load_glossary ?f = (m, n)" by fastforce
  have "gloss_entries ?f = [(''ni'', ''you''), (''ni'', ''you'')]"
    by (simp add: gloss_entries_def getlines.simps(2) LF_def TAB_def CR_def gloss_line_def prefixes_def
        List.map_filter_simps Let_def)
  then show ?thesis using glossary_lookup [OF l, of "''ni''"] l by (intro exI [of _ m]) simp
qed

subsection \<open>The log of the engine\<close>

definition HARNESS_LOG_MAX_BYTES :: nat where "HARNESS_LOG_MAX_BYTES = 16 * 1024 * 1024"

text \<open>The directories \<open>mkdirParents\<close> asks for, in order.\<close>

definition mkdirParents :: "string \<Rightarrow> string list" where
  "mkdirParents path = map (\<lambda>i. take i path) (filter (\<lambda>i. path ! i = CHR ''/'') [1..<length path]) @ [path]"

definition harnessLogPath :: "string option \<Rightarrow> string option \<Rightarrow> string option \<Rightarrow> string" where
  "harnessLogPath overridePath xdgStateHome home =
     (case overridePath of
       Some (c # cs) \<Rightarrow> c # cs
     | _ \<Rightarrow>
         (let dir = (case xdgStateHome of
                Some (c # cs) \<Rightarrow> c # cs
              | _ \<Rightarrow> (case home of Some (c # cs) \<Rightarrow> c # cs | _ \<Rightarrow> ''/tmp'') @ ''/.local/state'');
              dir = dir @ ''/wetype-ime''
          in dir @ ''/harness.log''))"

definition capHarnessLog ::
    "bool \<Rightarrow> string \<Rightarrow> nat \<Rightarrow> (string \<rightharpoonup> nat) \<Rightarrow> bool \<times> (string \<rightharpoonup> nat)" where
  "capHarnessLog rename_ok path maxBytes fs = (case fs path of
       None \<Rightarrow> (False, fs)
     | Some sz \<Rightarrow>
         if sz \<le> maxBytes then (False, fs)
         else if rename_ok then (True, (fs(path := None))(path @ ''.1'' \<mapsto> sz))
         else (False, fs))"

text \<open>Starts of the engine: each caps the log and appends to it. A run is the number of bytes it writes
  and whether renaming works when it starts (it fails, for instance, when \<open>path.1\<close> is a directory).\<close>

fun log_runs :: "string \<Rightarrow> nat \<Rightarrow> (nat \<times> bool) list \<Rightarrow> (string \<rightharpoonup> nat) \<Rightarrow> (string \<rightharpoonup> nat)" where
  "log_runs path mx [] fs = fs"
| "log_runs path mx ((n, rename_ok) # ns) fs =
     (let fs1 = snd (capHarnessLog rename_ok path mx fs)
      in log_runs path mx ns (fs1(path \<mapsto> (case fs1 path of None \<Rightarrow> 0 | Some k \<Rightarrow> k) + n)))"

definition size_of :: "(string \<rightharpoonup> nat) \<Rightarrow> string \<Rightarrow> nat" where
  "size_of fs p = (case fs p of None \<Rightarrow> 0 | Some k \<Rightarrow> k)"

definition failed_renames :: "(nat \<times> bool) list \<Rightarrow> nat" where
  "failed_renames ns = length (filter (\<lambda>(n, rename_ok). \<not> rename_ok) ns)"

lemma log_run_bound:
  assumes "size_of fs path \<le> m" and "size_of fs (path @ ''.1'') \<le> k" and "mx + b \<le> m" and "n \<le> b" and "m \<le> k"
  shows "let fs1 = snd (capHarnessLog ok path mx fs); fs2 = fs1(path \<mapsto> (case fs1 path of None \<Rightarrow> 0 | Some k \<Rightarrow> k) + n)
    in size_of fs2 path \<le> (if ok then m else m + b) \<and> size_of fs2 (path @ ''.1'') \<le> k"
  using assms by (auto simp: Let_def capHarnessLog_def size_of_def split: option.split option.split_asm)

lemma log_runs_bound:
  "size_of fs path \<le> m \<Longrightarrow> size_of fs (path @ ''.1'') \<le> k \<Longrightarrow> mx + b \<le> m \<Longrightarrow>
   m + failed_renames ns * b \<le> k \<Longrightarrow> list_all (\<lambda>(n, _). n \<le> b) ns \<Longrightarrow>
   size_of (log_runs path mx ns fs) path \<le> m + failed_renames ns * b \<and>
   size_of (log_runs path mx ns fs) (path @ ''.1'') \<le> k"
proof (induction ns arbitrary: fs m)
  case Nil
  then show ?case by (simp add: failed_renames_def)
next
  case (Cons r ns)
  obtain n ok where r: "r = (n, ok)" by fastforce
  let ?fs1 = "snd (capHarnessLog ok path mx fs)"
  let ?fs2 = "?fs1(path \<mapsto> (case ?fs1 path of None \<Rightarrow> 0 | Some k \<Rightarrow> k) + n)"
  let ?m = "if ok then m else m + b"
  have m: "m + failed_renames (r # ns) * b = ?m + failed_renames ns * b" by (simp add: failed_renames_def r)
  have "size_of ?fs2 path \<le> ?m \<and> size_of ?fs2 (path @ ''.1'') \<le> k"
    using log_run_bound [of fs path m k mx b n ok] Cons.prems r by (simp add: Let_def)
  moreover have "mx + b \<le> ?m" "?m + failed_renames ns * b \<le> k" "list_all (\<lambda>(n, _). n \<le> b) ns"
    using Cons.prems m by (simp_all add: trans_le_add1)
  ultimately have "size_of (log_runs path mx ns ?fs2) path \<le> ?m + failed_renames ns * b \<and>
      size_of (log_runs path mx ns ?fs2) (path @ ''.1'') \<le> k" using Cons.IH [of ?fs2 ?m] by blast
  moreover have "log_runs path mx (r # ns) fs = log_runs path mx ns ?fs2" by (simp only: r log_runs.simps Let_def)
  ultimately show ?case by (simp only: m)
qed

lemma log_runs_frame: "p \<noteq> path \<Longrightarrow> p \<noteq> path @ ''.1'' \<Longrightarrow> log_runs path mx ns fs p = fs p"
  by (induction ns arbitrary: fs) (auto simp: capHarnessLog_def Let_def split: option.split)

text \<open>C32. The log grows only by what is written while renaming fails. Over any number of starts of the
  engine, each writing at most \<open>b\<close> bytes, with whatever log and old generation there are at first: the log
  stays within the larger of its first size and 16 MiB plus \<open>b\<close>, plus \<open>b\<close> for each start at which
  the rename fails (the file keeps growing then); the old generation stays within that bound or its
  own first size; no other file is touched. In particular, when there is no log at first and every rename works,
  both together never exceed 32 MiB plus \<open>2 b\<close>.\<close>

theorem log_bounded:
  assumes "list_all (\<lambda>(n, _). n \<le> b) ns"
  shows "let fs' = log_runs path HARNESS_LOG_MAX_BYTES ns fs;
      bound = max (size_of fs path) (16 * 1024 * 1024 + b) + failed_renames ns * b in
    size_of fs' path \<le> bound \<and> size_of fs' (path @ ''.1'') \<le> max (size_of fs (path @ ''.1'')) bound \<and>
    (\<forall>p. p = path \<or> p = path @ ''.1'' \<or> fs' p = fs p) \<and>
    (fs path = None \<and> fs (path @ ''.1'') = None \<and> (\<forall>r \<in> set ns. snd r) \<longrightarrow>
       size_of fs' path + size_of fs' (path @ ''.1'') \<le> 2 * (16 * 1024 * 1024) + 2 * b)"
proof -
  let ?f = "log_runs path HARNESS_LOG_MAX_BYTES ns fs" and ?m = "max (size_of fs path) (16 * 1024 * 1024 + b)"
  let ?B = "?m + failed_renames ns * b"
  have *: "size_of ?f path \<le> ?B \<and> size_of ?f (path @ ''.1'') \<le> max (size_of fs (path @ ''.1'')) ?B"
    using log_runs_bound [of fs path ?m "max (size_of fs (path @ ''.1'')) ?B" HARNESS_LOG_MAX_BYTES b ns] assms
    by (simp add: HARNESS_LOG_MAX_BYTES_def)
  have "\<forall>p. p = path \<or> p = path @ ''.1'' \<or> ?f p = fs p" using log_runs_frame by blast
  moreover have "size_of ?f path + size_of ?f (path @ ''.1'') \<le> 2 * (16 * 1024 * 1024) + 2 * b"
    if "fs path = None \<and> fs (path @ ''.1'') = None \<and> (\<forall>r \<in> set ns. snd r)"
  proof -
    have "failed_renames ns = 0" using that by (auto simp: failed_renames_def filter_empty_conv)
    moreover have "size_of fs path = 0" "size_of fs (path @ ''.1'') = 0" using that by (simp_all add: size_of_def)
    ultimately show ?thesis using * by simp
  qed
  ultimately show ?thesis using * unfolding Let_def by blast
qed

theorem log_bounded_witness:
  "let fs' = log_runs ''/l'' HARNESS_LOG_MAX_BYTES [(30000, True), (20000000, False), (5, True)] (Map.empty(''/l.1'' \<mapsto> 7)) in
    size_of fs' ''/l'' \<le> 16 * 1024 * 1024 + 40000000 \<and> fs' ''/m'' = None"
proof -
  have f: "failed_renames [(30000, True), (20000000, False), (5, True)] = 1" by (simp add: failed_renames_def)
  have "list_all (\<lambda>(n, _). n \<le> 20000000) [(30000 :: nat, True), (20000000, False), (5, True)]" by simp
  note bounded = log_bounded [OF this, of "''/l''" "Map.empty(''/l.1'' \<mapsto> 7)", unfolded f Let_def]
  then have "size_of (log_runs ''/l'' HARNESS_LOG_MAX_BYTES [(30000, True), (20000000, False), (5, True)] (Map.empty(''/l.1'' \<mapsto> 7))) ''/l''
      \<le> 16 * 1024 * 1024 + 40000000" by (simp add: size_of_def del: log_runs.simps)
  moreover have "log_runs ''/l'' HARNESS_LOG_MAX_BYTES [(30000, True), (20000000, False), (5, True)] (Map.empty(''/l.1'' \<mapsto> 7)) ''/m'' = None"
    using bounded [THEN conjunct2, THEN conjunct2, THEN conjunct1, THEN spec, of "''/m''"] by (simp del: log_runs.simps)
  ultimately show ?thesis unfolding Let_def by (rule conjI)
qed

end
