(* ===== verification/Addon_State.thy ===== *)
theory Addon_State
  imports Pinyin Punctuation Addon_Files
begin

text \<open>
  The state of the addon (\<open>EngineProc\<close> and \<open>WeTypeEngine\<close> in \<open>fcitx5-wetype/src/wetype.cpp\<close>) and its
  panel. Input contexts are numbers; a reference to a context that is gone reads as nothing.
  A response handler is the data its closure has captured. What the addon does to the
  framework is the list \<open>outp\<close> and the panel of each context. The framework's answers are
  parameters: the text of a key, the modifiers, the fields of a context, the page size of the
  global configuration, the check for UTF-8, and \<open>env\<close>, the results of starting a process and
  of writing to it (exhausted meaning success). \<open>wire\<close> records the commands written to the
  running process with their handlers, \<open>answered\<close> counts its replies; \<open>stuck\<close> is set when the
  nesting of callbacks exceeds the bound of the model.
\<close>

subsection \<open>Keys\<close>

text \<open>A keysym: those below 0x80 are their characters, those the addon names, and others.\<close>

datatype keysym =
    Ascii char
  | KP_digit nat | KP_Add
  | Left | Right | Up | Down | Page_Up | Page_Down
  | Return | BackSpace | Escape
  | Other nat

text \<open>A key event: \<open>shortcut\<close> says that one of the modifiers Ctrl, Alt, Super, Meta, Hyper or Mod5
  is held, \<open>ktext\<close> is what \<open>printableText\<close> gives for the key.\<close>

record key_event =
  sym :: keysym
  shortcut :: bool
  raw_sym :: keysym
  raw_shift :: bool
  ktext :: string
  release :: bool
  time :: int

subsection \<open>State\<close>

datatype handler =
    NoHandler
  | SpansHandler
  | CandHandler "nat option" nat string nat   \<comment> \<open>context, epoch, buffer, revision\<close>

datatype proc_state = Dead | Starting | Ready

record panel =
  preedit :: string
  shown :: "string list"
  cursor :: int

datatype action =
    Commit nat string
  | Forward nat key_event

record addon =
  palive :: bool
  in_open :: bool
  rbuf :: string
  pstate :: proc_state
  pending :: "handler list"
  failCount :: nat
  gaveUp :: bool
  watchdog :: bool
  env :: "bool list"
  wire :: "(string \<times> handler) list"
  answered :: nat
  buf :: string
  cands :: "string list"
  covers :: "int list"
  spansEnabled :: bool
  candidatesCurrent :: bool
  windowStart :: int
  selected :: int
  renderedPageSize :: int
  recoveryTried :: bool
  revision :: nat
  epoch :: nat
  icRef :: "nat option"
  restartSource :: bool
  pendingSpace :: bool
  pendingTimer :: "(nat \<times> nat) option"
  queued :: "key_event list"
  draining :: bool
  ic_live :: "nat \<Rightarrow> bool"
  history :: "nat \<Rightarrow> punct_state"
  panels :: "nat \<Rightarrow> panel"
  page_cfg :: int
  outp :: "action list"
  stuck :: bool

text \<open>What does not change while the addon runs: the dictionary, the check for UTF-8, and whether a
  context is a structured field.\<close>

record conf =
  gloss :: "string \<rightharpoonup> string"
  valid :: "string \<Rightarrow> bool"
  structured :: "nat \<Rightarrow> bool"

definition deref :: "nat option \<Rightarrow> addon \<Rightarrow> nat option" where
  "deref r s = (case r of None \<Rightarrow> None | Some i \<Rightarrow> if ic_live s i then Some i else None)"

subsection \<open>The panel\<close>

definition FALLBACK_PAGE_SIZE :: int where "FALLBACK_PAGE_SIZE = 5"

definition pageSize :: "addon \<Rightarrow> int" where
  "pageSize s = (if 1 \<le> page_cfg s \<and> page_cfg s \<le> 10 then page_cfg s else FALLBACK_PAGE_SIZE)"

definition clamp :: "int \<Rightarrow> int \<Rightarrow> int \<Rightarrow> int" where
  "clamp v lo hi = (if v < lo then lo else if hi < v then hi else v)"

definition normalizePage :: "addon \<Rightarrow> bool \<times> addon" where
  "normalizePage s =
     (let count = int (length (cands s));
          page = pageSize s;
          (ws, sel) =
            (if count = 0 then (0, 0)
             else
               let ws = clamp (windowStart s) 0 (count - 1);
                   ws = (ws div page) * page
               in (ws, clamp (selected s) ws (min (ws + page) count - 1)))
      in (windowStart s \<noteq> ws \<or> selected s \<noteq> sel \<or> (cands s \<noteq> [] \<and> renderedPageSize s \<noteq> page),
          s\<lparr>windowStart := ws, selected := sel\<rparr>))"

definition pendingRaw :: "addon \<Rightarrow> string" where
  "pendingRaw s = buf s @ (if pendingSpace s then [SP] else []) @
     concat (map ktext (filter (\<lambda>k. \<not> release k) (queued s)))"

definition pinyinPreedit :: "string \<Rightarrow> string" where
  "pinyinPreedit b = (if b = [] then [] else segmentPinyin b)"

text \<open>The line of a candidate: ordinal, text, gloss.\<close>

definition cand_label :: "conf \<Rightarrow> nat \<Rightarrow> string \<Rightarrow> string" where
  "cand_label cf ordinal c =
     [if ordinal = 9 then CHR ''0'' else char_of (49 + ordinal), SP] @ c @
     (case gloss_lookup (gloss cf) c of None \<Rightarrow> [] | Some g \<Rightarrow> SP # g)"

definition panel_of :: "conf \<Rightarrow> addon \<Rightarrow> panel" where
  "panel_of cf s =
     (let pre = (if pendingSpace s then pendingRaw s else pinyinPreedit (buf s)) in
      if cands s = [] then \<lparr>preedit = pre, shown = [], cursor = -1\<rparr>
      else
        let start = windowStart s;
            stop = min (start + pageSize s) (int (length (cands s)));
            page = take (nat (stop - start)) (drop (nat start) (cands s))
        in \<lparr>preedit = pre, shown = map (\<lambda>(i, c). cand_label cf i c) (enumerate 0 page),
             cursor = selected s - start\<rparr>)"

definition updateUI :: "conf \<Rightarrow> nat \<Rightarrow> addon \<Rightarrow> addon" where
  "updateUI cf ic s0 =
     (let s1 = snd (normalizePage s0);
          s2 = s1\<lparr>renderedPageSize := pageSize s1\<rparr>;
          stop = min (windowStart s2 + pageSize s2) (int (length (cands s2)));
          s3 = (if cands s2 \<noteq> [] \<and> (selected s2 < windowStart s2 \<or> stop \<le> selected s2)
                then s2\<lparr>selected := windowStart s2\<rparr> else s2)
      in s3\<lparr>panels := (panels s3)(ic := panel_of cf s3)\<rparr>)"

subsection \<open>Facts about pages\<close>

text \<open>The page that is shown: it starts at a multiple of the page size and holds the selection.\<close>

definition page_ok :: "addon \<Rightarrow> bool" where
  "page_ok s \<longleftrightarrow>
     (if cands s = [] then windowStart s = 0 \<and> selected s = 0
      else 0 \<le> windowStart s \<and> windowStart s mod pageSize s = 0 \<and> windowStart s \<le> selected s \<and>
        selected s < windowStart s + pageSize s \<and> selected s < int (length (cands s)))"

lemma pageSize_range: "1 \<le> pageSize s \<and> pageSize s \<le> 10"
  by (simp add: pageSize_def FALLBACK_PAGE_SIZE_def)

lemma normalizePage_frame:
  "\<exists>ws sel. snd (normalizePage s) = s\<lparr>windowStart := ws, selected := sel\<rparr>"
  by (auto simp: normalizePage_def Let_def split: prod.split)

lemma normalizePage_ok: "page_ok (snd (normalizePage s))"
proof (cases "cands s = []")
  case True
  then show ?thesis by (simp add: normalizePage_def page_ok_def)
next
  case False
  let ?n = "int (length (cands s))" and ?p = "pageSize s"
  let ?w = "clamp (windowStart s) 0 (?n - 1)"
  let ?ws = "(?w div ?p) * ?p"
  let ?sel = "clamp (selected s) ?ws (min (?ws + ?p) ?n - 1)"
  have n: "0 < ?n" and p: "1 \<le> ?p" using False pageSize_range by simp_all
  have w: "0 \<le> ?w" "?w < ?n" using n by (auto simp: clamp_def)
  have "?w div ?p * ?p + ?w mod ?p = ?w" by simp
  moreover have "0 \<le> ?w mod ?p" using p by simp
  ultimately have le: "?ws \<le> ?w" by linarith
  have "0 \<le> ?ws" using w p by (simp add: pos_imp_zdiv_nonneg_iff)
  moreover have "?ws \<le> ?sel \<and> ?sel < ?ws + ?p \<and> ?sel < ?n" using le w p by (auto simp: clamp_def)
  moreover have "pageSize (snd (normalizePage s)) = ?p" and "cands (snd (normalizePage s)) = cands s"
    using normalizePage_frame [of s] by (auto simp: pageSize_def)
  moreover have "windowStart (snd (normalizePage s)) = ?ws" and "selected (snd (normalizePage s)) = ?sel"
    using False by (simp_all add: normalizePage_def Let_def)
  ultimately show ?thesis using False by (simp add: page_ok_def)
qed

text \<open>The frame of the panel: only the page and the panel change.\<close>

lemma pageSize_upd [simp]:
  "pageSize (s\<lparr>windowStart := a\<rparr>) = pageSize s" "pageSize (s\<lparr>selected := a\<rparr>) = pageSize s"
  "pageSize (s\<lparr>renderedPageSize := a\<rparr>) = pageSize s" "pageSize (s\<lparr>panels := p\<rparr>) = pageSize s"
  by (simp_all add: pageSize_def)

lemma updateUI_eq:
  "updateUI cf ic s =
     (let n = (snd (normalizePage s))\<lparr>renderedPageSize := pageSize s\<rparr> in n\<lparr>panels := (panels s)(ic := panel_of cf n)\<rparr>)"
proof -
  obtain ws sel where n: "snd (normalizePage s) = s\<lparr>windowStart := ws, selected := sel\<rparr>"
    using normalizePage_frame by blast
  let ?r = "s\<lparr>windowStart := ws, selected := sel, renderedPageSize := pageSize s\<rparr>"
  have r: "(snd (normalizePage s))\<lparr>renderedPageSize := pageSize (snd (normalizePage s))\<rparr> = ?r" by (simp add: n)
  have "\<not> (cands ?r \<noteq> [] \<and> (selected ?r < windowStart ?r \<or> min (windowStart ?r + pageSize ?r) (int (length (cands ?r))) \<le> selected ?r))"
    using normalizePage_ok [of s] by (auto simp: page_ok_def n split: if_split_asm)
  then have "updateUI cf ic s = ?r\<lparr>panels := (panels ?r)(ic := panel_of cf ?r)\<rparr>"
    unfolding updateUI_def Let_def r by (simp only: if_False)
  then show ?thesis by (simp add: n Let_def)
qed

end
