(* ===== verification/Engine_Proc.thy ===== *)
theory Engine_Proc
  imports Addon_State
begin

text \<open>
  The engine process as the addon sees it (\<open>EngineProc\<close> in \<open>wetype.cpp\<close>), with the two functions
  of the engine class that failing handlers call back into (\<open>ensureEngine\<close>,
  \<open>requestCandidates\<close>). A handler is called with the empty response when its command is lost:
  that is \<open>run_lost\<close>, with a bound on the depth of handlers running inside handlers. The bound is
  two: a handler that runs inside another one finds \<open>recoveryTried\<close> set and does not call back
  again, so \<open>stuck\<close> is never set (\<open>callbacks_bounded\<close> in \<open>Addon_Props\<close>).
\<close>

subsection \<open>Starting\<close>

definition take_env :: "addon \<Rightarrow> bool \<times> addon" where
  "take_env s = (case env s of [] \<Rightarrow> (True, s) | b # bs \<Rightarrow> (b, s\<lparr>env := bs\<rparr>))"

text \<open>The parent after a successful \<open>fork\<close>.\<close>

definition proc_running :: "addon \<Rightarrow> addon" where
  "proc_running s =
     s\<lparr>palive := True, in_open := True, rbuf := [], pstate := Starting,
       failCount := failCount s + 1, watchdog := True, wire := [], answered := 0\<rparr>"

text \<open>\<open>start\<close>; whether the pipes and the process can be made is the next answer of \<open>env\<close>.\<close>

definition start_proc :: "addon \<Rightarrow> bool \<times> addon" where
  "start_proc s =
     (if palive s then (True, s)
      else if 5 \<le> failCount s then (False, s\<lparr>gaveUp := True\<rparr>)
      else
        let (ok, s1) = take_env s in
        if \<not> ok then (False, s1)
        else (True, proc_running s1))"

definition candidateHandler :: "addon \<Rightarrow> handler" where
  "candidateHandler s = CandHandler (icRef s) (epoch s) (buf s) (revision s)"

definition scheduleRestart :: "addon \<Rightarrow> addon" where
  "scheduleRestart s = (if restartSource s \<or> gaveUp s then s else s\<lparr>restartSource := True\<rparr>)"

text \<open>Closing the process: \<open>stop\<close> from the exit of the child up to the call of the handlers. The
  line \<open>Q\<close> written before and the wait for the exit change nothing of the state.\<close>

definition close_proc :: "addon \<Rightarrow> addon" where
  "close_proc s = s\<lparr>palive := False, in_open := False, pstate := Dead, watchdog := False, pending := []\<rparr>"

subsection \<open>Callbacks\<close>

text \<open>\<open>lost\<close> is what is done with the handler of a command that is lost.\<close>

definition stop_with :: "(handler \<Rightarrow> addon \<Rightarrow> addon) \<Rightarrow> addon \<Rightarrow> addon" where
  "stop_with lost s = fold lost (pending s) (close_proc s)"

definition die_with :: "(handler \<Rightarrow> addon \<Rightarrow> addon) \<Rightarrow> addon \<Rightarrow> addon" where
  "die_with lost s = scheduleRestart (stop_with lost s)"

definition send_with :: "(handler \<Rightarrow> addon \<Rightarrow> addon) \<Rightarrow> string \<Rightarrow> handler \<Rightarrow> addon \<Rightarrow> addon" where
  "send_with lost line h s =
     (if \<not> palive s \<or> \<not> in_open s then lost h s
      else
        let (ok, s1) = take_env s in
        if \<not> ok then lost h (die_with lost s1)
        else s1\<lparr>pending := pending s1 @ [h], wire := wire s1 @ [(line, h)]\<rparr>)"

definition ensureEngine_with :: "(handler \<Rightarrow> addon \<Rightarrow> addon) \<Rightarrow> addon \<Rightarrow> addon" where
  "ensureEngine_with lost s =
     (if palive s \<or> gaveUp s then s
      else
        let (ok, s1) = start_proc (s\<lparr>spansEnabled := False\<rparr>) in
        if \<not> ok then s1 else send_with lost ''OPT spans'' SpansHandler s1)"

definition requestCandidates_with :: "(handler \<Rightarrow> addon \<Rightarrow> addon) \<Rightarrow> string \<Rightarrow> addon \<Rightarrow> addon" where
  "requestCandidates_with lost keys s =
     (if buf s = [] \<or> keys = [] then s
      else let s1 = ensureEngine_with lost s in send_with lost (''B '' @ keys) (candidateHandler s1) s1)"

text \<open>A handler with the empty response.\<close>

primrec run_lost :: "conf \<Rightarrow> nat \<Rightarrow> handler \<Rightarrow> addon \<Rightarrow> addon" where
  "run_lost cf 0 h s = s\<lparr>stuck := True\<rparr>"
| "run_lost cf (Suc n) h s = (case h of
       NoHandler \<Rightarrow> s
     | SpansHandler \<Rightarrow> s\<lparr>spansEnabled := False\<rparr>
     | CandHandler ref ep eb er \<Rightarrow>
         (case deref ref s of
           None \<Rightarrow> s
         | Some ic \<Rightarrow>
             if deref (icRef s) s \<noteq> Some ic \<or> ep \<noteq> epoch s then s
             else if \<not> (er = revision s \<and> eb = buf s) then s
             else
               let s1 = updateUI cf ic s in
               if buf s1 \<noteq> [] \<and> \<not> recoveryTried s1 then
                 let s2 = ensureEngine_with (run_lost cf n) (s1\<lparr>recoveryTried := True\<rparr>)
                 in requestCandidates_with (run_lost cf n) (buf s2) s2
               else s1))"

definition lost :: "conf \<Rightarrow> handler \<Rightarrow> addon \<Rightarrow> addon" where "lost cf = run_lost cf 2"

definition stop :: "conf \<Rightarrow> addon \<Rightarrow> addon" where "stop cf = stop_with (lost cf)"
definition die :: "conf \<Rightarrow> addon \<Rightarrow> addon" where "die cf = die_with (lost cf)"
definition send :: "conf \<Rightarrow> string \<Rightarrow> handler \<Rightarrow> addon \<Rightarrow> addon" where "send cf = send_with (lost cf)"
definition ensureEngine :: "conf \<Rightarrow> addon \<Rightarrow> addon" where "ensureEngine cf = ensureEngine_with (lost cf)"
definition requestCandidates :: "conf \<Rightarrow> string \<Rightarrow> addon \<Rightarrow> addon" where
  "requestCandidates cf = requestCandidates_with (lost cf)"

subsection \<open>Small frames\<close>

lemma take_env_frame: "take_env s = (ok, s') \<Longrightarrow> \<exists>e. s' = s\<lparr>env := e\<rparr>"
  by (auto simp: take_env_def split: list.split_asm intro: exI [of _ "env s"])

lemma updateUI_frame:
  "\<exists>ws sel pn. updateUI cf ic s = s\<lparr>windowStart := ws, selected := sel, renderedPageSize := pageSize s, panels := pn\<rparr>"
proof -
  obtain ws sel where n: "snd (normalizePage s) = s\<lparr>windowStart := ws, selected := sel\<rparr>"
    using normalizePage_frame by blast
  show ?thesis unfolding updateUI_eq n Let_def by (intro exI) simp
qed

lemma updateUI_sel [simp]:
  "palive (updateUI cf ic s) = palive s" "in_open (updateUI cf ic s) = in_open s" "rbuf (updateUI cf ic s) = rbuf s"
  "pstate (updateUI cf ic s) = pstate s" "pending (updateUI cf ic s) = pending s" "failCount (updateUI cf ic s) = failCount s"
  "gaveUp (updateUI cf ic s) = gaveUp s" "watchdog (updateUI cf ic s) = watchdog s" "env (updateUI cf ic s) = env s"
  "wire (updateUI cf ic s) = wire s" "answered (updateUI cf ic s) = answered s" "buf (updateUI cf ic s) = buf s"
  "cands (updateUI cf ic s) = cands s" "covers (updateUI cf ic s) = covers s" "spansEnabled (updateUI cf ic s) = spansEnabled s"
  "candidatesCurrent (updateUI cf ic s) = candidatesCurrent s" "recoveryTried (updateUI cf ic s) = recoveryTried s"
  "revision (updateUI cf ic s) = revision s" "epoch (updateUI cf ic s) = epoch s" "icRef (updateUI cf ic s) = icRef s"
  "restartSource (updateUI cf ic s) = restartSource s" "pendingSpace (updateUI cf ic s) = pendingSpace s"
  "pendingTimer (updateUI cf ic s) = pendingTimer s" "queued (updateUI cf ic s) = queued s"
  "draining (updateUI cf ic s) = draining s" "ic_live (updateUI cf ic s) = ic_live s" "history (updateUI cf ic s) = history s"
  "page_cfg (updateUI cf ic s) = page_cfg s" "outp (updateUI cf ic s) = outp s" "stuck (updateUI cf ic s) = stuck s"
  using updateUI_frame [of cf ic s] by auto


subsection \<open>Invariants\<close>

text \<open>The pipe: while the process runs, the waiting handlers are those of the commands that have
  not been answered yet, in the order in which the commands were written.\<close>

definition pipe_inv :: "addon \<Rightarrow> bool" where
  "pipe_inv s \<longleftrightarrow> failCount s \<le> 5 \<and>
     (if palive s then in_open s \<and> pstate s \<noteq> Dead \<and> answered s \<le> length (wire s) \<and>
        pending s = map snd (drop (answered s) (wire s)) \<and> (pstate s = Starting \<longrightarrow> watchdog s \<and> answered s = 0)
      else \<not> in_open s \<and> pstate s = Dead \<and> pending s = [] \<and> \<not> watchdog s)"

definition letters :: "string \<Rightarrow> bool" where
  "letters t \<longleftrightarrow> (\<forall>c \<in> set t. 97 \<le> (of_char c :: nat) \<and> (of_char c :: nat) \<le> 122)"

text \<open>A command line that is printable, not empty and not \<open>Q\<close>: shorter than the daemon's line buffer it is read as
  it is.\<close>

definition good_line :: "string \<Rightarrow> bool" where
  "good_line l \<longleftrightarrow> l \<noteq> [] \<and> l \<noteq> ''Q'' \<and> (\<forall>c \<in> set l. 32 \<le> (of_char c :: nat) \<and> (of_char c :: nat) < 127)"

definition wire_inv :: "addon \<Rightarrow> bool" where
  "wire_inv s \<longleftrightarrow> letters (buf s) \<and> (\<forall>(l, h) \<in> set (wire s). good_line l)"

text \<open>The candidate indices: inside the list when there is one.\<close>

definition index_inv :: "addon \<Rightarrow> bool" where
  "index_inv s \<longleftrightarrow> length (covers s) = length (cands s) \<and>
     (cands s = [] \<or> 0 \<le> windowStart s \<and> windowStart s < int (length (cands s)) \<and>
        0 \<le> selected s \<and> selected s < int (length (cands s)))"

text \<open>What callbacks leave alone: the composition, the candidates, the waiting space, the history
  and what has been committed; they keep the invariants and are never nested too deep.\<close>

definition calm :: "addon \<Rightarrow> addon \<Rightarrow> bool" where
  "calm s s' \<longleftrightarrow> buf s' = buf s \<and> cands s' = cands s \<and> covers s' = covers s \<and>
     candidatesCurrent s' = candidatesCurrent s \<and> revision s' = revision s \<and> epoch s' = epoch s \<and>
     icRef s' = icRef s \<and> pendingSpace s' = pendingSpace s \<and> pendingTimer s' = pendingTimer s \<and>
     queued s' = queued s \<and> draining s' = draining s \<and> ic_live s' = ic_live s \<and> history s' = history s \<and>
     page_cfg s' = page_cfg s \<and> outp s' = outp s \<and> stuck s' = stuck s \<and>
     length (rbuf s') \<le> length (rbuf s) \<and> (recoveryTried s \<longrightarrow> recoveryTried s') \<and> (gaveUp s \<longrightarrow> gaveUp s') \<and>
     (restartSource s \<longrightarrow> restartSource s') \<and>
     (pipe_inv s \<longrightarrow> pipe_inv s') \<and> (wire_inv s \<longrightarrow> wire_inv s') \<and> (index_inv s \<longrightarrow> index_inv s')"

lemma calm_refl [simp]: "calm s s"
  by (simp add: calm_def)

lemma calm_trans: "calm s s1 \<Longrightarrow> calm s1 s2 \<Longrightarrow> calm s s2"
  unfolding calm_def by (intro conjI) (elim conjE, (simp; fail | linarith))+

lemma calm_sel:
  assumes "calm s s'"
  shows "buf s' = buf s" "cands s' = cands s" "covers s' = covers s" "candidatesCurrent s' = candidatesCurrent s"
    "revision s' = revision s" "epoch s' = epoch s" "icRef s' = icRef s" "pendingSpace s' = pendingSpace s"
    "pendingTimer s' = pendingTimer s" "queued s' = queued s" "draining s' = draining s" "ic_live s' = ic_live s"
    "history s' = history s" "page_cfg s' = page_cfg s" "outp s' = outp s" "stuck s' = stuck s"
  using assms by (simp_all add: calm_def)

lemma calm_inv:
  assumes "calm s s'"
  shows "recoveryTried s \<Longrightarrow> recoveryTried s'" "pipe_inv s \<Longrightarrow> pipe_inv s'" "wire_inv s \<Longrightarrow> wire_inv s'"
    "index_inv s \<Longrightarrow> index_inv s'" "length (rbuf s') \<le> length (rbuf s)" "gaveUp s \<Longrightarrow> gaveUp s'" "restartSource s \<Longrightarrow> restartSource s'"
  using assms by (simp_all add: calm_def)

lemma updateUI_index: "length (covers s) = length (cands s) \<Longrightarrow> index_inv (updateUI cf ic s)"
proof -
  assume l: "length (covers s) = length (cands s)"
  obtain ws sel where n: "snd (normalizePage s) = s\<lparr>windowStart := ws, selected := sel\<rparr>"
    using normalizePage_frame by blast
  have "page_ok (s\<lparr>windowStart := ws, selected := sel\<rparr>)" using normalizePage_ok [of s] by (simp add: n)
  then have "cands s = [] \<or> 0 \<le> ws \<and> ws \<le> sel \<and> sel < int (length (cands s))"
    by (auto simp: page_ok_def split: if_split_asm)
  then show ?thesis using l unfolding updateUI_eq n Let_def by (auto simp: index_inv_def)
qed

lemma calm_updateUI: "calm s (updateUI cf ic s)"
  using updateUI_index [of s cf ic] by (simp add: calm_def pipe_inv_def wire_inv_def) (simp add: index_inv_def)

lemma calm_take_env: "take_env s = (ok, s') \<Longrightarrow> calm s s'"
  by (auto simp: take_env_def calm_def pipe_inv_def wire_inv_def index_inv_def split: list.split_asm)

lemma calm_flags:
  "calm s (s\<lparr>spansEnabled := b\<rparr>)" "calm s (s\<lparr>recoveryTried := True\<rparr>)" "calm s (scheduleRestart s)"
  by (simp_all add: calm_def pipe_inv_def wire_inv_def index_inv_def scheduleRestart_def)

lemma calm_close: "calm s (close_proc s)"
  by (simp add: calm_def pipe_inv_def wire_inv_def index_inv_def close_proc_def)

lemma calm_start: "start_proc s = (ok, s') \<Longrightarrow> calm s s'"
proof -
  assume st: "start_proc s = (ok, s')"
  obtain r s1 where t: "take_env s = (r, s1)" by fastforce
  note c = calm_take_env [OF t]
  obtain e where e: "s1 = s\<lparr>env := e\<rparr>" using take_env_frame [OF t] by blast
  show ?thesis
  proof (cases "\<not> palive s \<and> \<not> 5 \<le> failCount s \<and> r")
    case True
    then have "s' = proc_running s1" using st t by (simp add: start_proc_def)
    then show ?thesis using True by (simp add: e proc_running_def calm_def pipe_inv_def wire_inv_def index_inv_def)
  next
    case False
    have "calm s (s\<lparr>gaveUp := True\<rparr>)" by (simp add: calm_def pipe_inv_def wire_inv_def index_inv_def)
    then show ?thesis using False st t c by (auto simp: start_proc_def split: if_split_asm)
  qed
qed

lemma calm_push:
  "good_line line \<Longrightarrow> palive s \<Longrightarrow> calm s (s\<lparr>pending := pending s @ [h], wire := wire s @ [(line, h)]\<rparr>)"
  by (auto simp: calm_def pipe_inv_def wire_inv_def index_inv_def)

lemma good_B: "letters keys \<Longrightarrow> good_line (''B '' @ keys)"
  by (fastforce simp: good_line_def letters_def)

subsection \<open>Calling handlers back\<close>

text \<open>What the process needs of the handlers it calls: they are calm, at least as long as the
  states they start from satisfy a condition that calm steps keep.\<close>

locale handlers =
  fixes lost :: "handler \<Rightarrow> addon \<Rightarrow> addon" and P :: "addon \<Rightarrow> bool"
  assumes lost_calm: "P s \<Longrightarrow> calm s (lost h s)"
    and P_calm: "P s \<Longrightarrow> calm s s' \<Longrightarrow> P s'"
begin

lemma fold_calm: "P s \<Longrightarrow> calm s (fold lost hs s)"
proof (induction hs arbitrary: s)
  case Nil
  then show ?case by simp
next
  case (Cons h hs)
  note c = lost_calm [OF Cons.prems, of h]
  show ?case using Cons.IH [OF P_calm [OF Cons.prems c]] calm_trans [OF c] by simp
qed

lemma stop_calm: "P s \<Longrightarrow> calm s (stop_with lost s)"
  unfolding stop_with_def using fold_calm P_calm calm_close calm_trans by blast

lemma die_calm: "P s \<Longrightarrow> calm s (die_with lost s)"
  unfolding die_with_def using stop_calm calm_flags(3) calm_trans by blast

lemma send_calm:
  assumes p: "P s" and g: "good_line line"
  shows "calm s (send_with lost line h s)"
proof (cases "palive s \<and> in_open s")
  case False
  then show ?thesis using lost_calm [OF p] by (auto simp: send_with_def)
next
  case True
  obtain ok s1 where t: "take_env s = (ok, s1)" by fastforce
  note c = calm_take_env [OF t]
  show ?thesis
  proof (cases ok)
    case False
    note d = die_calm [OF P_calm [OF p c]]
    have "calm s (lost h (die_with lost s1))"
      using calm_trans [OF c calm_trans [OF d lost_calm [OF P_calm [OF P_calm [OF p c] d]]]] .
    then show ?thesis using True False t by (simp add: send_with_def)
  next
    case ok: True
    have "palive s1" using True take_env_frame [OF t] by auto
    then show ?thesis using True ok t calm_trans [OF c calm_push [OF g]] by (simp add: send_with_def)
  qed
qed

lemma ensureEngine_calm:
  assumes p: "P s"
  shows "calm s (ensureEngine_with lost s)"
proof (cases "palive s \<or> gaveUp s")
  case True
  then show ?thesis by (simp add: ensureEngine_with_def)
next
  case False
  obtain ok s1 where t: "start_proc (s\<lparr>spansEnabled := False\<rparr>) = (ok, s1)" by fastforce
  have c: "calm s s1" using calm_trans [OF calm_flags(1) calm_start [OF t]] .
  have "good_line ''OPT spans''" by (simp add: good_line_def)
  then have "calm s (send_with lost ''OPT spans'' SpansHandler s1)"
    using calm_trans [OF c send_calm [OF P_calm [OF p c]]] by blast
  then show ?thesis using False t c by (simp add: ensureEngine_with_def)
qed

lemma requestCandidates_calm:
  assumes p: "P s" and l: "letters keys"
  shows "calm s (requestCandidates_with lost keys s)"
  using calm_trans [OF ensureEngine_calm [OF p] send_calm [OF P_calm [OF p ensureEngine_calm [OF p]] good_B [OF l]]]
  by (simp add: requestCandidates_with_def Let_def)

end


lemma calm_lost_inner:
  assumes "recoveryTried s"
  shows "calm s (run_lost cf (Suc n) h s)"
  using assms calm_updateUI calm_flags(1) by (cases h) (auto simp: Let_def split: option.split)

interpretation inner: handlers "run_lost cf (Suc n)" recoveryTried for cf n
  by unfold_locales (rule calm_lost_inner, assumption, rule calm_inv(1))

lemma calm_lost:
  assumes "letters (buf s)"
  shows "calm s (lost cf h s)"
proof (cases h)
  case NoHandler
  then show ?thesis by (simp add: lost_def numeral_2_eq_2)
next
  case SpansHandler
  then show ?thesis using calm_flags(1) by (simp add: lost_def numeral_2_eq_2)
next
  case (CandHandler ref ep eb er)
  let ?L = "run_lost cf (Suc 0)"
  have rec: "calm s (let s2 = ensureEngine_with ?L ((updateUI cf ic s)\<lparr>recoveryTried := True\<rparr>)
                 in requestCandidates_with ?L (buf s2) s2)" for ic
  proof -
    let ?u = "(updateUI cf ic s)\<lparr>recoveryTried := True\<rparr>"
    let ?e = "ensureEngine_with ?L ?u"
    have c1: "calm s ?u" using calm_trans [OF calm_updateUI calm_flags(2)] .
    have c2: "calm ?u ?e" by (rule inner.ensureEngine_calm) simp
    have "buf ?e = buf s" using calm_sel(1) [OF c2] calm_sel(1) [OF c1] by simp
    moreover have "recoveryTried ?e" using calm_inv(1) [OF c2] by simp
    ultimately have "calm ?e (requestCandidates_with ?L (buf ?e) ?e)"
      using inner.requestCandidates_calm [of ?e "buf ?e" cf 0] assms by simp
    then show ?thesis using calm_trans [OF c1 calm_trans [OF c2]] by (simp add: Let_def)
  qed
  show ?thesis
  proof (cases "deref ref s")
    case None
    then show ?thesis by (simp add: CandHandler lost_def numeral_2_eq_2)
  next
    case (Some ic)
    then show ?thesis using rec [of ic] calm_updateUI [of s cf ic]
      by (simp add: CandHandler lost_def numeral_2_eq_2 Let_def)
  qed
qed

interpretation outer: handlers "lost cf" "\<lambda>s. letters (buf s)" for cf
  by unfold_locales (auto intro: calm_lost simp: calm_sel)

lemmas send_calm = outer.send_calm [folded send_def]
lemmas die_calm = outer.die_calm [folded die_def]
lemmas stop_calm = outer.stop_calm [folded stop_def]
lemmas ensureEngine_calm = outer.ensureEngine_calm [folded ensureEngine_def]
lemmas requestCandidates_calm = outer.requestCandidates_calm [folded requestCandidates_def]

lemma run_lost_more: "recoveryTried s \<Longrightarrow> run_lost cf (Suc n) h s = run_lost cf (Suc m) h s"
  by (auto simp: Let_def split: handler.split option.split)

end
