(* ===== verification/Addon_Keys.thy ===== *)
theory Addon_Keys
  imports Engine_Proc
begin

text \<open>
  The keys of the addon (\<open>WeTypeEngine\<close> in \<open>wetype.cpp\<close>): committing, the space that waits for
  candidates with the keys queued behind it, and \<open>processKey\<close>. A function that handles a key
  returns whether the event is filtered.
\<close>

subsection \<open>Committing\<close>

definition select_line :: "int \<Rightarrow> string" where
  "select_line index = ''S '' @ dec_string (nat index)"

definition remember :: "conf \<Rightarrow> nat \<Rightarrow> string \<Rightarrow> addon \<Rightarrow> addon" where
  "remember cf ic text s =
     s\<lparr>history := (history s)(ic := rememberTrailing (valid cf) text (history s ic))\<rparr>"

definition commitString :: "nat \<Rightarrow> string \<Rightarrow> addon \<Rightarrow> addon" where
  "commitString ic text s = s\<lparr>outp := outp s @ [Commit ic text]\<rparr>"

definition no_cands :: "addon \<Rightarrow> addon" where
  "no_cands s = s\<lparr>cands := [], covers := [], candidatesCurrent := False, windowStart := 0, selected := 0\<rparr>"

definition commitText :: "conf \<Rightarrow> nat \<Rightarrow> string \<Rightarrow> addon \<Rightarrow> addon" where
  "commitText cf ic text s =
     (let s1 = commitString ic text (remember cf ic text s);
          s2 = (no_cands (s1\<lparr>revision := revision s1 + 1, buf := []\<rparr>))\<lparr>recoveryTried := False\<rparr>
      in updateUI cf ic (send cf ''C'' NoHandler s2))"

definition commitCandidate :: "conf \<Rightarrow> nat \<Rightarrow> int \<Rightarrow> addon \<Rightarrow> addon" where
  "commitCandidate cf ic index s =
     (if \<not> candidatesCurrent s \<or> index < 0 \<or> int (length (cands s)) \<le> index then s
      else
        let cover = (if index < int (length (covers s)) then covers s ! nat index else 0);
            text = cands s ! nat index
        in if cover \<le> 0 \<or> int (length (buf s)) \<le> cover then
             commitText cf ic text (send cf (select_line index) NoHandler s)
           else
             let s1 = commitString ic text (remember cf ic text s);
                 s2 = no_cands (s1\<lparr>revision := revision s1 + 1, buf := drop (nat cover) (buf s1)\<rparr>)
             in updateUI cf ic (send cf (select_line index) (candidateHandler s2) s2))"

definition disarmPending :: "addon \<Rightarrow> addon" where
  "disarmPending s = s\<lparr>pendingSpace := False, pendingTimer := None\<rparr>"

definition cancelPending :: "addon \<Rightarrow> addon" where
  "cancelPending s = (disarmPending s)\<lparr>queued := []\<rparr>"

definition clearAll :: "conf \<Rightarrow> nat option \<Rightarrow> addon \<Rightarrow> addon" where
  "clearAll cf ico s =
     (let s1 = cancelPending s;
          s2 = (no_cands (s1\<lparr>epoch := epoch s1 + 1, revision := revision s1 + 1, buf := []\<rparr>))\<lparr>recoveryTried := False\<rparr>;
          s3 = send cf ''C'' NoHandler s2
      in case ico of None \<Rightarrow> s3 | Some ic \<Rightarrow> updateUI cf ic s3)"

subsection \<open>The waiting space\<close>

definition forward_releases :: "nat \<Rightarrow> key_event list \<Rightarrow> addon \<Rightarrow> addon" where
  "forward_releases ic keys s = s\<lparr>outp := outp s @ map (Forward ic) (filter release keys)\<rparr>"

definition fallbackPending :: "conf \<Rightarrow> nat \<Rightarrow> addon \<Rightarrow> addon" where
  "fallbackPending cf ic s =
     (let raw = pendingRaw s; keys = queued s
      in forward_releases ic keys (commitText cf ic raw (cancelPending s)))"

definition armPending :: "conf \<Rightarrow> nat \<Rightarrow> addon \<Rightarrow> addon" where
  "armPending cf ic s =
     (let s1 = updateUI cf ic (s\<lparr>pendingSpace := True, pendingTimer := Some (ic, epoch s)\<rparr>)
      in if (candidatesCurrent s1 \<and> cands s1 = []) \<or> gaveUp s1 then fallbackPending cf ic s1 else s1)"

text \<open>The latest press in the queue, without the first release of the same key behind it.\<close>

definition remove_first :: "('a \<Rightarrow> bool) \<Rightarrow> 'a list \<Rightarrow> 'a list" where
  "remove_first p xs = takeWhile (\<lambda>x. \<not> p x) xs @ tl (dropWhile (\<lambda>x. \<not> p x) xs)"

definition erase_last_press :: "key_event list \<Rightarrow> key_event list option" where
  "erase_last_press q = (case dropWhile release (rev q) of
       [] \<Rightarrow> None
     | p # prior \<Rightarrow>
         Some (rev prior @ remove_first (\<lambda>k. release k \<and> raw_sym k = raw_sym p) (rev (takeWhile release (rev q)))))"

definition pending_key :: "conf \<Rightarrow> nat \<Rightarrow> key_event \<Rightarrow> addon \<Rightarrow> bool \<times> addon" where
  "pending_key cf ic k s =
     (if \<not> release k \<and> \<not> shortcut k \<and> sym k = Escape then (True, clearAll cf (Some ic) s)
      else if \<not> release k \<and> \<not> shortcut k \<and> sym k = BackSpace then
        (case erase_last_press (queued s) of
          Some q \<Rightarrow> (True, updateUI cf ic (s\<lparr>queued := q\<rparr>))
        | None \<Rightarrow>
            let s1 = s\<lparr>buf := butlast (buf s), revision := revision s + 1, candidatesCurrent := False,
                       cands := [], covers := []\<rparr>;
                s2 = send cf ''C'' NoHandler s1
            in (True, if buf s2 = [] then fallbackPending cf ic s2
                      else updateUI cf ic (requestCandidates cf (buf s2) s2)))
      else if \<not> release k \<and> (ktext k = [] \<or> shortcut k) then
        (\<not> shortcut k \<and> sym k = Return, fallbackPending cf ic s)
      else
        let s1 = s\<lparr>queued := queued s @ [k]\<rparr>
        in (True, if 256 \<le> length (queued s1) then fallbackPending cf ic s1 else updateUI cf ic s1))"

subsection \<open>Keys without a waiting space\<close>

definition code_in :: "nat \<Rightarrow> nat \<Rightarrow> keysym \<Rightarrow> bool" where
  "code_in lo hi k = (case k of Ascii c \<Rightarrow> lo \<le> of_char c \<and> of_char c \<le> hi | _ \<Rightarrow> False)"

definition the_char :: "keysym \<Rightarrow> char" where
  "the_char k = (case k of Ascii c \<Rightarrow> c | _ \<Rightarrow> CHR 0x00)"

definition is_kp :: "keysym \<Rightarrow> bool" where
  "is_kp k = (case k of KP_digit d \<Rightarrow> True | _ \<Rightarrow> False)"

definition is_lower :: "keysym \<Rightarrow> bool" where "is_lower = code_in 97 122"
definition is_upper :: "keysym \<Rightarrow> bool" where "is_upper = code_in 65 90"

definition lower_of :: "keysym \<Rightarrow> char" where
  "lower_of k = (if is_lower k then the_char k else char_of (of_char (the_char k) + (32 :: nat)))"

definition letter_key :: "conf \<Rightarrow> nat \<Rightarrow> keysym \<Rightarrow> addon \<Rightarrow> addon" where
  "letter_key cf ic k s =
     (let s0 = (if buf s = [] then s\<lparr>recoveryTried := False\<rparr> else s);
          replay = (\<not> palive s0 \<and> buf s0 \<noteq> []);
          s1 = ensureEngine cf s0;
          s2 = s1\<lparr>revision := revision s1 + 1, buf := buf s1 @ [lower_of k], candidatesCurrent := False\<rparr>;
          s3 = updateUI cf ic s2
      in requestCandidates cf (if replay then buf s3 else [lower_of k]) s3)"

definition arrow_key :: "conf \<Rightarrow> nat \<Rightarrow> keysym \<Rightarrow> addon \<Rightarrow> addon" where
  "arrow_key cf ic k s =
     (let page = pageSize s; n = int (length (cands s));
          s1 =
            (if k = Left \<and> windowStart s < selected s then s\<lparr>selected := selected s - 1\<rparr>
             else if k = Right \<and> selected s + 1 < min (windowStart s + page) n then s\<lparr>selected := selected s + 1\<rparr>
             else if k = Up \<and> 0 < windowStart s then
               let ws = max 0 (windowStart s - page) in s\<lparr>windowStart := ws, selected := ws\<rparr>
             else if k = Down \<and> windowStart s + page < n then
               let ws = windowStart s + page in s\<lparr>windowStart := ws, selected := ws\<rparr>
             else s)
      in updateUI cf ic s1)"

definition page_back :: "conf \<Rightarrow> nat \<Rightarrow> addon \<Rightarrow> addon" where
  "page_back cf ic s =
     (if 0 < windowStart s then
        let ws = max 0 (windowStart s - pageSize s) in updateUI cf ic (s\<lparr>windowStart := ws, selected := ws\<rparr>)
      else s)"

definition page_forward :: "conf \<Rightarrow> nat \<Rightarrow> addon \<Rightarrow> addon" where
  "page_forward cf ic s =
     (if candidatesCurrent s \<and> windowStart s + pageSize s < int (length (cands s)) then
        let ws = windowStart s + pageSize s in updateUI cf ic (s\<lparr>windowStart := ws, selected := ws\<rparr>)
      else s)"

definition punct_for :: "nat \<Rightarrow> char \<Rightarrow> bool \<Rightarrow> addon \<Rightarrow> string \<times> addon" where
  "punct_for ic key wide s =
     (let (t, st) = punctFor key wide (history s ic) in (t, s\<lparr>history := (history s)(ic := st)\<rparr>))"

definition punct_key :: "conf \<Rightarrow> nat \<Rightarrow> char \<Rightarrow> addon \<Rightarrow> bool \<times> addon" where
  "punct_key cf ic key s =
     (let wide = (\<lambda>text. fullwidthPunctuation (valid cf) (structured cf ic) (history s ic) key text) in
      if buf s \<noteq> [] then
        let text = (if \<not> candidatesCurrent s \<or> cands s = [] then buf s else cands s ! nat (selected s));
            (punct, s1) = punct_for ic key (wide text) s
        in if punct \<noteq> [] then
             let s2 = (if candidatesCurrent s1 \<and> cands s1 \<noteq> [] then send cf (select_line (selected s1)) NoHandler s1 else s1)
             in (True, commitText cf ic (text @ punct) s2)
           else (False, s1)
      else if wide [] then
        let (punct, s1) = punct_for ic key True s
        in (True, commitString ic punct (remember cf ic punct s1))
      else (False, s))"

definition digit_key :: "conf \<Rightarrow> nat \<Rightarrow> keysym \<Rightarrow> addon \<Rightarrow> bool \<times> addon" where
  "digit_key cf ic k s =
     (let ordinal = (if k = Ascii (CHR ''0'') then 9 else of_char (the_char k) - 49);
          idx = windowStart s + ordinal
      in if ordinal < pageSize s \<and> candidatesCurrent s \<and> cands s \<noteq> [] \<and> idx < int (length (cands s))
         then (True, commitCandidate cf ic idx s) else (False, s))"

definition backspace_key :: "conf \<Rightarrow> nat \<Rightarrow> addon \<Rightarrow> addon" where
  "backspace_key cf ic s =
     (let s1 = send cf ''C'' NoHandler
            (s\<lparr>buf := butlast (buf s), revision := revision s + 1, candidatesCurrent := False\<rparr>)
      in if buf s1 = [] then updateUI cf ic (no_cands s1)
         else updateUI cf ic (requestCandidates cf (buf s1) s1))"

text \<open>Before a key is looked at: the page is aligned, and a digit outside a composition is
  remembered.\<close>

definition idle_prepare :: "conf \<Rightarrow> nat \<Rightarrow> keysym \<Rightarrow> addon \<Rightarrow> addon" where
  "idle_prepare cf ic y s =
     (let (changed, n) = normalizePage s;
          u = (if changed then updateUI cf ic n else n)
      in if buf u = [] \<and> (code_in 48 57 y \<or> is_kp y)
         then u\<lparr>history := (history u)(ic := (history u ic)\<lparr>afterDigit := True\<rparr>)\<rparr> else u)"

definition idle_dispatch :: "conf \<Rightarrow> nat \<Rightarrow> keysym \<Rightarrow> bool \<Rightarrow> addon \<Rightarrow> bool \<times> addon" where
  "idle_dispatch cf ic y shifted s =
     (if buf s = [] \<and> is_upper y \<and> shifted then
        (True, commitString ic [the_char y] (remember cf ic [the_char y] s))
      else if is_lower y \<or> is_upper y then (True, letter_key cf ic y s)
      else if buf s \<noteq> [] \<and> candidatesCurrent s \<and> cands s \<noteq> [] \<and> y \<in> {Left, Right, Up, Down} then
        (True, arrow_key cf ic y s)
      else if buf s \<noteq> [] \<and> (y = Ascii (CHR ''-'') \<or> y = Page_Up) then (True, page_back cf ic s)
      else if buf s \<noteq> [] \<and> (y = Ascii (CHR ''='') \<or> y = Ascii (CHR ''+'') \<or> y = KP_Add \<or> y = Page_Down) then
        (True, page_forward cf ic s)
      else if y = Ascii (the_char y) \<and> ownsPunctuation (the_char y) then punct_key cf ic (the_char y) s
      else if code_in 49 57 y \<or> (y = Ascii (CHR ''0'') \<and> 10 \<le> pageSize s) then digit_key cf ic y s
      else if y = Ascii SP then
        (if buf s = [] then (False, s)
         else (True, if candidatesCurrent s \<and> cands s \<noteq> [] then commitCandidate cf ic (selected s) s
                     else armPending cf ic s))
      else if y = Return then
        (if buf s = [] then (False, s) else (True, commitText cf ic (buf s) s))
      else if y = BackSpace then
        (if buf s = [] then (False, s) else (True, backspace_key cf ic s))
      else if y = Escape then
        (if buf s = [] then (False, s) else (True, clearAll cf (Some ic) s))
      else (False, s))"

definition idle_key :: "conf \<Rightarrow> nat \<Rightarrow> key_event \<Rightarrow> addon \<Rightarrow> bool \<times> addon" where
  "idle_key cf ic k s = idle_dispatch cf ic (sym k) (raw_shift k) (idle_prepare cf ic (sym k) s)"

definition processKey :: "conf \<Rightarrow> nat \<Rightarrow> key_event \<Rightarrow> addon \<Rightarrow> bool \<times> addon" where
  "processKey cf ic k s =
     (let s1 = (if deref (icRef s) s \<noteq> Some ic then clearAll cf None s else s);
          s2 = s1\<lparr>icRef := Some ic\<rparr>
      in if pendingSpace s2 then pending_key cf ic k s2
         else if shortcut k then (False, s2)
         else if release k then (False, s2)
         else idle_key cf ic k s2)"

end
