(* ===== verification/Addon_Events.thy ===== *)
theory Addon_Events
  imports Addon_Keys
begin

text \<open>
  Everything that can happen to the addon (\<open>wetype.cpp\<close>): replies of the engine and their
  handlers, the queue behind a waiting space, timers, focus changes. \<open>on_event\<close> is the reaction
  to one event, a run is a list of events.
\<close>

subsection \<open>The queue\<close>

text \<open>\<open>drainQueued\<close>: the loop, for at most as many turns as there are queued keys.\<close>

fun drain_loop :: "conf \<Rightarrow> nat \<Rightarrow> nat \<Rightarrow> addon \<Rightarrow> addon" where
  "drain_loop cf ic 0 s = s"
| "drain_loop cf ic (Suc k) s =
     (if pendingSpace s \<or> deref (icRef s) s \<noteq> Some ic then s
      else case queued s of
          [] \<Rightarrow> s
        | q # qs \<Rightarrow>
            let (filtered, s1) = processKey cf ic q (s\<lparr>queued := qs\<rparr>);
                s2 = (if filtered then s1 else s1\<lparr>outp := outp s1 @ [Forward ic q]\<rparr>)
            in drain_loop cf ic k s2)"

definition drainQueued :: "conf \<Rightarrow> nat \<Rightarrow> addon \<Rightarrow> addon" where
  "drainQueued cf ic s =
     (if draining s then s
      else (drain_loop cf ic (length (queued s)) (s\<lparr>draining := True\<rparr>))\<lparr>draining := False\<rparr>)"

subsection \<open>Replies\<close>

definition starts :: "string \<Rightarrow> string \<Rightarrow> bool" where
  "starts p s \<longleftrightarrow> take (length p) s = p"

definition CAND_TAB :: string where "CAND_TAB = ''CAND'' @ [TAB]"

definition COLON :: char where "COLON = CHR '':''"

text \<open>One item of a candidate line: cover length and text.\<close>

definition parse_item :: "bool \<Rightarrow> string \<Rightarrow> (int \<times> string) option" where
  "parse_item spans item =
     (if spans then
        (if COLON \<notin> set item then None
         else let text = tl (dropWhile (\<lambda>c. c \<noteq> COLON) item)
              in if text = [] then None else Some (atoi item, text))
      else if item = [] then None else Some (0, item))"

definition parse_reply :: "bool \<Rightarrow> string \<Rightarrow> (int \<times> string) list" where
  "parse_reply spans resp =
     (if starts CAND_TAB resp then List.map_filter (parse_item spans) (getlines TAB (drop 5 resp)) else [])"

definition is_prefix_of :: "string \<Rightarrow> string \<Rightarrow> bool" where
  "is_prefix_of e b \<longleftrightarrow> length e < length b \<and> take (length e) b = e"

text \<open>The handler of candidates with a response that is not empty.\<close>

definition cand_reply :: "conf \<Rightarrow> nat option \<Rightarrow> nat \<Rightarrow> string \<Rightarrow> nat \<Rightarrow> string \<Rightarrow> addon \<Rightarrow> addon" where
  "cand_reply cf ref ep eb er resp s =
     (case deref ref s of
       None \<Rightarrow> s
     | Some ic \<Rightarrow>
         if deref (icRef s) s \<noteq> Some ic \<or> ep \<noteq> epoch s \<or> resp = ''SKIP'' then s
         else
           let current = (er = revision s \<and> eb = buf s);
               preview = (\<not> current \<and> eb \<noteq> [] \<and> is_prefix_of eb (buf s) \<and> starts CAND_TAB resp)
           in
           if \<not> current \<and> \<not> preview then s
           else if resp \<noteq> ''EMPTY'' \<and> \<not> starts CAND_TAB resp then
             (if recoveryTried s then (if pendingSpace s then fallbackPending cf ic s else s)
              else
                let s1 = send cf ''C'' NoHandler (s\<lparr>recoveryTried := True\<rparr>)
                in requestCandidates cf (buf s1) s1)
           else
             let items = parse_reply (spansEnabled s) resp;
                 s1 = updateUI cf ic (s\<lparr>cands := map snd items, covers := map fst items,
                        candidatesCurrent := current, windowStart := 0, selected := 0\<rparr>)
             in if current \<and> pendingSpace s1 then
                  (if cands s1 = [] then fallbackPending cf ic s1
                   else let s2 = disarmPending s1
                        in drainQueued cf ic (commitCandidate cf ic (selected s2) s2))
                else s1)"

definition run_reply :: "conf \<Rightarrow> handler \<Rightarrow> string \<Rightarrow> addon \<Rightarrow> addon" where
  "run_reply cf h resp s = (case h of
       NoHandler \<Rightarrow> s
     | SpansHandler \<Rightarrow> s\<lparr>spansEnabled := (resp = ''OK'')\<rparr>
     | CandHandler ref ep eb er \<Rightarrow> cand_reply cf ref ep eb er resp s)"

subsection \<open>The pipe of the engine\<close>

definition onLine :: "conf \<Rightarrow> string \<Rightarrow> addon \<Rightarrow> addon" where
  "onLine cf line s =
     (if pstate s = Starting then
        (if line = ''READY'' then s\<lparr>pstate := Ready, failCount := 0, watchdog := False\<rparr> else s)
      else if pstate s \<noteq> Ready then s
      else if line = [] then s
      else case pending s of
          [] \<Rightarrow> s
        | h # hs \<Rightarrow> run_reply cf h line (s\<lparr>pending := hs, answered := answered s + 1\<rparr>))"

fun line_loop :: "conf \<Rightarrow> nat \<Rightarrow> addon \<Rightarrow> addon" where
  "line_loop cf 0 s = s"
| "line_loop cf (Suc k) s =
     (if LF \<in> set (rbuf s) then
        let line = takeWhile (\<lambda>c. c \<noteq> LF) (rbuf s);
            s1 = s\<lparr>rbuf := tl (dropWhile (\<lambda>c. c \<noteq> LF) (rbuf s))\<rparr>
        in line_loop cf k (onLine cf line s1)
      else s)"

text \<open>\<open>onReadable\<close>: an empty chunk is the end of the stream or an error.\<close>

definition onReadable :: "conf \<Rightarrow> string \<Rightarrow> addon \<Rightarrow> addon" where
  "onReadable cf chunk s =
     (if chunk = [] then die cf s
      else let s1 = s\<lparr>rbuf := rbuf s @ chunk\<rparr> in line_loop cf (length (rbuf s1)) s1)"

subsection \<open>Timers and focus\<close>

definition restart_timer :: "conf \<Rightarrow> addon \<Rightarrow> addon" where
  "restart_timer cf s =
     (let s1 = s\<lparr>restartSource := False\<rparr> in
      if palive s1 then s1
      else let s2 = ensureEngine cf s1 in requestCandidates cf (buf s2) s2)"

definition pending_timer :: "conf \<Rightarrow> addon \<Rightarrow> addon" where
  "pending_timer cf s = (case pendingTimer s of
       None \<Rightarrow> s
     | Some (owner, ep) \<Rightarrow>
         if ic_live s owner \<and> deref (icRef s) s = Some owner \<and> ep = epoch s \<and> pendingSpace s
         then fallbackPending cf owner s else s)"

definition reset_im :: "conf \<Rightarrow> nat \<Rightarrow> addon \<Rightarrow> addon" where
  "reset_im cf ic s =
     (let had = (buf s \<noteq> [] \<or> cands s \<noteq> []);
          s1 = clearAll cf None (send cf ''SAVE'' NoHandler s)
      in if had then updateUI cf ic s1 else s1)"

definition deactivate :: "conf \<Rightarrow> nat \<Rightarrow> bool \<Rightarrow> addon \<Rightarrow> addon" where
  "deactivate cf ic switching s =
     (let s1 = (if switching \<and> buf s \<noteq> [] then
                  commitString ic (pendingRaw s) (remember cf ic (pendingRaw s) s)
                else if switching then
                  s\<lparr>history := (history s)(ic := (history s ic)\<lparr>afterDigit := False\<rparr>)\<rparr>
                else s);
          had = (buf s1 \<noteq> [] \<or> cands s1 \<noteq> []);
          s2 = clearAll cf None s1
      in if had then updateUI cf ic s2 else s2)"

text \<open>New surrounding text of a context: the text before the cursor, if the framework has it and it
  is not empty.\<close>

definition surrounding :: "conf \<Rightarrow> nat \<Rightarrow> string option \<Rightarrow> addon \<Rightarrow> addon" where
  "surrounding cf ic prior s =
     s\<lparr>history := (history s)(ic := (history s ic)\<lparr>afterDigit :=
        (case prior of None \<Rightarrow> False | Some t \<Rightarrow> endsWithDigit (valid cf) t)\<rparr>)\<rparr>"

subsection \<open>Events\<close>

datatype event =
    KeyEvent nat key_event
  | FromEngine string
  | StartTimeout
  | RestartTimer
  | PendingTimer
  | ResetIM nat
  | Deactivate nat bool
  | SurroundingText nat "string option"
  | Click nat int
  | PageConfig int
  | ContextGone nat

definition on_event :: "conf \<Rightarrow> event \<Rightarrow> addon \<Rightarrow> addon" where
  "on_event cf e s = (case e of
       KeyEvent ic k \<Rightarrow> snd (processKey cf ic k s)
     | FromEngine chunk \<Rightarrow> (if palive s then onReadable cf chunk s else s)
     | StartTimeout \<Rightarrow> (if watchdog s then die cf s else s)
     | RestartTimer \<Rightarrow> (if restartSource s then restart_timer cf s else s)
     | PendingTimer \<Rightarrow> pending_timer cf s
     | ResetIM ic \<Rightarrow> reset_im cf ic s
     | Deactivate ic switching \<Rightarrow> deactivate cf ic switching s
     | SurroundingText ic prior \<Rightarrow> surrounding cf ic prior s
     | Click ic index \<Rightarrow> commitCandidate cf ic index s
     | PageConfig n \<Rightarrow> s\<lparr>page_cfg := n\<rparr>
     | ContextGone ic \<Rightarrow> s\<lparr>ic_live := (ic_live s)(ic := False)\<rparr>)"

fun on_events :: "conf \<Rightarrow> event list \<Rightarrow> addon \<Rightarrow> addon" where
  "on_events cf [] s = s"
| "on_events cf (e # es) s = on_events cf es (on_event cf e s)"

text \<open>The addon after its constructor, with the contexts \<open>live\<close>: the engine is started at once.\<close>

definition fresh_history :: punct_state where
  "fresh_history = \<lparr>afterDigit = False, openDoubleQuote = True, openSingleQuote = True\<rparr>"

definition no_panel :: panel where
  "no_panel = \<lparr>preedit = [], shown = [], cursor = -1\<rparr>"

definition blank_addon :: "bool list \<Rightarrow> (nat \<Rightarrow> bool) \<Rightarrow> int \<Rightarrow> addon" where
  "blank_addon results live page =
     \<lparr>palive = False, in_open = False, rbuf = [], pstate = Dead, pending = [], failCount = 0, gaveUp = False,
      watchdog = False, env = results, wire = [], answered = 0, buf = [], cands = [], covers = [],
      spansEnabled = False, candidatesCurrent = False, windowStart = 0, selected = 0, renderedPageSize = 0,
      recoveryTried = False, revision = 0, epoch = 0, icRef = None, restartSource = False, pendingSpace = False,
      pendingTimer = None, queued = [], draining = False, ic_live = live, history = (\<lambda>_. fresh_history),
      panels = (\<lambda>_. no_panel), page_cfg = page, outp = [], stuck = False\<rparr>"

definition new_addon :: "conf \<Rightarrow> bool list \<Rightarrow> (nat \<Rightarrow> bool) \<Rightarrow> int \<Rightarrow> addon" where
  "new_addon cf results live page = ensureEngine cf (blank_addon results live page)"

end
