(* ===== verification/Addon_Props.thy ===== *)
theory Addon_Props
  imports Addon_Events
begin

text \<open>
  The invariant of the addon and that every event keeps it; what happens to the waiting space,
  to stale replies and to the text.
\<close>

subsection \<open>The invariant\<close>

text \<open>The part that also holds while the queue is drained. A waiting space has letters to commit,
  no selectable candidates, and a timer for the current context and epoch.\<close>

definition core_inv :: "addon \<Rightarrow> bool" where
  "core_inv s \<longleftrightarrow> pipe_inv s \<and> wire_inv s \<and> index_inv s \<and> \<not> stuck s \<and>
     (pendingSpace s \<longrightarrow> buf s \<noteq> [] \<and> \<not> candidatesCurrent s \<and>
        (\<exists>ic. icRef s = Some ic \<and> pendingTimer s = Some (ic, epoch s)))"

definition addon_inv :: "addon \<Rightarrow> bool" where
  "addon_inv s \<longleftrightarrow> core_inv s \<and> \<not> draining s \<and> (queued s = [] \<or> pendingSpace s)"

text \<open>A step that keeps the invariant, the contexts, and the queue or empties it.\<close>

definition after :: "addon \<Rightarrow> addon \<Rightarrow> bool" where
  "after s s' \<longleftrightarrow> core_inv s' \<and> (queued s' = queued s \<or> queued s' = []) \<and> draining s' = draining s \<and>
     ic_live s' = ic_live s \<and> icRef s' = icRef s"

lemma core_letters: "core_inv s \<Longrightarrow> letters (buf s)"
  by (simp add: core_inv_def wire_inv_def)

lemma core_calm: "core_inv s \<Longrightarrow> calm s s' \<Longrightarrow> core_inv s'"
proof -
  assume i: "core_inv s" and c: "calm s s'"
  have "pipe_inv s'" "wire_inv s'" "index_inv s'" using i calm_inv(2-4) [OF c] by (simp_all add: core_inv_def)
  then show ?thesis using i by (simp add: core_inv_def calm_sel [OF c])
qed

lemma after_calm: "core_inv s \<Longrightarrow> calm s s' \<Longrightarrow> after s s'"
  by (simp add: after_def core_calm calm_sel)

lemma after_trans: "after s s1 \<Longrightarrow> (core_inv s1 \<Longrightarrow> after s1 s2) \<Longrightarrow> after s s2"
  by (auto simp: after_def)

lemma after_refl: "core_inv s \<Longrightarrow> after s s"
  by (simp add: after_def)

lemma letters_simps [simp]:
  "letters []" "letters (a @ b) \<longleftrightarrow> letters a \<and> letters b"
  by (auto simp: letters_def)

lemma letters_part: "letters t \<Longrightarrow> letters (butlast t)" "letters t \<Longrightarrow> letters (drop n t)"
  by (auto simp: letters_def dest: in_set_butlastD in_set_dropD)

lemma good_C [simp]: "good_line ''C''" "good_line ''SAVE''"
  by (simp_all add: good_line_def)

lemma dec_string_digits: "c \<in> set (dec_string n) \<Longrightarrow> 48 \<le> (of_char c :: nat) \<and> (of_char c :: nat) \<le> 57"
proof (induction n rule: dec_string.induct)
  case (1 n)
  then show ?case by (subst (asm) dec_string.simps) (auto split: if_split_asm)
qed

lemma good_select [simp]: "good_line (select_line i)"
  using dec_string_digits by (fastforce simp: good_line_def select_line_def)

text \<open>Sending, after which nothing of the composition has changed.\<close>

lemma after_send: "core_inv s \<Longrightarrow> good_line line \<Longrightarrow> after s (send cf line h s)"
  by (rule after_calm [OF _ send_calm [OF core_letters]])

lemma after_UI: "core_inv s \<Longrightarrow> after s (updateUI cf ic s)"
  by (rule after_calm [OF _ calm_updateUI])

lemma after_ensure: "core_inv s \<Longrightarrow> after s (ensureEngine cf s)"
  by (rule after_calm [OF _ ensureEngine_calm [OF core_letters]])

lemma after_request: "core_inv s \<Longrightarrow> letters keys \<Longrightarrow> after s (requestCandidates cf keys s)"
  by (rule after_calm [OF _ requestCandidates_calm [OF core_letters]])

subsection \<open>Committing\<close>

lemma calm_remember: "core_inv s \<Longrightarrow> after s (remember cf ic t s)"
  by (simp add: remember_def after_def core_inv_def pipe_inv_def wire_inv_def index_inv_def)

lemma calm_commit: "core_inv s \<Longrightarrow> after s (commitString ic t s)"
  by (simp add: commitString_def after_def core_inv_def pipe_inv_def wire_inv_def index_inv_def)

lemma after_new_buf:
  "core_inv s \<Longrightarrow> \<not> pendingSpace s \<Longrightarrow> letters b \<Longrightarrow> after s (no_cands (s\<lparr>revision := r, buf := b\<rparr>))"
  by (simp add: no_cands_def after_def core_inv_def pipe_inv_def wire_inv_def index_inv_def)

lemma after_flag: "core_inv s \<Longrightarrow> after s (s\<lparr>recoveryTried := b\<rparr>)"
  by (simp add: after_def core_inv_def pipe_inv_def wire_inv_def index_inv_def)

lemma pending_sel [simp]:
  "pendingSpace (remember cf ic t s) = pendingSpace s" "pendingSpace (commitString ic t s) = pendingSpace s"
  "pendingSpace (no_cands s) = pendingSpace s" "buf (remember cf ic t s) = buf s" "buf (commitString ic t s) = buf s"
  "queued (remember cf ic t s) = queued s" "queued (commitString ic t s) = queued s"
  by (simp_all add: remember_def commitString_def no_cands_def)

lemma send_sel:
  assumes "core_inv s" and "good_line line"
  shows "pendingSpace (send cf line h s) = pendingSpace s" "queued (send cf line h s) = queued s"
    "buf (send cf line h s) = buf s" "cands (send cf line h s) = cands s" "outp (send cf line h s) = outp s"
    "candidatesCurrent (send cf line h s) = candidatesCurrent s" "revision (send cf line h s) = revision s"
    "epoch (send cf line h s) = epoch s" "icRef (send cf line h s) = icRef s" "history (send cf line h s) = history s"
  using calm_sel [OF send_calm [OF core_letters [OF assms(1)] assms(2)]] by simp_all

lemma commitText_after:
  assumes c: "core_inv s" and p: "\<not> pendingSpace s"
  shows "after s (commitText cf ic text s)"
proof -
  let ?a = "commitString ic text (remember cf ic text s)"
  let ?b = "(no_cands (?a\<lparr>revision := revision ?a + 1, buf := []\<rparr>))\<lparr>recoveryTried := False\<rparr>"
  have a: "after s ?a" using after_trans [OF calm_remember [OF c] calm_commit] .
  then have "after ?a (no_cands (?a\<lparr>revision := revision ?a + 1, buf := []\<rparr>))"
    using p by (intro after_new_buf) (simp_all add: after_def)
  then have "after ?a ?b" by (rule after_trans) (rule after_flag)
  then have "after s ?b" using after_trans [OF a] by blast
  then have "after s (send cf ''C'' NoHandler ?b)" by (rule after_trans) (rule after_send, simp_all)
  then show ?thesis unfolding commitText_def Let_def by (rule after_trans) (rule after_UI)
qed

lemma commitText_effect:
  assumes c: "core_inv s" and p: "\<not> pendingSpace s"
  shows "pendingSpace (commitText cf ic text s) = False" "queued (commitText cf ic text s) = queued s"
    "buf (commitText cf ic text s) = []" "cands (commitText cf ic text s) = []"
    "outp (commitText cf ic text s) = outp s @ [Commit ic text]"
    "candidatesCurrent (commitText cf ic text s) = False" "revision (commitText cf ic text s) = revision s + 1"
    "history (commitText cf ic text s) = (history s)(ic := rememberTrailing (valid cf) text (history s ic))"
proof -
  let ?a = "commitString ic text (remember cf ic text s)"
  let ?b = "(no_cands (?a\<lparr>revision := revision ?a + 1, buf := []\<rparr>))\<lparr>recoveryTried := False\<rparr>"
  have "after s ?a" using after_trans [OF calm_remember [OF c] calm_commit] .
  then have "after ?a (no_cands (?a\<lparr>revision := revision ?a + 1, buf := []\<rparr>))"
    using p by (intro after_new_buf) (simp_all add: after_def)
  then have b: "core_inv ?b" using after_flag by (simp add: after_def)
  show "pendingSpace (commitText cf ic text s) = False" "queued (commitText cf ic text s) = queued s"
    "buf (commitText cf ic text s) = []" "cands (commitText cf ic text s) = []"
    "outp (commitText cf ic text s) = outp s @ [Commit ic text]"
    "candidatesCurrent (commitText cf ic text s) = False" "revision (commitText cf ic text s) = revision s + 1"
    "history (commitText cf ic text s) = (history s)(ic := rememberTrailing (valid cf) text (history s ic))"
    unfolding commitText_def Let_def using send_sel [OF b good_C(1), of cf NoHandler] p
    by (simp_all add: no_cands_def commitString_def remember_def)
qed

lemma commitCandidate_after:
  assumes c: "core_inv s"
  shows "after s (commitCandidate cf ic index s)"
proof (cases "\<not> candidatesCurrent s \<or> index < 0 \<or> int (length (cands s)) \<le> index")
  case True
  then show ?thesis using after_refl [OF c] by (auto simp: commitCandidate_def)
next
  case False
  then have p: "\<not> pendingSpace s" using c by (auto simp: core_inv_def)
  let ?cover = "if index < int (length (covers s)) then covers s ! nat index else 0"
  let ?text = "cands s ! nat index"
  let ?sd = "send cf (select_line index) NoHandler s"
  have "after ?sd (commitText cf ic ?text ?sd)"
    using commitText_after [OF _ _] after_send [OF c good_select] send_sel(1) [OF c good_select] p
    by (simp add: after_def)
  then have full: "after s (commitText cf ic ?text ?sd)" using after_trans [OF after_send [OF c good_select]] by blast
  let ?a = "commitString ic ?text (remember cf ic ?text s)"
  let ?b = "no_cands (?a\<lparr>revision := revision ?a + 1, buf := drop (nat ?cover) (buf ?a)\<rparr>)"
  have a: "after s ?a" using after_trans [OF calm_remember [OF c] calm_commit] .
  have "after ?a ?b"
    using a p letters_part(2) [OF core_letters [OF c]] by (intro after_new_buf) (simp_all add: after_def)
  then have "after s ?b" using after_trans [OF a] by blast
  then have "after s (send cf (select_line index) (candidateHandler ?b) ?b)" by (rule after_trans) (rule after_send, simp_all)
  then have "after s (updateUI cf ic (send cf (select_line index) (candidateHandler ?b) ?b))" by (rule after_trans) (rule after_UI)
  with full show ?thesis unfolding commitCandidate_def Let_def by (simp only: if_split) (use False in blast)
qed

subsection \<open>Giving up the waiting space\<close>

definition weak_inv :: "addon \<Rightarrow> bool" where
  "weak_inv s \<longleftrightarrow> pipe_inv s \<and> wire_inv s \<and> index_inv s \<and> \<not> stuck s"

lemma core_weak: "core_inv s \<Longrightarrow> weak_inv s"
  by (simp add: core_inv_def weak_inv_def)

lemma weak_calm: "weak_inv s \<Longrightarrow> calm s s' \<Longrightarrow> weak_inv s'"
  by (simp add: weak_inv_def calm_inv calm_sel)

lemma cancel_sel [simp]:
  "pendingSpace (cancelPending s) = False" "queued (cancelPending s) = []" "buf (cancelPending s) = buf s"
  "draining (cancelPending s) = draining s" "ic_live (cancelPending s) = ic_live s" "icRef (cancelPending s) = icRef s"
  "outp (cancelPending s) = outp s" "candidatesCurrent (cancelPending s) = candidatesCurrent s"
  "history (cancelPending s) = history s" "revision (cancelPending s) = revision s" "epoch (cancelPending s) = epoch s"
  by (simp_all add: cancelPending_def disarmPending_def)

lemma cancel_core: "weak_inv s \<Longrightarrow> core_inv (cancelPending s)"
  by (simp add: weak_inv_def core_inv_def cancelPending_def disarmPending_def pipe_inv_def wire_inv_def index_inv_def)

lemma disarm_core: "weak_inv s \<Longrightarrow> core_inv (disarmPending s)"
  by (simp add: weak_inv_def core_inv_def disarmPending_def pipe_inv_def wire_inv_def index_inv_def)

lemma forward_sel [simp]:
  "queued (forward_releases ic ks s) = queued s" "pendingSpace (forward_releases ic ks s) = pendingSpace s"
  "draining (forward_releases ic ks s) = draining s" "ic_live (forward_releases ic ks s) = ic_live s"
  "icRef (forward_releases ic ks s) = icRef s" "core_inv (forward_releases ic ks s) = core_inv s"
  by (simp_all add: forward_releases_def core_inv_def pipe_inv_def wire_inv_def index_inv_def)

lemma fallback_after:
  assumes w: "weak_inv s"
  shows "core_inv (fallbackPending cf ic s)" "queued (fallbackPending cf ic s) = []"
    "pendingSpace (fallbackPending cf ic s) = False" "draining (fallbackPending cf ic s) = draining s"
    "ic_live (fallbackPending cf ic s) = ic_live s" "icRef (fallbackPending cf ic s) = icRef s"
proof -
  note c = cancel_core [OF w]
  have "after (cancelPending s) (commitText cf ic (pendingRaw s) (cancelPending s))"
    by (rule commitText_after [OF c]) simp
  then show "core_inv (fallbackPending cf ic s)" "queued (fallbackPending cf ic s) = []"
    "draining (fallbackPending cf ic s) = draining s" "ic_live (fallbackPending cf ic s) = ic_live s"
    "icRef (fallbackPending cf ic s) = icRef s"
    by (auto simp: fallbackPending_def Let_def after_def)
  show "pendingSpace (fallbackPending cf ic s) = False"
    using commitText_effect(1) [OF c] by (simp add: fallbackPending_def Let_def)
qed

lemma fallback_after': "weak_inv s \<Longrightarrow> after s (fallbackPending cf ic s)"
  using fallback_after [of s cf ic] by (simp add: after_def)

lemma clearAll_core:
  assumes w: "weak_inv s"
  shows "core_inv (clearAll cf ico s) \<and> queued (clearAll cf ico s) = [] \<and> pendingSpace (clearAll cf ico s) = False \<and>
    draining (clearAll cf ico s) = draining s \<and> ic_live (clearAll cf ico s) = ic_live s \<and> icRef (clearAll cf ico s) = icRef s"
proof -
  let ?a = "cancelPending s"
  let ?b = "(no_cands (?a\<lparr>epoch := epoch ?a + 1, revision := revision ?a + 1, buf := []\<rparr>))\<lparr>recoveryTried := False\<rparr>"
  have b: "core_inv ?b" using w
    by (simp add: weak_inv_def core_inv_def cancelPending_def disarmPending_def no_cands_def pipe_inv_def wire_inv_def index_inv_def)
  have s: "after ?b (send cf ''C'' NoHandler ?b)" by (rule after_send [OF b good_C(1)])
  have "after ?b (clearAll cf ico s)"
    unfolding clearAll_def Let_def using s after_trans [OF s after_UI] by (cases ico) simp_all
  moreover have "pendingSpace (clearAll cf ico s) = pendingSpace ?b"
    unfolding clearAll_def Let_def using send_sel(1) [OF b good_C(1)] by (cases ico) simp_all
  ultimately show ?thesis by (auto simp: after_def no_cands_def)
qed

lemma armPending_after:
  assumes c: "core_inv s" and b: "buf s \<noteq> []" and n: "\<not> (candidatesCurrent s \<and> cands s \<noteq> [])" and ic: "icRef s = Some ic"
  shows "after s (armPending cf ic s)"
proof -
  let ?a = "s\<lparr>pendingSpace := True, pendingTimer := Some (ic, epoch s)\<rparr>"
  let ?u = "updateUI cf ic ?a"
  have "weak_inv ?a" using core_weak [OF c] by (simp add: weak_inv_def pipe_inv_def wire_inv_def index_inv_def)
  then have w: "weak_inv ?u" using weak_calm calm_updateUI by blast
  show ?thesis
  proof (cases "(candidatesCurrent ?u \<and> cands ?u = []) \<or> gaveUp ?u")
    case True
    then show ?thesis using fallback_after [OF w, of cf ic] by (simp add: armPending_def Let_def after_def)
  next
    case False
    then have "\<not> candidatesCurrent s" using n by auto
    then have "core_inv ?u" using w b ic by (simp add: weak_inv_def core_inv_def)
    moreover have "armPending cf ic s = ?u" unfolding armPending_def Let_def using False by (simp only: if_False)
    ultimately show ?thesis by (simp add: after_def)
  qed
qed


subsection \<open>Keys\<close>

text \<open>The state between two events, for the context \<open>ic\<close>.\<close>

definition settled :: "nat \<Rightarrow> addon \<Rightarrow> addon \<Rightarrow> bool" where
  "settled ic s s' \<longleftrightarrow> core_inv s' \<and> draining s' = draining s \<and> ic_live s' = ic_live s \<and> icRef s' = Some ic \<and>
     (queued s' = [] \<or> pendingSpace s')"

lemma pending_key_settled:
  assumes c: "core_inv s" and p: "pendingSpace s" and ic: "icRef s = Some ic"
  shows "settled ic s (snd (pending_key cf ic k s))"
proof -
  have fb: "settled ic s (fallbackPending cf ic x)"
    if "weak_inv x" "draining x = draining s" "ic_live x = ic_live s" "icRef x = icRef s" for x
    using fallback_after [OF that(1), of cf ic] that ic by (simp add: settled_def)
  have ui: "settled ic s (updateUI cf ic (s\<lparr>queued := q\<rparr>))" for q
  proof -
    have "core_inv (s\<lparr>queued := q\<rparr>)" using c by (simp add: core_inv_def pipe_inv_def wire_inv_def index_inv_def)
    from after_UI [OF this, of cf ic] show ?thesis using ic p by (simp add: settled_def after_def)
  qed
  have bksp: "settled ic s (let s1 = s\<lparr>buf := butlast (buf s), revision := revision s + 1, candidatesCurrent := False,
                       cands := [], covers := []\<rparr>;
                s2 = send cf ''C'' NoHandler s1
            in if buf s2 = [] then fallbackPending cf ic s2 else updateUI cf ic (requestCandidates cf (buf s2) s2))"
  proof -
    let ?a = "s\<lparr>buf := butlast (buf s), revision := revision s + 1, candidatesCurrent := False, cands := [], covers := []\<rparr>"
    let ?b = "send cf ''C'' NoHandler ?a"
    have a: "weak_inv ?a" using core_weak [OF c] letters_part(1)
      by (simp add: weak_inv_def pipe_inv_def wire_inv_def index_inv_def)
    have l: "letters (buf ?a)" using a by (simp add: weak_inv_def wire_inv_def)
    have cb: "calm ?a ?b" by (rule send_calm [OF l good_C(1)])
    note b = calm_sel [OF cb] weak_calm [OF a cb]
    show ?thesis
    proof (cases "buf ?b = []")
      case True
      then show ?thesis using fb [of ?b] b by (simp add: Let_def)
    next
      case False
      have "core_inv ?b" using False b c p by (simp add: core_inv_def weak_inv_def)
      then have "after ?b (updateUI cf ic (requestCandidates cf (buf ?b) ?b))"
        using after_trans [OF after_request after_UI] core_letters by blast
      moreover have "pendingSpace (updateUI cf ic (requestCandidates cf (buf ?b) ?b))"
        using calm_sel(8) [OF requestCandidates_calm [of ?b "buf ?b" cf]] l b p by simp
      ultimately show ?thesis using False b ic by (auto simp: settled_def after_def Let_def)
    qed
  qed
  have clr: "settled ic s (clearAll cf (Some ic) s)"
    using clearAll_core [OF core_weak [OF c], of cf "Some ic"] ic by (simp add: settled_def)
  have queue: "weak_inv (s\<lparr>queued := q\<rparr>)" for q
    using core_weak [OF c] by (simp add: weak_inv_def pipe_inv_def wire_inv_def index_inv_def)
  show ?thesis
    unfolding pending_key_def using clr bksp ui fb [OF core_weak [OF c]] fb [OF queue]
    by (simp add: Let_def split: option.split)
qed

lemma after_normalize: "core_inv s \<Longrightarrow> after s (snd (normalizePage s))"
proof -
  assume c: "core_inv s"
  obtain ws sel where n: "snd (normalizePage s) = s\<lparr>windowStart := ws, selected := sel\<rparr>"
    using normalizePage_frame by blast
  have "page_ok (s\<lparr>windowStart := ws, selected := sel\<rparr>)" using normalizePage_ok [of s] by (simp add: n)
  then have "cands s = [] \<or> 0 \<le> ws \<and> ws \<le> sel \<and> sel < int (length (cands s))"
    by (auto simp: page_ok_def split: if_split_asm)
  then show ?thesis using c unfolding n
    by (auto simp: after_def core_inv_def pipe_inv_def wire_inv_def index_inv_def)
qed

lemma after_history: "core_inv s \<Longrightarrow> after s (s\<lparr>history := h\<rparr>)"
  by (simp add: after_def core_inv_def pipe_inv_def wire_inv_def index_inv_def)

lemma after_move:
  assumes "core_inv s" and "cands s = [] \<or> 0 \<le> ws \<and> ws < int (length (cands s)) \<and> 0 \<le> sel \<and> sel < int (length (cands s))"
  shows "after s (s\<lparr>windowStart := ws, selected := sel\<rparr>)"
  using assms by (auto simp: after_def core_inv_def pipe_inv_def wire_inv_def index_inv_def)

lemma lower_of_letters: "is_lower k \<or> is_upper k \<Longrightarrow> letters [lower_of k]"
  by (auto simp: letters_def lower_of_def is_lower_def is_upper_def code_in_def the_char_def split: keysym.split_asm)

lemma after_letter:
  "core_inv a \<Longrightarrow> letters [c] \<Longrightarrow>
   after a (a\<lparr>revision := r, buf := buf a @ [c], candidatesCurrent := False\<rparr>)"
  by (simp add: after_def core_inv_def pipe_inv_def wire_inv_def index_inv_def)

lemma letter_key_after:
  assumes c: "core_inv s" and k: "is_lower k \<or> is_upper k"
  shows "after s (letter_key cf ic k s)"
proof -
  let ?z = "if buf s = [] then s\<lparr>recoveryTried := False\<rparr> else s"
  let ?a = "ensureEngine cf ?z"
  let ?b = "?a\<lparr>revision := revision ?a + 1, buf := buf ?a @ [lower_of k], candidatesCurrent := False\<rparr>"
  let ?d = "updateUI cf ic ?b"
  have z: "after s ?z" using after_flag [OF c] after_refl [OF c] by simp
  have a: "after s ?a" using after_trans [OF z after_ensure] .
  then have "core_inv ?a" by (simp add: after_def)
  then have "after ?a ?b" by (rule after_letter [OF _ lower_of_letters [OF k]])
  then have b: "after s ?b" using after_trans [OF a] by blast
  have d: "after s ?d" using after_trans [OF b after_UI] .
  then have "letters (buf ?d)" using core_letters [of ?d] unfolding after_def by blast
  then have keys: "letters (if r then buf ?d else [lower_of k])" for r using lower_of_letters [OF k] by simp
  show ?thesis unfolding letter_key_def Let_def by (rule after_trans [OF d after_request [OF _ keys]])
qed

lemma arrow_key_after:
  assumes c: "core_inv s" and n: "cands s \<noteq> []"
  shows "after s (arrow_key cf ic k s)"
proof -
  have i: "0 \<le> windowStart s" "windowStart s < int (length (cands s))" "0 \<le> selected s" "selected s < int (length (cands s))"
    using c n by (auto simp: core_inv_def index_inv_def)
  have p: "1 \<le> pageSize s" using pageSize_range by simp
  have keep: "after s (s\<lparr>selected := x\<rparr>)" if "0 \<le> x" "x < int (length (cands s))" for x
    using after_move [OF c, of "windowStart s" x] i that by simp
  have mv: "after s (s\<lparr>windowStart := x, selected := x\<rparr>)" if "0 \<le> x" "x < int (length (cands s))" for x
    using after_move [OF c, of x x] that by simp
  have "after s (if k = Left \<and> windowStart s < selected s then s\<lparr>selected := selected s - 1\<rparr>
             else if k = Right \<and> selected s + 1 < min (windowStart s + pageSize s) (int (length (cands s)))
               then s\<lparr>selected := selected s + 1\<rparr>
             else if k = Up \<and> 0 < windowStart s then
               let ws = max 0 (windowStart s - pageSize s) in s\<lparr>windowStart := ws, selected := ws\<rparr>
             else if k = Down \<and> windowStart s + pageSize s < int (length (cands s)) then
               let ws = windowStart s + pageSize s in s\<lparr>windowStart := ws, selected := ws\<rparr>
             else s)"
    using keep [of "selected s - 1"] keep [of "selected s + 1"] mv [of "max 0 (windowStart s - pageSize s)"]
      mv [of "windowStart s + pageSize s"] after_refl [OF c] i p n by (auto simp: Let_def)
  then show ?thesis unfolding arrow_key_def Let_def by (rule after_trans) (rule after_UI)
qed

lemma page_keys_after:
  assumes c: "core_inv s"
  shows "after s (page_back cf ic s)" and "after s (page_forward cf ic s)"
proof -
  have p: "1 \<le> pageSize s" using pageSize_range by simp
  have i: "cands s = [] \<or> 0 \<le> windowStart s \<and> windowStart s < int (length (cands s))"
    using c by (auto simp: core_inv_def index_inv_def)
  have "after s (updateUI cf ic (s\<lparr>windowStart := x, selected := x\<rparr>))" if "cands s = [] \<or> 0 \<le> x \<and> x < int (length (cands s))" for x
    by (rule after_trans [OF after_move [OF c] after_UI]) (use that in auto)
  note this [of "max 0 (windowStart s - pageSize s)"] this [of "windowStart s + pageSize s"]
  then show "after s (page_back cf ic s)" and "after s (page_forward cf ic s)"
    using i p after_refl [OF c] by (auto simp: page_back_def page_forward_def Let_def)
qed


lemma punct_for_after: "core_inv s \<Longrightarrow> punct_for ic key w s = (t, s') \<Longrightarrow> after s s' \<and> pendingSpace s' = pendingSpace s"
  using after_history by (auto simp: punct_for_def split: prod.split_asm)

lemma punct_key_after:
  assumes c: "core_inv s" and p: "\<not> pendingSpace s"
  shows "after s (snd (punct_key cf ic key s))"
proof (cases "buf s = []")
  case True
  obtain t s1 where t: "punct_for ic key True s = (t, s1)" by fastforce
  have "after s s1" using punct_for_after [OF c t] by blast
  then have "after s (commitString ic t (remember cf ic t s1))"
    using after_trans [OF after_trans [OF _ calm_remember] calm_commit] by blast
  then show ?thesis using True t after_refl [OF c] by (simp add: punct_key_def Let_def)
next
  case False
  let ?text = "if \<not> candidatesCurrent s \<or> cands s = [] then buf s else cands s ! nat (selected s)"
  let ?w = "fullwidthPunctuation (valid cf) (structured cf ic) (history s ic) key ?text"
  obtain t s1 where t: "punct_for ic key ?w s = (t, s1)" by fastforce
  have s1: "after s s1" "\<not> pendingSpace s1" using punct_for_after [OF c t] p by auto
  then have c1: "core_inv s1" by (simp add: after_def)
  let ?s2 = "if candidatesCurrent s1 \<and> cands s1 \<noteq> [] then send cf (select_line (selected s1)) NoHandler s1 else s1"
  have s2: "after s1 ?s2" "\<not> pendingSpace ?s2"
    using after_send [OF c1 good_select] after_refl [OF c1] send_sel(1) [OF c1 good_select] s1(2) by simp_all
  then have "after ?s2 (commitText cf ic x ?s2)" for x using commitText_after by (simp add: after_def)
  then have "after s (commitText cf ic x ?s2)" for x using after_trans [OF after_trans [OF s1(1) s2(1)]] by blast
  then show ?thesis using False t s1(1) by (simp add: punct_key_def Let_def)
qed

lemma digit_key_after: "core_inv s \<Longrightarrow> after s (snd (digit_key cf ic k s))"
  using commitCandidate_after after_refl by (simp add: digit_key_def Let_def)

lemma backspace_after:
  assumes c: "core_inv s" and p: "\<not> pendingSpace s"
  shows "after s (backspace_key cf ic s)"
proof -
  let ?a = "s\<lparr>buf := butlast (buf s), revision := revision s + 1, candidatesCurrent := False\<rparr>"
  let ?b = "send cf ''C'' NoHandler ?a"
  have a: "after s ?a" using c p letters_part(1)
    by (simp add: after_def core_inv_def pipe_inv_def wire_inv_def index_inv_def)
  have b: "after s ?b" by (rule after_trans [OF a after_send]) simp_all
  have ca: "core_inv ?a" using a unfolding after_def by blast
  have pb: "\<not> pendingSpace ?b" using send_sel(1) [OF ca good_C(1), of cf NoHandler] p by simp
  have cb: "core_inv ?b" using b unfolding after_def by blast
  have "after ?b (no_cands ?b)" using cb pb
    by (simp add: no_cands_def after_def core_inv_def pipe_inv_def wire_inv_def index_inv_def)
  then have "after s (updateUI cf ic (no_cands ?b))" using after_trans [OF after_trans [OF b] after_UI] by blast
  moreover have "after s (updateUI cf ic (requestCandidates cf (buf ?b) ?b))"
    using after_trans [OF after_trans [OF b after_request] after_UI] core_letters [OF cb] by blast
  ultimately show ?thesis by (simp add: backspace_key_def Let_def)
qed

lemma clearAll_after: "core_inv s \<Longrightarrow> after s (clearAll cf ico s)"
  using clearAll_core [OF core_weak, of s cf ico] by (simp add: after_def)

lemma idle_prepare_after:
  assumes c: "core_inv s" and p: "\<not> pendingSpace s"
  shows "after s (idle_prepare cf ic y s) \<and> \<not> pendingSpace (idle_prepare cf ic y s)"
proof -
  obtain ch n where n: "normalizePage s = (ch, n)" by fastforce
  have an: "after s n" using after_normalize [OF c] n by simp
  have pn: "\<not> pendingSpace n" using normalizePage_frame [of s] n p by auto
  let ?u = "if ch then updateUI cf ic n else n"
  have au: "after s ?u" using an after_trans [OF an after_UI] by simp
  have ah: "after s (?u\<lparr>history := h\<rparr>)" for h using after_trans [OF au after_history] .
  show ?thesis unfolding idle_prepare_def n Let_def prod.case using au ah pn by simp
qed

lemma after_if: "(c \<Longrightarrow> after x (snd a)) \<Longrightarrow> (\<not> c \<Longrightarrow> after x (snd b)) \<Longrightarrow> after x (snd (if c then a else b))"
  by simp

lemma idle_dispatch_after:
  assumes c: "core_inv x" and p: "\<not> pendingSpace x" and ic: "icRef x = Some ic"
  shows "after x (snd (idle_dispatch cf ic y sh x))"
proof -
  have lit: "after x (commitString ic t (remember cf ic t x))" for t
    using after_trans [OF calm_remember [OF c] calm_commit] .
  have sp: "after x (if candidatesCurrent x \<and> cands x \<noteq> [] then commitCandidate cf ic (selected x) x else armPending cf ic x)"
    if "buf x \<noteq> []"
    using commitCandidate_after [OF c] armPending_after [OF c that _ ic] by simp
  show ?thesis
    unfolding idle_dispatch_def
    by (intro after_if)
      (simp_all add: lit letter_key_after [OF c] arrow_key_after [OF c] sp page_keys_after [OF c] punct_key_after [OF c p]
        digit_key_after [OF c] commitText_after [OF c p] backspace_after [OF c p] clearAll_after [OF c] after_refl [OF c]
        split del: if_split)
qed

lemma idle_key_after:
  assumes c: "core_inv s" and p: "\<not> pendingSpace s" and ic: "icRef s = Some ic"
  shows "after s (snd (idle_key cf ic k s))"
proof -
  note pr = idle_prepare_after [OF c p, of cf ic "sym k"]
  have "after (idle_prepare cf ic (sym k) s) (snd (idle_key cf ic k s))"
    unfolding idle_key_def using pr ic by (intro idle_dispatch_after) (simp_all add: after_def)
  then show ?thesis using after_trans pr by blast
qed

lemma deref_some: "deref r s = Some i \<Longrightarrow> r = Some i \<and> ic_live s i"
  by (auto simp: deref_def split: option.split_asm if_split_asm)

lemma processKey_after:
  assumes c: "core_inv s" and p: "\<not> pendingSpace s" and ic: "deref (icRef s) s = Some ic"
  shows "after s (snd (processKey cf ic k s))"
proof -
  have r: "icRef s = Some ic" using deref_some [OF ic] by simp
  then have e: "s\<lparr>icRef := Some ic\<rparr> = s" by (cases s) simp
  show ?thesis using p idle_key_after [OF c p r, of cf k] after_refl [OF c]
    unfolding processKey_def Let_def by (simp add: ic e)
qed

lemma processKey_settled:
  assumes c: "core_inv s" and q: "queued s = [] \<or> pendingSpace s"
  shows "settled ic s (snd (processKey cf ic k s))"
proof -
  let ?a = "if deref (icRef s) s \<noteq> Some ic then clearAll cf None s else s"
  let ?b = "?a\<lparr>icRef := Some ic\<rparr>"
  have cl: "core_inv (clearAll cf None s) \<and> queued (clearAll cf None s) = [] \<and> pendingSpace (clearAll cf None s) = False \<and>
      draining (clearAll cf None s) = draining s \<and> ic_live (clearAll cf None s) = ic_live s"
    using clearAll_core [OF core_weak [OF c], of cf None] by simp
  have upd: "core_inv (x\<lparr>icRef := Some ic\<rparr>)" if "core_inv x" "\<not> pendingSpace x \<or> icRef x = Some ic" for x
    using that by (auto simp: core_inv_def pipe_inv_def wire_inv_def index_inv_def)
  have b: "core_inv ?b" "draining ?b = draining s" "ic_live ?b = ic_live s" "icRef ?b = Some ic" "queued ?b = [] \<or> pendingSpace ?b"
    using cl upd [of "clearAll cf None s"] upd [of s] c q deref_some [of "icRef s" s ic] by auto
  have idle: "settled ic s x" if "after ?b x" "\<not> pendingSpace ?b" for x
    using that b by (auto simp: after_def settled_def)
  have "snd (processKey cf ic k s) =
      (if pendingSpace ?b then snd (pending_key cf ic k ?b)
       else if shortcut k then ?b else if release k then ?b else snd (idle_key cf ic k ?b))"
    unfolding processKey_def Let_def by (simp split: if_split)
  moreover have "settled ic s (snd (pending_key cf ic k ?b))" if "pendingSpace ?b"
    using pending_key_settled [OF b(1) that b(4), of cf k] b(2,3) by (simp add: settled_def)
  ultimately show ?thesis
    using idle [OF after_refl [OF b(1)]] idle [OF idle_key_after [OF b(1) _ b(4), of cf k]] by presburger
qed

lemma drain_loop_settled:
  assumes "core_inv s" and "deref (icRef s) s = Some ic" and "length (queued s) \<le> k"
  shows "settled ic s (drain_loop cf ic k s)"
  using assms
proof (induction k arbitrary: s)
  case 0
  then show ?case using deref_some [of "icRef s" s ic] by (simp add: settled_def)
next
  case (Suc k)
  have r: "icRef s = Some ic" "ic_live s ic" using deref_some [OF Suc.prems(2)] by simp_all
  show ?case
  proof (cases "pendingSpace s \<or> queued s = []")
    case True
    then show ?thesis using Suc.prems(1,2) r by (auto simp: settled_def)
  next
    case False
    then obtain q qs where q: "queued s = q # qs" and p: "\<not> pendingSpace s" by (cases "queued s") auto
    let ?a = "s\<lparr>queued := qs\<rparr>"
    obtain f s1 where k: "processKey cf ic q ?a = (f, s1)" by fastforce
    have ca: "core_inv ?a" using Suc.prems(1) by (simp add: core_inv_def pipe_inv_def wire_inv_def index_inv_def)
    have "after ?a s1"
      using processKey_after [OF ca, of ic cf q] p r k by (simp add: deref_def)
    let ?b = "if f then s1 else s1\<lparr>outp := outp s1 @ [Forward ic q]\<rparr>"
    have "after ?a ?b" using \<open>after ?a s1\<close>
      by (auto simp: after_def core_inv_def pipe_inv_def wire_inv_def index_inv_def)
    moreover obtain b where eq: "?b = b" by blast
    ultimately have b: "core_inv b" "deref (icRef b) b = Some ic" "length (queued b) \<le> k" "draining b = draining s"
      "ic_live b = ic_live s"
      using r q Suc.prems(3) by (auto simp: after_def deref_def)
    have "settled ic b (drain_loop cf ic k b)" by (rule Suc.IH [OF b(1-3)])
    moreover have "drain_loop cf ic (Suc k) s = drain_loop cf ic k b"
      using p q k Suc.prems(2) by (simp add: Let_def flip: eq)
    ultimately show ?thesis using b(4,5) by (simp add: settled_def)
  qed
qed

lemma drainQueued_settled:
  assumes "core_inv s" and "deref (icRef s) s = Some ic" and "\<not> draining s"
  shows "settled ic s (drainQueued cf ic s)"
proof -
  let ?a = "s\<lparr>draining := True\<rparr>"
  have "core_inv ?a" using assms(1) by (simp add: core_inv_def pipe_inv_def wire_inv_def index_inv_def)
  then have "settled ic ?a (drain_loop cf ic (length (queued s)) ?a)"
    using deref_some [OF assms(2)] by (intro drain_loop_settled) (simp_all add: deref_def)
  then show ?thesis using assms(3)
    by (auto simp: drainQueued_def settled_def core_inv_def pipe_inv_def wire_inv_def index_inv_def)
qed

subsection \<open>Replies and events\<close>

lemma inv_after: "addon_inv s \<Longrightarrow> after s s' \<Longrightarrow> pendingSpace s' = pendingSpace s \<Longrightarrow> addon_inv s'"
  by (auto simp: addon_inv_def after_def)

lemma inv_calm: "addon_inv s \<Longrightarrow> calm s s' \<Longrightarrow> addon_inv s'"
  by (auto simp: addon_inv_def core_calm calm_sel)

lemma inv_settled: "settled ic s s' \<Longrightarrow> \<not> draining s \<Longrightarrow> addon_inv s'"
  by (auto simp: settled_def addon_inv_def)

lemma inv_fallback: "weak_inv s \<Longrightarrow> \<not> draining s \<Longrightarrow> addon_inv (fallbackPending cf ic s)"
  using fallback_after [of s cf ic] by (simp add: addon_inv_def)

lemma inv_if: "addon_inv a \<Longrightarrow> addon_inv b \<Longrightarrow> addon_inv (if c then a else b)"
  by simp

lemma cand_reply_inv:
  assumes i: "addon_inv s"
  shows "addon_inv (cand_reply cf ref ep eb er resp s)"
proof -
  have c: "core_inv s" and nd: "\<not> draining s" and q: "queued s = [] \<or> pendingSpace s"
    using i by (simp_all add: addon_inv_def)
  note l = core_letters [OF c]
  have replay: "addon_inv (let s1 = send cf ''C'' NoHandler (s\<lparr>recoveryTried := True\<rparr>) in requestCandidates cf (buf s1) s1)"
  proof -
    let ?a = "s\<lparr>recoveryTried := True\<rparr>"
    let ?b = "send cf ''C'' NoHandler ?a"
    have "calm s ?a" by (rule calm_flags)
    moreover have cb: "calm ?a ?b" using l by (intro send_calm) simp_all
    moreover have "calm ?b (requestCandidates cf (buf ?b) ?b)"
      using calm_sel(1) [OF cb] l by (intro requestCandidates_calm) simp_all
    ultimately have "calm s (requestCandidates cf (buf ?b) ?b)" using calm_trans by blast
    then show ?thesis using inv_calm [OF i] by (simp add: Let_def)
  qed
  have take: "addon_inv (let s1 = updateUI cf ic (s\<lparr>cands := map snd items, covers := map fst items,
                        candidatesCurrent := cur, windowStart := 0, selected := 0\<rparr>)
             in if cur \<and> pendingSpace s1 then
                  (if cands s1 = [] then fallbackPending cf ic s1
                   else let s2 = disarmPending s1
                        in drainQueued cf ic (commitCandidate cf ic (selected s2) s2))
                else s1)"
    if r: "deref (icRef s) s = Some ic" for ic cur and items :: "(int \<times> string) list"
  proof -
    let ?a = "s\<lparr>cands := map snd items, covers := map fst items, candidatesCurrent := cur, windowStart := 0, selected := 0\<rparr>"
    let ?u = "updateUI cf ic ?a"
    have wa: "weak_inv ?a" using core_weak [OF c] by (auto simp: weak_inv_def pipe_inv_def wire_inv_def index_inv_def)
    have wu: "weak_inv ?u" by (rule weak_calm [OF wa calm_updateUI])
    show ?thesis
    proof (cases "cur \<and> pendingSpace ?u")
      case False
      then have "core_inv ?u" using wu c by (auto simp: core_inv_def weak_inv_def)
      then have "addon_inv ?u" using nd q by (auto simp: addon_inv_def)
      then show ?thesis using False by (auto simp: Let_def)
    next
      case True
      let ?d = "disarmPending ?u"
      have cd: "core_inv ?d" by (rule disarm_core [OF wu])
      have cc: "after ?d (commitCandidate cf ic (selected ?d) ?d)" by (rule commitCandidate_after [OF cd])
      obtain x where x: "commitCandidate cf ic (selected ?d) ?d = x" by blast
      have dx: "core_inv x" "\<not> draining x" "ic_live x = ic_live s" "icRef x = icRef s"
        using cc nd unfolding x by (simp_all add: after_def disarmPending_def)
      then have "deref (icRef x) x = Some ic" using deref_some [OF r] by (simp add: deref_def)
      then have "addon_inv (drainQueued cf ic x)" using inv_settled [OF drainQueued_settled] dx(1,2) by blast
      then have "addon_inv (drainQueued cf ic (commitCandidate cf ic (selected ?d) ?d))" by (simp only: x)
      moreover have "addon_inv (fallbackPending cf ic ?u)" using nd by (intro inv_fallback [OF wu]) simp
      ultimately show ?thesis unfolding Let_def if_P [OF True] by (intro inv_if)
    qed
  qed
  have fb: "addon_inv (fallbackPending cf ic s)" for ic by (rule inv_fallback [OF core_weak [OF c] nd])
  show ?thesis
  proof (cases "deref ref s")
    case None
    then show ?thesis using i by (simp add: cand_reply_def)
  next
    case (Some ic)
    show ?thesis
    proof (cases "deref (icRef s) s = Some ic")
      case False
      then show ?thesis using Some i by (simp add: cand_reply_def)
    next
      case True
      show ?thesis
        unfolding cand_reply_def Some option.case
        using i replay take [OF True] fb [of ic] by (simp only: Let_def split: if_split) simp
    qed
  qed
qed

lemma inv_simple:
  assumes "addon_inv s"
  shows "addon_inv (s\<lparr>spansEnabled := b\<rparr>)" "addon_inv (s\<lparr>rbuf := r\<rparr>)" "addon_inv (s\<lparr>history := h\<rparr>)"
    "addon_inv (s\<lparr>page_cfg := n\<rparr>)" "addon_inv (s\<lparr>ic_live := l\<rparr>)" "addon_inv (s\<lparr>restartSource := b\<rparr>)"
  using assms by (simp_all add: addon_inv_def core_inv_def pipe_inv_def wire_inv_def index_inv_def)

lemma run_reply_inv: "addon_inv s \<Longrightarrow> addon_inv (run_reply cf h resp s)"
  using cand_reply_inv inv_simple(1) by (simp add: run_reply_def split: handler.split)

lemma answer_inv:
  assumes i: "addon_inv s" and r: "pstate s = Ready" and p: "pending s = h # hs"
  shows "addon_inv (s\<lparr>pending := hs, answered := answered s + 1\<rparr>)"
proof -
  have v: "pipe_inv s" using i by (simp add: addon_inv_def core_inv_def)
  then have al: "palive s" using r by (auto simp: pipe_inv_def split: if_split_asm)
  then have d: "h # hs = map snd (drop (answered s) (wire s))" and "answered s \<le> length (wire s)"
    using v p by (auto simp: pipe_inv_def)
  then have "answered s < length (wire s)" by (cases "answered s = length (wire s)") auto
  moreover have "hs = map snd (drop (Suc (answered s)) (wire s))"
    using arg_cong [OF d, of tl] by (metis drop_Suc list.sel(3) map_tl tl_drop)
  ultimately have "pipe_inv (s\<lparr>pending := hs, answered := answered s + 1\<rparr>)" using v al r by (simp add: pipe_inv_def)
  then show ?thesis using i by (simp add: addon_inv_def core_inv_def wire_inv_def index_inv_def)
qed

lemma onLine_inv:
  assumes i: "addon_inv s"
  shows "addon_inv (onLine cf line s)"
proof (cases "pstate s = Ready \<and> line \<noteq> []")
  case True
  show ?thesis
  proof (cases "pending s")
    case Nil
    then show ?thesis using i True by (simp add: onLine_def)
  next
    case (Cons h hs)
    then have "addon_inv (s\<lparr>pending := hs, answered := answered s + 1\<rparr>)" using answer_inv [OF i] True by blast
    then show ?thesis using run_reply_inv True Cons by (simp add: onLine_def)
  qed
next
  case False
  have "addon_inv (s\<lparr>pstate := Ready, failCount := 0, watchdog := False\<rparr>)" if "pstate s = Starting"
    using i that by (auto simp: addon_inv_def core_inv_def wire_inv_def index_inv_def pipe_inv_def split: if_split_asm)
  then show ?thesis using False i by (simp add: onLine_def)
qed

lemma line_loop_inv: "addon_inv s \<Longrightarrow> addon_inv (line_loop cf k s)"
proof (induction k arbitrary: s)
  case 0
  then show ?case by simp
next
  case (Suc k)
  then show ?case using onLine_inv inv_simple(2) by (simp add: Let_def)
qed

lemma die_inv: "addon_inv s \<Longrightarrow> addon_inv (die cf s)"
  by (rule inv_calm) (auto intro!: die_calm core_letters simp: addon_inv_def)

lemma inv_core: "addon_inv s \<Longrightarrow> core_inv s"
  by (simp add: addon_inv_def)

lemma event_inv:
  assumes i: "addon_inv s"
  shows "addon_inv (on_event cf e s)"
proof (cases e)
  case (KeyEvent ic k)
  have "settled ic s (snd (processKey cf ic k s))"
    using i by (intro processKey_settled) (simp_all add: addon_inv_def)
  then show ?thesis using inv_settled i by (simp add: KeyEvent on_event_def addon_inv_def)
next
  case (FromEngine chunk)
  then show ?thesis using i die_inv [OF i] line_loop_inv [OF inv_simple(2) [OF i]]
    by (simp add: on_event_def onReadable_def Let_def)
next
  case StartTimeout
  then show ?thesis using i die_inv [OF i] by (simp add: on_event_def)
next
  case RestartTimer
  let ?a = "s\<lparr>restartSource := False\<rparr>"
  have a: "addon_inv ?a" by (rule inv_simple(6) [OF i])
  have e: "calm ?a (ensureEngine cf ?a)" by (rule ensureEngine_calm [OF core_letters [OF inv_core [OF a]]])
  have b: "addon_inv (ensureEngine cf ?a)" by (rule inv_calm [OF a e])
  have "calm (ensureEngine cf ?a) (requestCandidates cf (buf (ensureEngine cf ?a)) (ensureEngine cf ?a))"
    using core_letters [OF inv_core [OF b]] by (intro requestCandidates_calm)
  from inv_calm [OF b this] show ?thesis using i a by (simp add: RestartTimer on_event_def restart_timer_def Let_def)
next
  case PendingTimer
  have "addon_inv (fallbackPending cf ic s)" for ic
    using inv_fallback [OF core_weak [OF inv_core [OF i]]] i by (simp add: addon_inv_def)
  then show ?thesis using i by (simp add: PendingTimer on_event_def pending_timer_def split: option.split prod.split)
next
  case (ResetIM ic)
  let ?a = "send cf ''SAVE'' NoHandler s"
  have "addon_inv ?a" by (rule inv_calm [OF i send_calm [OF core_letters [OF inv_core [OF i]]]]) simp
  then have "addon_inv (clearAll cf None ?a)"
    using clearAll_core [OF core_weak [OF inv_core], of ?a cf None] by (simp add: addon_inv_def)
  then show ?thesis using inv_calm [OF _ calm_updateUI] by (simp add: ResetIM on_event_def reset_im_def Let_def)
next
  case (Deactivate ic sw)
  let ?a = "if sw \<and> buf s \<noteq> [] then commitString ic (pendingRaw s) (remember cf ic (pendingRaw s) s)
       else if sw then s\<lparr>history := (history s)(ic := (history s ic)\<lparr>afterDigit := False\<rparr>)\<rparr> else s"
  have "after s (commitString ic (pendingRaw s) (remember cf ic (pendingRaw s) s))"
    using after_trans [OF calm_remember [OF inv_core [OF i]] calm_commit] .
  then have "addon_inv (commitString ic (pendingRaw s) (remember cf ic (pendingRaw s) s))"
    by (rule inv_after [OF i]) simp
  then have "addon_inv ?a" using i inv_simple(3) [OF i] by simp
  moreover obtain a where a: "?a = a" by blast
  ultimately have "addon_inv (clearAll cf None a)"
    using clearAll_core [OF core_weak [OF inv_core], of a cf None] by (simp add: addon_inv_def)
  then show ?thesis using inv_calm [OF _ calm_updateUI]
    unfolding Deactivate on_event_def event.case deactivate_def Let_def a by simp
next
  case (SurroundingText ic b)
  then show ?thesis using inv_simple(3) [OF i] by (simp add: on_event_def surrounding_def)
next
  case (Click ic n)
  have "after s (commitCandidate cf ic n s)" by (rule commitCandidate_after [OF inv_core [OF i]])
  moreover have "commitCandidate cf ic n s = s \<or> queued s = []"
    using i by (auto simp: commitCandidate_def addon_inv_def core_inv_def)
  ultimately show ?thesis using i by (auto simp: Click on_event_def addon_inv_def after_def)
next
  case (PageConfig n)
  then show ?thesis using inv_simple(4) [OF i] by (simp add: on_event_def)
next
  case (ContextGone ic)
  then show ?thesis using inv_simple(5) [OF i] by (simp add: on_event_def)
qed

lemma new_addon_inv: "addon_inv (new_addon cf results live page)"
proof -
  have "addon_inv (blank_addon results live page)"
    by (simp add: blank_addon_def addon_inv_def core_inv_def pipe_inv_def wire_inv_def index_inv_def)
  then show ?thesis unfolding new_addon_def
    using inv_calm [OF _ ensureEngine_calm [OF core_letters [OF inv_core]]] by blast
qed

lemma events_inv: "addon_inv s \<Longrightarrow> addon_inv (on_events cf es s)"
  by (induction es arbitrary: s) (simp_all add: event_inv)


subsection \<open>Properties\<close>

text \<open>A small run for the examples: the engine starts and answers, the user types \<open>n\<close>.\<close>

definition plain_conf :: conf where
  "plain_conf = \<lparr>gloss = Map.empty, valid = (\<lambda>_. True), structured = (\<lambda>_. False)\<rparr>"

definition press :: "char \<Rightarrow> key_event" where
  "press c = \<lparr>sym = Ascii c, shortcut = False, raw_sym = Ascii c, raw_shift = False, ktext = [c], release = False, time = 0\<rparr>"

abbreviation reached :: "conf \<Rightarrow> bool list \<Rightarrow> (nat \<Rightarrow> bool) \<Rightarrow> int \<Rightarrow> event list \<Rightarrow> addon" where
  "reached cf results live page es \<equiv> on_events cf es (new_addon cf results live page)"

lemma reached_inv: "addon_inv (reached cf results live page es)"
  by (rule events_inv [OF new_addon_inv])

text \<open>C33. Replies and commands. After any events (keys, output of the engine in any pieces, failed
  writes, deaths and restarts, timers, focus changes), while the engine process runs, the
  handlers that wait are those of the commands written to this process that have not been
  answered, in the order of writing: a reply always goes to the handler of its own command,
  also when handlers restart the engine while they are being failed. A dead process has no
  waiting handlers, and at most five starts are made without a \<open>READY\<close>.\<close>

theorem replies_in_order:
  shows "let s = reached cf results live page es in
    failCount s \<le> 5 \<and>
    (if palive s then in_open s \<and> answered s \<le> length (wire s) \<and> pending s = map snd (drop (answered s) (wire s))
     else \<not> in_open s \<and> pending s = [])"
  using reached_inv [of cf es results live page]
  by (auto simp: addon_inv_def core_inv_def pipe_inv_def Let_def split: if_split_asm)

lemma panel_cursor:
  assumes "page_ok s" and "cands s \<noteq> []"
  shows "0 \<le> cursor (panel_of cf s) \<and> cursor (panel_of cf s) < int (length (shown (panel_of cf s))) \<and>
    shown (panel_of cf s) ! nat (cursor (panel_of cf s)) =
      cand_label cf (nat (cursor (panel_of cf s))) (cands s ! nat (selected s))"
proof -
  let ?st = "windowStart s" and ?n = "int (length (cands s))"
  let ?stop = "min (?st + pageSize s) ?n"
  let ?page = "take (nat (?stop - ?st)) (drop (nat ?st) (cands s))"
  have p: "0 \<le> ?st" "?st \<le> selected s" "selected s < ?st + pageSize s" "selected s < ?n"
    using assms by (auto simp: page_ok_def)
  then have lt: "nat (selected s - ?st) < nat (?stop - ?st)" by simp
  have len: "length ?page = nat (?stop - ?st)" using p by simp
  have "nat ?st + nat (selected s - ?st) = nat (selected s)" using p by simp
  then have "?page ! nat (selected s - ?st) = cands s ! nat (selected s)" using lt p by (simp add: nth_drop)
  moreover have "enumerate 0 ?page ! nat (selected s - ?st) = (nat (selected s - ?st), ?page ! nat (selected s - ?st))"
    using lt len by (subst nth_enumerate_eq) simp_all
  moreover have "selected s - ?st < int (nat (?stop - ?st))" using p by simp
  ultimately show ?thesis using assms(2) p lt len by (simp add: panel_of_def Let_def nth_map)
qed

lemma updateUI_panel:
  "panels (updateUI cf ic s) ic = panel_of cf (updateUI cf ic s)" "page_ok (updateUI cf ic s)"
proof -
  obtain ws sel where n: "snd (normalizePage s) = s\<lparr>windowStart := ws, selected := sel\<rparr>"
    using normalizePage_frame by blast
  have "page_ok (s\<lparr>windowStart := ws, selected := sel\<rparr>)" using normalizePage_ok [of s] by (simp add: n)
  then show "page_ok (updateUI cf ic s)" by (simp add: updateUI_eq n Let_def page_ok_def cong: if_cong)
  show "panels (updateUI cf ic s) ic = panel_of cf (updateUI cf ic s)"
    by (simp add: updateUI_eq n Let_def panel_of_def pendingRaw_def)
qed

text \<open>C34. Candidate indices. After any events the selected index and the cover lengths fit the
  candidates, so no access leaves the lists; and whenever the panel is drawn, with any page
  size, it is empty only without candidates, its cursor is inside the page, and the
  highlighted line is the one of the selected candidate, the one that space commits.\<close>

theorem candidate_indices_valid:
  shows "let s = reached cf results live page es; u = updateUI cf ic s; p = panels u ic in
    length (covers s) = length (cands s) \<and>
    (if cands s = [] then shown p = []
     else 0 \<le> selected s \<and> selected s < int (length (cands s)) \<and>
       0 \<le> cursor p \<and> cursor p < int (length (shown p)) \<and>
       shown p ! nat (cursor p) = cand_label cf (nat (cursor p)) (cands u ! nat (selected u)) \<and> cands u = cands s)"
proof -
  let ?s = "reached cf results live page es"
  let ?u = "updateUI cf ic ?s"
  have i: "index_inv ?s" using reached_inv [of cf es results live page] by (simp add: addon_inv_def core_inv_def)
  have p: "panels ?u ic = panel_of cf ?u" "page_ok ?u" by (rule updateUI_panel)+
  have e: "shown (panel_of cf ?u) = []" if "cands ?s = []" using that by (simp add: panel_of_def)
  show ?thesis unfolding Let_def p(1)
    using i e panel_cursor [OF p(2), of cf] by (auto simp: index_inv_def)
qed

text \<open>C35. Callbacks end. Commands that cannot be written call their handlers back, which restart
  the engine and send again, which may fail again: after any events, whatever starts and writes
  fail, the nesting has never gone deeper than two handlers; every line written is not empty, is made of
  printable characters (so it holds no line end) and is not the \<open>Q\<close> that ends the daemon; and the composition
  is made of lower-case letters. The length of a line is not bounded: see \<open>long_replay_cut\<close> in Protocol.\<close>

theorem callbacks_bounded:
  shows "let s = reached cf results live page es in
    \<not> stuck s \<and> \<not> draining s \<and> list_all (\<lambda>(l, h). good_line l) (wire s) \<and> letters (buf s)"
  using reached_inv [of cf es results live page]
  by (simp add: addon_inv_def core_inv_def wire_inv_def list_all_iff Let_def)

subsection \<open>The waiting space\<close>

lemma fallback_effect:
  assumes w: "weak_inv s"
  shows "outp (fallbackPending cf ic s) = outp s @ Commit ic (pendingRaw s) # map (Forward ic) (filter release (queued s))"
    and "buf (fallbackPending cf ic s) = []"
  using commitText_effect(3,5) [OF cancel_core [OF w]]
  by (simp_all add: fallbackPending_def forward_releases_def Let_def)

text \<open>C36. A waiting space is resolved. After any events, when a space waits for candidates there are
  letters to commit and its timer is armed for the context of the composition; and when that
  timer fires while the context lives, everything typed is committed to it in order: the
  letters, the space and the text of the keys queued behind it, the queued releases are passed
  on, and nothing is left waiting.\<close>

theorem waiting_space_resolves:
  assumes "s = reached cf results live page es" and "pendingSpace s"
  shows "\<exists>ic. icRef s = Some ic \<and> pendingTimer s = Some (ic, epoch s) \<and> buf s \<noteq> [] \<and>
    (ic_live s ic \<longrightarrow> (let s' = on_event cf PendingTimer s in
       outp s' = outp s @ Commit ic (buf s @ [SP] @ concat (map ktext (filter (\<lambda>k. \<not> release k) (queued s)))) #
         map (Forward ic) (filter release (queued s)) \<and>
       \<not> pendingSpace s' \<and> queued s' = [] \<and> buf s' = []))"
proof -
  have i: "core_inv s" using reached_inv [of cf es results live page] by (simp add: assms(1) addon_inv_def)
  then obtain ic where ic: "icRef s = Some ic" "pendingTimer s = Some (ic, epoch s)" "buf s \<noteq> []"
    using assms(2) by (auto simp: core_inv_def)
  have "on_event cf PendingTimer s = fallbackPending cf ic s" if "ic_live s ic"
    using ic that assms(2) by (simp add: on_event_def pending_timer_def deref_def)
  then show ?thesis
    using ic fallback_effect [OF core_weak [OF i]] fallback_after(2,3) [OF core_weak [OF i]] assms(2)
    by (intro exI [of _ ic]) (simp add: Let_def pendingRaw_def)
qed


lemma idle_prepare_sel:
  "buf (idle_prepare cf ic y s) = buf s" "cands (idle_prepare cf ic y s) = cands s" "gaveUp (idle_prepare cf ic y s) = gaveUp s"
  "candidatesCurrent (idle_prepare cf ic y s) = candidatesCurrent s" "pendingSpace (idle_prepare cf ic y s) = pendingSpace s"
proof -
  obtain ch n where n: "normalizePage s = (ch, n)" by fastforce
  obtain ws sel where "n = s\<lparr>windowStart := ws, selected := sel\<rparr>" using normalizePage_frame [of s] n by auto
  then show "buf (idle_prepare cf ic y s) = buf s" "cands (idle_prepare cf ic y s) = cands s" "gaveUp (idle_prepare cf ic y s) = gaveUp s"
    "candidatesCurrent (idle_prepare cf ic y s) = candidatesCurrent s" "pendingSpace (idle_prepare cf ic y s) = pendingSpace s"
    by (simp_all add: idle_prepare_def n Let_def)
qed

lemma space_arms:
  assumes "deref (icRef s) s = Some ic" and "\<not> pendingSpace s" and "buf s \<noteq> []" and "\<not> candidatesCurrent s" and "\<not> gaveUp s"
  shows "pendingSpace (snd (processKey cf ic (press SP) s))"
proof -
  have e: "s\<lparr>icRef := Some ic\<rparr> = s" using deref_some [OF assms(1)] by (cases s) simp
  have n: "\<not> is_lower (Ascii SP)" "\<not> is_upper (Ascii SP)" "\<not> code_in 49 57 (Ascii SP)" "\<not> ownsPunctuation SP"
    by (simp_all add: is_lower_def is_upper_def code_in_def SP_def owned_cases punct_table_def DQ_def SQ_def)
  show ?thesis using assms
    by (simp add: processKey_def e press_def idle_key_def idle_dispatch_def idle_prepare_sel n the_char_def armPending_def Let_def)
      (simp add: SP_def)
qed

definition sample_addon :: addon where
  "sample_addon = reached plain_conf [] (\<lambda>_. True) 5 [KeyEvent 0 (press (CHR ''n'')), KeyEvent 0 (press SP)]"

lemma send_push:
  "palive s \<Longrightarrow> in_open s \<Longrightarrow> env s = [] \<Longrightarrow>
   send cf l h s = s\<lparr>pending := pending s @ [h], wire := wire s @ [(l, h)]\<rparr>"
  by (simp add: send_def send_with_def take_env_def)

lemma ensure_alive: "palive s \<Longrightarrow> ensureEngine cf s = s"
  by (simp add: ensureEngine_def ensureEngine_with_def)

lemma request_push:
  "palive s \<Longrightarrow> in_open s \<Longrightarrow> env s = [] \<Longrightarrow> buf s \<noteq> [] \<Longrightarrow> keys \<noteq> [] \<Longrightarrow>
   requestCandidates cf keys s =
     s\<lparr>pending := pending s @ [candidateHandler s], wire := wire s @ [(''B '' @ keys, candidateHandler s)]\<rparr>"
  using ensure_alive [of s cf] send_push [of s cf "''B '' @ keys" "candidateHandler s"]
  by (simp add: requestCandidates_def requestCandidates_with_def ensureEngine_def send_def Let_def)

lemma new_addon_sel:
  "let s = new_addon cf [] live page in palive s \<and> in_open s \<and> env s = [] \<and> icRef s = None \<and> \<not> gaveUp s \<and> ic_live s = live"
  by (simp add: new_addon_def ensureEngine_def ensureEngine_with_def start_proc_def proc_running_def take_env_def send_with_def
      blank_addon_def Let_def)

lemma letter_types:
  assumes "palive s" and "in_open s" and "env s = []" and "\<not> gaveUp s" and "buf s = []" and k: "is_lower (Ascii c)" and "\<not> is_upper (Ascii c)"
    and "lower_of (Ascii c) = c"
  shows "let s' = snd (idle_dispatch cf ic (Ascii c) False s) in
    icRef s' = icRef s \<and> ic_live s' = ic_live s \<and> pendingSpace s' = pendingSpace s \<and> buf s' = [c] \<and> \<not> candidatesCurrent s' \<and> \<not> gaveUp s'"
  using assms
  by (simp add: idle_dispatch_def letter_key_def ensure_alive request_push Let_def)

lemma sample_letter:
  "\<exists>s. on_event plain_conf (KeyEvent 0 (press (CHR ''n''))) (new_addon plain_conf [] (\<lambda>_. True) 5) = s \<and>
     icRef s = Some 0 \<and> ic_live s 0 \<and> \<not> pendingSpace s \<and> buf s = ''n'' \<and> \<not> candidatesCurrent s \<and> \<not> gaveUp s"
proof -
  obtain a where a: "new_addon plain_conf [] (\<lambda>_. True) 5 = a" "palive a" "in_open a" "env a = []" "icRef a = None"
    "\<not> gaveUp a" "ic_live a = (\<lambda>_. True)"
    using new_addon_sel [of plain_conf "\<lambda>_. True" 5] by (auto simp: Let_def)
  have k: "is_lower (Ascii (CHR ''n''))" "\<not> is_upper (Ascii (CHR ''n''))" "lower_of (Ascii (CHR ''n'')) = CHR ''n''"
    by (simp_all add: is_lower_def is_upper_def code_in_def lower_of_def the_char_def)
  let ?b = "(clearAll plain_conf None a)\<lparr>icRef := Some 0\<rparr>"
  have b: "palive ?b" "in_open ?b" "env ?b = []" "\<not> gaveUp ?b" "buf ?b = []" "icRef ?b = Some 0" "ic_live ?b = (\<lambda>_. True)"
    "\<not> pendingSpace ?b" "cands ?b = []" "windowStart ?b = 0" "selected ?b = 0"
    using a by (simp_all add: clearAll_def cancelPending_def disarmPending_def no_cands_def send_push)
  obtain c where c: "?b = c" by blast
  note b = b [unfolded c]
  have "normalizePage c = (False, c)" using b by (simp add: normalizePage_def)
  then have "idle_prepare plain_conf 0 (Ascii (CHR ''n'')) c = c"
    by (simp add: idle_prepare_def code_in_def is_kp_def)
  then have "snd (processKey plain_conf 0 (press (CHR ''n'')) a) = snd (idle_dispatch plain_conf 0 (Ascii (CHR ''n'')) False c)"
    using b a(5) unfolding processKey_def Let_def by (simp add: deref_def press_def idle_key_def c)
  then show ?thesis
    using letter_types [OF b(1-5) k, of plain_conf 0] b(6-8) a(1) by (simp add: on_event_def Let_def)
qed

theorem waiting_space_resolves_witness:
  "pendingSpace sample_addon \<and> (\<exists>ic. icRef sample_addon = Some ic \<and> pendingTimer sample_addon = Some (ic, epoch sample_addon))"
proof -
  obtain s where s: "on_event plain_conf (KeyEvent 0 (press (CHR ''n''))) (new_addon plain_conf [] (\<lambda>_. True) 5) = s"
    "icRef s = Some 0" "ic_live s 0" "\<not> pendingSpace s" "buf s = ''n''" "\<not> candidatesCurrent s" "\<not> gaveUp s"
    using sample_letter by blast
  have "pendingSpace (snd (processKey plain_conf 0 (press SP) s))"
    using s by (intro space_arms) (simp_all add: deref_def)
  moreover have "sample_addon = snd (processKey plain_conf 0 (press SP) s)"
    unfolding sample_addon_def on_events.simps s(1) by (simp add: on_event_def)
  ultimately have p: "pendingSpace sample_addon" by simp
  from waiting_space_resolves [OF sample_addon_def p] p show ?thesis by blast
qed

subsection \<open>Stale replies\<close>

subsection \<open>Replies and later typing\<close>

text \<open>C37. Replies and what has been typed since. A reply that is not for the letters as they are now
  (another buffer or another revision) commits nothing, changes neither the composition nor
  the queue, and makes no candidates selectable; at most it shows a page for an earlier prefix.
  When no space waits, a list for the letters as they are replaces the candidates by the items
  of the reply, makes them selectable, and commits nothing either.\<close>

theorem stale_replies_harmless:
  assumes "core_inv s" and "\<not> pendingSpace s \<or> er \<noteq> revision s \<or> eb \<noteq> buf s"
  shows "let s' = cand_reply cf ref ep eb er resp s; current = (er = revision s \<and> eb = buf s);
      items = parse_reply (spansEnabled s) resp in
    outp s' = outp s \<and> buf s' = buf s \<and> revision s' = revision s \<and> queued s' = queued s \<and> history s' = history s \<and>
    (candidatesCurrent s' \<longrightarrow> candidatesCurrent s \<or> current) \<and> (cands s' = cands s \<or> cands s' = map snd items) \<and>
    (current \<and> deref ref s \<noteq> None \<and> deref (icRef s) s = deref ref s \<and> ep = epoch s \<and> starts CAND_TAB resp \<longrightarrow>
       cands s' = map snd items \<and> covers s' = map fst items \<and> candidatesCurrent s')"
proof -
  let ?current = "er = revision s \<and> eb = buf s" and ?items = "parse_reply (spansEnabled s) resp"
  let ?r = "cand_reply cf ref ep eb er resp s"
  let ?u = "\<lambda>ic. updateUI cf ic (s\<lparr>cands := map snd ?items, covers := map fst ?items,
                        candidatesCurrent := ?current, windowStart := 0, selected := 0\<rparr>)"
  let ?p = "let s1 = send cf ''C'' NoHandler (s\<lparr>recoveryTried := True\<rparr>) in requestCandidates cf (buf s1) s1"
  note l = core_letters [OF assms(1)]
  have replay: "calm s ?p"
  proof -
    let ?b = "send cf ''C'' NoHandler (s\<lparr>recoveryTried := True\<rparr>)"
    have cb: "calm (s\<lparr>recoveryTried := True\<rparr>) ?b" using l by (intro send_calm) simp_all
    have "calm ?b (requestCandidates cf (buf ?b) ?b)"
      using calm_sel(1) [OF cb] l by (intro requestCandidates_calm) simp_all
    then show ?thesis using calm_trans [OF calm_trans [OF calm_flags(2) cb]] by (simp add: Let_def)
  qed
  have tabs: "starts CAND_TAB resp \<Longrightarrow> resp \<noteq> ''SKIP'' \<and> resp \<noteq> ''EMPTY''"
    by (auto simp: starts_def CAND_TAB_def)
  have nt: "\<not> (?current \<and> pendingSpace s)" using assms(2) by blast
  have cases: "?r = s \<and> \<not> (?current \<and> deref ref s \<noteq> None \<and> deref (icRef s) s = deref ref s \<and> ep = epoch s \<and> starts CAND_TAB resp)
      \<or> ?r = ?p \<and> \<not> starts CAND_TAB resp \<or> (\<exists>ic. ?r = ?u ic)"
  proof (cases "\<exists>ic. deref ref s = Some ic \<and> deref (icRef s) s = Some ic \<and> ep = epoch s \<and> resp \<noteq> ''SKIP''")
    case False
    then have "?r = s" by (auto simp: cand_reply_def split: option.split)
    then show ?thesis using False tabs by auto
  next
    case True
    then obtain ic where ic: "deref ref s = Some ic" "deref (icRef s) s = Some ic" "ep = epoch s" "resp \<noteq> ''SKIP''" by blast
    show ?thesis
    proof (cases "?current \<or> eb \<noteq> [] \<and> is_prefix_of eb (buf s) \<and> starts CAND_TAB resp")
      case False
      then have "?r = s" using ic by (auto simp: cand_reply_def)
      then show ?thesis using False by blast
    next
      case go: True
      show ?thesis
      proof (cases "resp \<noteq> ''EMPTY'' \<and> \<not> starts CAND_TAB resp")
        case True
        then have "?r = s \<or> ?r = ?p" using ic go nt by (auto simp: cand_reply_def)
        then show ?thesis using True by blast
      next
        case False
        have q: "\<not> (deref (icRef s) s \<noteq> Some ic \<or> ep \<noteq> epoch s \<or> resp = ''SKIP'')" using ic by simp
        have p: "\<not> (\<not> ?current \<and> \<not> (\<not> ?current \<and> eb \<noteq> [] \<and> is_prefix_of eb (buf s) \<and> starts CAND_TAB resp))"
          using go by blast
        have r: "\<not> (?current \<and> pendingSpace (?u ic))" using nt by simp
        have "?r = ?u ic"
          unfolding cand_reply_def ic(1) option.case Let_def if_not_P [OF q] if_not_P [OF p] if_not_P [OF False] if_not_P [OF r]
          by (rule refl)
        then show ?thesis by blast
      qed
    qed
  qed
  then show ?thesis
  proof (elim disjE exE)
    assume "?r = s \<and> \<not> (?current \<and> deref ref s \<noteq> None \<and> deref (icRef s) s = deref ref s \<and> ep = epoch s \<and> starts CAND_TAB resp)"
    then show ?thesis unfolding Let_def by auto
  next
    assume "?r = ?p \<and> \<not> starts CAND_TAB resp"
    then show ?thesis using calm_sel [OF replay] unfolding Let_def by simp
  next
    fix ic assume u: "?r = ?u ic"
    show ?thesis unfolding Let_def u by simp
  qed
qed

theorem stale_replies_harmless_witness:
  "\<exists>s s'. on_event plain_conf (KeyEvent 0 (press (CHR ''n''))) (new_addon plain_conf [] (\<lambda>_. True) 5) = s \<and>
     s' = cand_reply plain_conf (Some 0) (epoch s) ''n'' (revision s) (CAND_TAB @ ''1:ni'') s \<and>
     buf s' = ''n'' \<and> candidatesCurrent s' \<and> outp s' = outp s"
proof -
  obtain s where s: "on_event plain_conf (KeyEvent 0 (press (CHR ''n''))) (new_addon plain_conf [] (\<lambda>_. True) 5) = s"
    "icRef s = Some 0" "ic_live s 0" "\<not> pendingSpace s" "buf s = ''n''"
    using sample_letter by blast
  have "addon_inv s" using event_inv [OF new_addon_inv] s(1) by blast
  then have c: "core_inv s" by (rule inv_core)
  have "\<not> pendingSpace s \<or> revision s \<noteq> revision s \<or> ''n'' \<noteq> buf s" using s(4) by simp
  from stale_replies_harmless [OF c this, of plain_conf "Some 0" "epoch s" "CAND_TAB @ ''1:ni''"] s
  have "buf (cand_reply plain_conf (Some 0) (epoch s) ''n'' (revision s) (CAND_TAB @ ''1:ni'') s) = ''n'' \<and>
      candidatesCurrent (cand_reply plain_conf (Some 0) (epoch s) ''n'' (revision s) (CAND_TAB @ ''1:ni'') s) \<and>
      outp (cand_reply plain_conf (Some 0) (epoch s) ''n'' (revision s) (CAND_TAB @ ''1:ni'') s) = outp s"
    by (simp add: Let_def deref_def starts_def)
  with s(1) show ?thesis by blast
qed

subsection \<open>Punctuation over a partial candidate\<close>

lemma commitCandidate_partial:
  assumes c: "core_inv s" and cur: "candidatesCurrent s" and i: "0 \<le> i" "i < int (length (cands s))"
    and p: "0 < covers s ! nat i" "covers s ! nat i < int (length (buf s))"
  shows "buf (commitCandidate cf ic i s) = drop (nat (covers s ! nat i)) (buf s) \<and>
    outp (commitCandidate cf ic i s) = outp s @ [Commit ic (cands s ! nat i)] \<and> \<not> pendingSpace (commitCandidate cf ic i s)"
proof -
  let ?cover = "covers s ! nat i" and ?text = "cands s ! nat i"
  let ?a = "commitString ic ?text (remember cf ic ?text s)"
  let ?b = "no_cands (?a\<lparr>revision := revision ?a + 1, buf := drop (nat ?cover) (buf ?a)\<rparr>)"
  have np: "\<not> pendingSpace s" using c cur by (auto simp: core_inv_def)
  have a: "after s ?a" using after_trans [OF calm_remember [OF c] calm_commit] .
  then have "after ?a ?b"
    using np letters_part(2) [OF core_letters [OF c]] by (intro after_new_buf) (simp_all add: after_def)
  then have b: "core_inv ?b" unfolding after_def by blast
  have len: "i < int (length (covers s))" using c i by (simp add: core_inv_def index_inv_def)
  have "commitCandidate cf ic i s = updateUI cf ic (send cf (select_line i) (candidateHandler ?b) ?b)"
    using cur i p len unfolding commitCandidate_def Let_def by simp
  then show ?thesis using send_sel(1,3,5) [OF b good_select, of cf i "candidateHandler ?b"] np
    by (simp add: no_cands_def commitString_def remember_def)
qed

text \<open>Punctuation drops letters. When the selected candidate covers only a prefix of the letters,
  selecting it (by space, digit or click) commits it and keeps the other letters in the
  composition. A punctuation key over the same candidate commits it with the punctuation and
  clears the whole composition: the letters the candidate does not cover are lost.\<close>

theorem punctuation_drops_rest:
  assumes "core_inv s" and "candidatesCurrent s" and "cands s \<noteq> []"
    and "0 < covers s ! nat (selected s)" and "covers s ! nat (selected s) < int (length (buf s))"
    and "ownsPunctuation key" and "\<not> digitException key" and "\<not> structured cf ic"
  shows "(let s' = snd (punct_key cf ic key s) in
       buf s' = [] \<and> outp s' = outp s @ [Commit ic (cands s ! nat (selected s) @ fst (punctFor key True (history s ic)))]) \<and>
    (let s' = commitCandidate cf ic (selected s) s in
       buf s' = drop (nat (covers s ! nat (selected s))) (buf s) \<and> buf s' \<noteq> [] \<and>
       outp s' = outp s @ [Commit ic (cands s ! nat (selected s))])"
proof -
  have np: "\<not> pendingSpace s" using assms(1,2) by (auto simp: core_inv_def)
  have i: "0 \<le> selected s" "selected s < int (length (cands s))"
    using assms(1,3) by (auto simp: core_inv_def index_inv_def)
  obtain t st where t: "punctFor key True (history s ic) = (t, st)" by fastforce
  have tn: "t \<noteq> []" using t assms(6)
    by (auto simp: punctFor_def ownsPunctuation_def isQuote_def Let_def split: if_split_asm)
  let ?a = "s\<lparr>history := (history s)(ic := st)\<rparr>"
  have pf: "punct_for ic key True s = (t, ?a)" using t by (simp add: punct_for_def)
  have ca: "core_inv ?a" using punct_for_after [OF assms(1) pf] by (simp add: after_def)
  let ?b = "send cf (select_line (selected s)) NoHandler ?a"
  have cb: "core_inv ?b" using after_send [OF ca good_select] unfolding after_def by blast
  note sb = send_sel [OF ca good_select, of cf "selected s" NoHandler]
  have bn: "buf s \<noteq> []" using assms(4,5) by auto
  have w: "fullwidthPunctuation (valid cf) (structured cf ic) (history s ic) key x" for x
    using assms(7,8) by (simp add: fullwidthPunctuation_def)
  have "snd (punct_key cf ic key s) = commitText cf ic (cands s ! nat (selected s) @ t) ?b"
    using assms(2,3) bn tn pf w by (auto simp: punct_key_def Let_def)
  then have "buf (snd (punct_key cf ic key s)) = [] \<and>
      outp (snd (punct_key cf ic key s)) = outp s @ [Commit ic (cands s ! nat (selected s) @ t)]"
    using commitText_effect(3,5) [OF cb] sb(1,5) np by simp
  then show ?thesis
    using commitCandidate_partial [OF assms(1,2) i assms(4,5), of cf ic] assms(4,5) t by (auto simp: Let_def)
qed

theorem punctuation_drops_rest_witness:
  "\<exists>s. buf s = ''nihao'' \<and> (let s' = snd (punct_key plain_conf 0 (CHR ''!'') s) in
     buf s' = [] \<and> outp s' = outp s @ [Commit 0 (''NI'' @ fst (punctFor (CHR ''!'') True (history s 0)))])"
proof -
  let ?s = "(blank_addon [] (\<lambda>_. True) 5)\<lparr>buf := ''nihao'', cands := [''NI''], covers := [2], candidatesCurrent := True\<rparr>"
  have c: "core_inv ?s"
    by (simp add: blank_addon_def core_inv_def pipe_inv_def wire_inv_def index_inv_def) (simp add: letters_def)
  have s: "selected ?s = 0" "candidatesCurrent ?s" "cands ?s \<noteq> []" "covers ?s ! 0 = 2" "buf ?s = ''nihao''" "cands ?s ! 0 = ''NI''"
    by (simp_all add: blank_addon_def)
  have k: "ownsPunctuation (CHR ''!'')" "\<not> digitException (CHR ''!'')" "\<not> structured plain_conf 0"
    by (simp_all add: owned_cases punct_table_def digitException_def plain_conf_def)
  from punctuation_drops_rest [OF c s(2,3) _ _ k] s show ?thesis
    by (intro exI [of _ ?s]) (simp add: Let_def)
qed

end
