(* ===== verification/Protocol.thy ===== *)
theory Protocol
  imports Daemon_Runs Addon_Props
begin

text \<open>
  The daemon and the addon together: the candidate line as the daemon prints it
  (\<open>daemon_reply_cands\<close> and the other replies of \<open>run_daemon\<close> in \<open>harness/jinterop.c\<close>) and as the
  addon parses it (\<open>candidateHandler\<close> in \<open>wetype.cpp\<close>), and the pairing of the commands the addon
  writes with the replies of the daemon.
\<close>

subsection \<open>The text of replies\<close>

definition render_item :: "bool \<Rightarrow> int \<times> string \<Rightarrow> string" where
  "render_item sp it = TAB # (if sp then show_int (fst it) @ COLON # snd it else snd it)"

fun render_reply :: "reply \<Rightarrow> string" where
  "render_reply READY = ''READY''"
| "render_reply PONG = ''PONG''"
| "render_reply OK = ''OK''"
| "render_reply (OKX r) = ''OK'' @ TAB # show_int r"
| "render_reply SKIP = ''SKIP''"
| "render_reply EMPTY = ''EMPTY''"
| "render_reply ERR = ''ERR''"
| "render_reply BYE = ''BYE''"
| "render_reply (CAND sp items) = ''CAND'' @ concat (map (render_item sp) items)"

lemma getlines_join:
  assumes "list_all (\<lambda>p. p \<noteq> [] \<and> d \<notin> set p) (p # ps)"
  shows "getlines d (p @ concat (map (\<lambda>q. d # q) ps)) = p # ps"
  using assms
proof (induction ps arbitrary: p)
  case Nil
  then obtain c cs where p: "p = c # cs" by (cases p) auto
  have "takeWhile (\<lambda>x. x \<noteq> d) p = p" and "dropWhile (\<lambda>x. x \<noteq> d) p = []"
    using Nil by (auto simp: takeWhile_eq_all_conv dropWhile_eq_Nil_conv)
  then show ?case by (simp add: p getlines.simps(2))
next
  case (Cons q ps)
  then obtain c cs where p: "p = c # cs" by (cases p) auto
  have nd: "\<forall>x \<in> set p. x \<noteq> d" using Cons.prems by auto
  then have "takeWhile (\<lambda>x. x \<noteq> d) (p @ d # z) = p" and "dropWhile (\<lambda>x. x \<noteq> d) (p @ d # z) = d # z" for z
    by (simp_all add: takeWhile_append2 dropWhile_append2)
  then have "getlines d (p @ d # z) = p # getlines d z" for z
    using getlines.simps(2) [of d c "cs @ d # z"] by (simp add: p)
  then show ?case using Cons by simp
qed

definition item_text :: "bool \<Rightarrow> int \<times> string \<Rightarrow> string" where
  "item_text sp it = (if sp then show_int (fst it) @ COLON # snd it else snd it)"

lemma parse_item_text:
  assumes "snd it \<noteq> []"
  shows "parse_item sp (item_text sp it) = Some (if sp then fst it else 0, snd it)"
proof (cases sp)
  case False
  then show ?thesis using assms by (simp add: parse_item_def item_text_def)
next
  case True
  have nc: "COLON \<notin> set (show_int n)" for n
    using dec_string_digit [of COLON "nat (- n)"] dec_string_digit [of COLON "nat n"]
    by (auto simp: show_int_def COLON_def digit_def)
  then have "dropWhile (\<lambda>c. c \<noteq> COLON) (item_text sp it) = COLON # snd it"
    using True by (auto simp: item_text_def dropWhile_append2 dropWhile_append3)
  moreover have "\<not> digit COLON" by (simp add: digit_def COLON_def)
  then have "atoi (item_text sp it) = fst it" using True atoi_show_int [of "COLON # snd it"] by (simp add: item_text_def)
  moreover have "COLON \<in> set (item_text sp it)" using True by (simp add: item_text_def)
  ultimately show ?thesis using True assms by (simp add: parse_item_def)
qed

lemma show_int_no_tab: "TAB \<notin> set (show_int n)"
  using dec_string_digit [of TAB "nat (- n)"] dec_string_digit [of TAB "nat n"]
  by (auto simp: show_int_def TAB_def digit_def)

lemma line_parsed:
  assumes "list_all (\<lambda>it. snd it \<noteq> [] \<and> TAB \<notin> set (snd it)) items" and "items \<noteq> []"
  shows "parse_reply sp (render_reply (CAND sp items)) = map (\<lambda>it. (if sp then fst it else 0, snd it)) items"
proof -
  obtain it rest where items: "items = it # rest" using assms(2) by (cases items) auto
  have ok: "list_all (\<lambda>p. p \<noteq> [] \<and> TAB \<notin> set p) (map (item_text sp) items)"
    using assms(1) show_int_no_tab by (auto simp: list_all_iff item_text_def COLON_def TAB_def)
  have "render_reply (CAND sp items) = CAND_TAB @ item_text sp it @ concat (map (\<lambda>q. TAB # q) (map (item_text sp) rest))"
  proof -
    have "render_item sp = (\<lambda>q. TAB # item_text sp q)" by (rule ext) (simp add: render_item_def item_text_def)
    then show ?thesis by (simp add: items CAND_TAB_def Fun.comp_def)
  qed
  moreover have "getlines TAB (item_text sp it @ concat (map (\<lambda>q. TAB # q) (map (item_text sp) rest))) = map (item_text sp) items"
    using getlines_join [of TAB "item_text sp it" "map (item_text sp) rest"] ok by (simp add: items)
  moreover have "starts CAND_TAB (CAND_TAB @ x)" and "drop 5 (CAND_TAB @ x) = x" for x
    by (simp_all add: starts_def CAND_TAB_def)
  ultimately have "parse_reply sp (render_reply (CAND sp items)) = List.map_filter (parse_item sp) (map (item_text sp) items)"
    by (simp only: parse_reply_def if_True)
  also have "\<dots> = map (\<lambda>it. (if sp then fst it else 0, snd it)) items"
    using assms(1) by (induction items) (simp_all add: List.map_filter_simps parse_item_text)
  finally show ?thesis .
qed

text \<open>C38. The candidate line. What the daemon prints for a list of candidates, the addon parses back
  into the same list: the texts in order and, with spans, the cover lengths; without spans no
  cover length is known. The texts must be non-empty and without a tab (the fetched ones are
  never empty).\<close>

theorem candidate_line_roundtrip:
  assumes "list_all (\<lambda>it. snd it \<noteq> [] \<and> TAB \<notin> set (snd it)) items" and "items \<noteq> []"
  shows "parse_reply sp (render_reply (CAND sp items)) = map (\<lambda>it. (if sp then fst it else 0, snd it)) items"
  by (rule line_parsed [OF assms])

theorem candidate_line_roundtrip_witness:
  "parse_reply True (render_reply (CAND True [(5, ''hello''), (2, ''a:b'')])) = [(5, ''hello''), (2, ''a:b'')]"
  using candidate_line_roundtrip [of "[(5, ''hello''), (2, ''a:b'')]" True] by (simp add: TAB_def)

subsection \<open>Commands and replies\<close>

lemma good_line_cmd:
  assumes "good_line l"
  shows "cmd_of l = l" and "NL \<notin> set l" and "l \<noteq> []" and "l \<noteq> ''Q''"
proof -
  have r: "\<forall>c \<in> set l. 32 \<le> (of_char c :: nat) \<and> (of_char c :: nat) < 127" and ne: "l \<noteq> []"
    using assms by (auto simp: good_line_def)
  have x: "c \<noteq> CHR 0x00 \<and> c \<noteq> NL \<and> c \<noteq> CHR 0x0D" if "c \<in> set l" for c using bspec [OF r that] by (auto simp: NL_def)
  then have "c_string l = l" by (auto intro: c_string_id)
  moreover have "\<not> (last l = NL \<or> last l = CHR 0x0D)" using x [OF last_in_set [OF ne]] by simp
  ultimately show "cmd_of l = l" using ne by (simp add: cmd_of_def strip_cr.simps)
  show "NL \<notin> set l" using x by auto
  show "l \<noteq> []" "l \<noteq> ''Q''" using assms by (simp_all add: good_line_def)
qed

lemma good_requests: "list_all good_line ls \<Longrightarrow> requests ls = ls"
  using good_line_cmd by (induction ls) (simp_all add: requests_def)

text \<open>A replay of 510 letters or more does not fit the line buffer of the daemon, which acts on its first 509.\<close>

lemma long_replay_cut:
  assumes "in_ok inp" and "stream inp = (''B '' @ keys) @ NL # rest" and "letters keys" and "510 \<le> length keys"
    and "length keys < 8190"
  shows "\<exists>inp'. cmd_read 512 True inp = (Some (''B '' @ take 509 keys), inp') \<and> stream inp' = rest"
proof -
  have "NL \<notin> set (''B '' @ keys)" by (rule good_line_cmd(2) [OF good_B [OF assms(3)]])
  from cmd_read_line [OF assms(1,2) this, of 512]
  obtain inp' where "cmd_read 512 True inp = (Some (take (512 - 1) (line_tail (''B '' @ keys))), inp')" "stream inp' = rest"
    by blast
  moreover have "take (512 - 1) (line_tail (''B '' @ keys)) = ''B '' @ take 509 keys"
    using assms(5) by (simp add: line_tail_short IN_CAP_def)
  ultimately show ?thesis by metis
qed

text \<open>C39. Pairing over the pipe. Take any state the addon can reach with a running engine process,
  and a daemon that has read exactly the commands written to that process (in any pieces; each
  shorter than the daemon's line buffer). The daemon's output is \<open>READY\<close>, then exactly one reply
  for each of these commands in order, and \<open>BYE\<close>; the handlers still waiting in the addon are
  exactly those of the commands after the ones it has seen answered, and only a \<open>B\<close> command can
  be answered \<open>SKIP\<close>.\<close>

theorem pipe_pairing:
  assumes "a = on_events cf es (new_addon cf results live page)" and "palive a"
    and "list_all (\<lambda>(l, h). length l < 512) (wire a)"
    and "engine_ok eng" and "its_ok d" and "in_ok inp" and "stream inp = input_lines (map fst (wire a))"
    and "run_daemon eng dcf inp d = Some d'"
  shows "\<exists>rs. out d' = out d @ [READY] @ rs @ [BYE] \<and> length rs = length (wire a) \<and>
    Addon_State.pending a = map snd (drop (answered a) (wire a)) \<and> answered a \<le> length rs \<and>
    (\<forall>i < length rs. rs ! i = SKIP \<longrightarrow> take 2 (fst (wire a ! i)) = ''B '')"
proof -
  have i: "core_inv a" using reached_inv [of cf es results live page] assms(1) by (simp add: addon_inv_def)
  have p: "Addon_State.pending a = map snd (drop (answered a) (wire a))" "answered a \<le> length (wire a)"
    using i assms(2) by (auto simp: core_inv_def pipe_inv_def)
  let ?ls = "map fst (wire a)"
  have good: "list_all good_line ?ls" using i by (auto simp: core_inv_def wire_inv_def list_all_iff)
  then have "lines_ok ?ls" using assms(3) good_line_cmd(2) by (auto simp: lines_ok_def list_all_iff)
  moreover have "its_ok (start d)" using assms(5) by simp
  ultimately obtain rs where rs: "out d' = out (start d) @ rs @ [BYE]" "paired (requests ?ls) rs"
    using loop_replies [OF assms(4) _ assms(6,7) _ assms(8) [unfolded run_daemon_start]] by blast
  from rs(2) good_requests [OF good] have "list_all2 (\<lambda>c r. r = SKIP \<longrightarrow> take 2 c = ''B '') ?ls rs"
    by (simp add: paired_def)
  then show ?thesis using rs(1) p by (intro exI [of _ rs]) (auto simp: list_all2_conv_all_nth)
qed

lemma sample_pipe:
  "wire (new_addon plain_conf [] (\<lambda>_. True) 5) = [(''OPT spans'', SpansHandler)]"
  by (simp add: new_addon_def ensureEngine_def ensureEngine_with_def start_proc_def proc_running_def take_env_def send_with_def
      blank_addon_def Let_def)

lemma sample_pipe_run:
  "\<exists>d'. run_daemon mute_engine sample_config (sample_input [''OPT spans'']) sample_daemon = Some d'"
proof -
  let ?i = "sample_input [''OPT spans'']"
  have r1: "cmd_read 512 True ?i = (Some ''OPT spans'', sample_input [])"
    using cmd_read_buffered [of ?i "''OPT spans''" "[]" 512 True] by (simp add: sample_input_def NL_def)
  obtain j where r2: "cmd_read 512 True (sample_input []) = (None, j)"
    using cmd_read_end [of "sample_input []" 512] by (auto simp: sample_input_def in_ok_def stream_def)
  have c: "strip_cr (c_string ''OPT spans'') = ''OPT spans''" by (simp add: c_string_def strip_cr_rev NL_def)
  have l: "daemon_line mute_engine sample_config ''OPT spans'' (sample_input []) s =
      Some (Next (sample_input []) (reply OK (s\<lparr>spans := True\<rparr>)))" for s
    by (simp add: daemon_line_def)
  have lp: "daemon_loop (Suc (Suc k)) mute_engine sample_config ?i s =
      Some (daemon_exit mute_engine (reply OK (s\<lparr>spans := True\<rparr>)))" for k s
    by (simp add: r1 r2 c l Let_def)
  have len: "Suc (length (stream ?i)) = Suc (Suc 9)" by (simp add: sample_input_def stream_def)
  show ?thesis unfolding run_daemon_start len by (rule exI, rule lp)
qed

theorem pipe_pairing_witness:
  "\<exists>d' r. run_daemon mute_engine sample_config (sample_input [''OPT spans'']) sample_daemon = Some d' \<and>
     out d' = [READY, r, BYE] \<and> Addon_State.pending (new_addon plain_conf [] (\<lambda>_. True) 5) = [SpansHandler]"
proof -
  let ?a = "new_addon plain_conf [] (\<lambda>_. True) 5"
  obtain d' where d: "run_daemon mute_engine sample_config (sample_input [''OPT spans'']) sample_daemon = Some d'"
    using sample_pipe_run by blast
  have a: "?a = on_events plain_conf [] ?a" by simp
  have al: "palive ?a" and an: "answered ?a = 0"
    by (simp_all add: new_addon_def ensureEngine_def ensureEngine_with_def start_proc_def proc_running_def take_env_def send_with_def
      blank_addon_def Let_def)
  have i: "in_ok (sample_input [''OPT spans''])" "stream (sample_input [''OPT spans'']) = input_lines (map fst (wire ?a))"
    unfolding sample_pipe by (simp_all add: sample_input_def in_ok_def IN_CAP_def stream_def)
  have l: "list_all (\<lambda>(l, h). length l < 512) (wire ?a)" unfolding sample_pipe by simp
  from pipe_pairing [OF a al l mute_engine_ok sample_daemon_ok(1) i d]
  obtain rs where rs: "out d' = out sample_daemon @ [READY] @ rs @ [BYE]" "length rs = length (wire ?a)"
    "Addon_State.pending ?a = map snd (drop (answered ?a) (wire ?a))" by blast
  then have "length rs = Suc 0" unfolding sample_pipe by simp
  then obtain r where "rs = [r]" by (cases rs) auto
  then have "out d' = [READY, r, BYE]" using rs(1) by (simp add: sample_daemon_ok(3))
  moreover have "Addon_State.pending ?a = [SpansHandler]" using rs(3) unfolding an sample_pipe by simp
  ultimately show ?thesis using d by blast
qed

end
