(* ===== verification/Alloc_Trace.thy ===== *)
theory Alloc_Trace
  imports Prelude
begin

unbundle bit_operations_syntax

text \<open>
  The allocation tracer (\<open>harness/malloc_trace.c\<close>), a library preloaded into the harness that
  replaces \<open>malloc\<close> and its relatives and operator \<open>new\<close>: every block gets a header of 32 bytes in
  front, and the live bytes are counted in total, by size and by call site. The atomics are
  sequential here. The real allocator is a parameter: its answer is an argument of each
  operation, and what it is called with is recorded in \<open>real_calls\<close> together with the answer.
  Contents of blocks are left out, except for the headers (\<open>hdrs\<close>, by the address of the header).
\<close>

subsection \<open>State\<close>

definition HDRSZ :: u64 where "HDRSZ = 32"
definition MAGIC :: u64 where "MAGIC = 0x6d74726163653131"
definition NBIN :: nat where "NBIN = 12"
definition NPC :: nat where "NPC = 8192"
definition BIGRING :: nat where "BIGRING = 512"
definition BOOT_SIZE :: nat where "BOOT_SIZE = 65536"

record hdr =
  h_magic :: u64
  h_size :: u64
  h_pc :: u64
  h_base :: u64

record pcent =
  e_pc :: u64
  e_bytes :: u64
  e_cnt :: u64

datatype real_call =
    RMalloc u64 u64          \<comment> \<open>size, answer\<close>
  | RRealloc u64 u64 u64     \<comment> \<open>block, size, answer\<close>
  | RFree u64

text \<open>One report of the periodic dump: the totals, the histogram, the call sites with the most live
  bytes, and the large blocks whose first bytes are printed.\<close>

record report =
  r_kb :: u64
  r_objs :: u64
  r_mallocs :: u64
  r_frees :: u64
  r_bins :: "u64 list"
  r_top :: "(u64 \<times> u64 \<times> u64) list"
  r_big :: "(u64 \<times> u64 \<times> u64) list"

datatype tstate = Unresolved | Resolving | Resolved

record tracer =
  live_bytes :: u64
  live_objs :: u64
  n_malloc :: u64
  n_free :: u64
  bin_count :: "u64 list"
  pc_tab :: "pcent list"
  tstate :: tstate
  mtrace_every :: u64
  bt_min :: u64
  big_ring :: "(u64 \<times> u64 \<times> u64) list"    \<comment> \<open>call site, block, size\<close>
  boot_at :: u64
  boot_used :: u64
  hdrs :: "u64 \<Rightarrow> hdr option"
  reports :: "report list"
  real_calls :: "real_call list"

subsection \<open>Size classes and call sites\<close>

function bin_from :: "u64 \<Rightarrow> nat \<Rightarrow> nat" where
  "bin_from n b = (if b + 1 < NBIN \<and> 16 * 2 ^ b < unat n then bin_from n (b + 1) else b)"
  by pat_completeness auto
termination
  by (relation "measure (\<lambda>(n, b). NBIN - b)") auto

declare bin_from.simps [simp del]

definition bin_of :: "u64 \<Rightarrow> nat" where "bin_of n = bin_from n 0"

definition pc_hash :: "u64 \<Rightarrow> u64" where
  "pc_hash pc = (drop_bit 4 pc * 2654435761) AND 8191"

text \<open>\<open>pc_find\<close>: at most 16 slots are probed; an empty slot is taken only with \<open>create\<close>. \<open>k\<close> slots
  are left.\<close>

fun pc_probe :: "u64 \<Rightarrow> u64 \<Rightarrow> bool \<Rightarrow> nat \<Rightarrow> nat \<Rightarrow> pcent list \<Rightarrow> nat option \<times> pcent list" where
  "pc_probe h pc create probe 0 tab = (None, tab)"
| "pc_probe h pc create probe (Suc k) tab =
     (let i = unat ((h + of_nat probe) AND 8191); e = tab ! i in
      if e_pc e = pc then (Some i, tab)
      else if e_pc e = 0 \<and> create then (Some i, tab[i := e\<lparr>e_pc := pc\<rparr>])
      else pc_probe h pc create (probe + 1) k tab)"

definition pc_find :: "u64 \<Rightarrow> bool \<Rightarrow> pcent list \<Rightarrow> nat option \<times> pcent list" where
  "pc_find pc create tab = pc_probe (pc_hash pc) pc create 0 16 tab"

subsection \<open>Reports\<close>

definition cur_bytes :: "pcent list \<Rightarrow> nat option \<Rightarrow> u64" where
  "cur_bytes tab j = (case j of None \<Rightarrow> 0 | Some i \<Rightarrow> e_bytes (tab ! i))"

text \<open>The entry is put before the first one with fewer bytes; the last one falls out.\<close>

fun place :: "pcent list \<Rightarrow> nat \<Rightarrow> nat option list \<Rightarrow> nat option list" where
  "place tab i [] = []"
| "place tab i (j # js) =
     (if cur_bytes tab j < e_bytes (tab ! i) then Some i # butlast (j # js) else j # place tab i js)"

definition top_sites :: "pcent list \<Rightarrow> nat list" where
  "top_sites tab =
     map the (takeWhile (\<lambda>j. j \<noteq> None)
       (fold (\<lambda>i idx. if e_pc (tab ! i) = 0 then idx else place tab i idx) [0..<length tab] (replicate 8 None)))"

definition big_dump :: "tracer \<Rightarrow> (u64 \<times> u64 \<times> u64) list" where
  "big_dump s = drop (if 60 < length (big_ring s) then length (big_ring s) - 60 else 0) (big_ring s)"

definition dump :: "tracer \<Rightarrow> tracer" where
  "dump s = s\<lparr>reports := reports s @
     [\<lparr>r_kb = drop_bit 10 (live_bytes s), r_objs = live_objs s, r_mallocs = n_malloc s, r_frees = n_free s,
       r_bins = bin_count s,
       r_top = map (\<lambda>i. let e = pc_tab s ! i in (e_pc e, drop_bit 10 (e_bytes e), e_cnt e)) (top_sites (pc_tab s)),
       r_big = big_dump s\<rparr>]\<rparr>"

subsection \<open>Counting\<close>

definition add_bin :: "u64 \<Rightarrow> u64 \<Rightarrow> u64 list \<Rightarrow> u64 list" where
  "add_bin d n bins = bins[bin_of n := bins ! bin_of n + d]"

definition bump :: "u64 \<Rightarrow> u64 \<Rightarrow> nat option \<times> pcent list \<Rightarrow> pcent list" where
  "bump d n r = (case r of
       (None, tab) \<Rightarrow> tab
     | (Some i, tab) \<Rightarrow> tab[i := (tab ! i)\<lparr>e_bytes := e_bytes (tab ! i) + d * n, e_cnt := e_cnt (tab ! i) + d\<rparr>])"

definition count_new :: "u64 \<Rightarrow> u64 \<Rightarrow> tracer \<Rightarrow> tracer" where
  "count_new n pc s =
     (let s1 = s\<lparr>live_bytes := live_bytes s + n, live_objs := live_objs s + 1,
                 bin_count := add_bin 1 n (bin_count s), pc_tab := bump 1 n (pc_find pc True (pc_tab s)),
                 n_malloc := n_malloc s + 1\<rparr>
      in if mtrace_every s1 \<noteq> 0 \<and> n_malloc s1 mod mtrace_every s1 = 0 then dump s1 else s1)"

definition count_del :: "u64 \<Rightarrow> u64 \<Rightarrow> tracer \<Rightarrow> tracer" where
  "count_del n pc s =
     s\<lparr>live_bytes := live_bytes s - n, live_objs := live_objs s - 1,
       bin_count := add_bin (- 1) n (bin_count s), n_free := n_free s + 1,
       pc_tab := bump (- 1) n (pc_find pc False (pc_tab s))\<rparr>"

subsection \<open>Allocation\<close>

definition boot_alloc :: "u64 \<Rightarrow> u64 \<Rightarrow> tracer \<Rightarrow> u64 \<times> tracer" where
  "boot_alloc n align s =
     (let off = (boot_used s + (align - 1)) AND NOT (align - 1);
          n1 = (n + 15) AND NOT 15
      in if of_nat BOOT_SIZE < off + n1 then (0, s)
         else (boot_at s + off, s\<lparr>boot_used := off + n1\<rparr>))"

text \<open>\<open>resolve\<close> in two halves, because looking up the real functions may allocate: what is called in
  between finds the tracer not ready. A call of the program runs once the second half is done.\<close>

definition resolve_begin :: "tracer \<Rightarrow> tracer" where
  "resolve_begin s = (if tstate s = Unresolved then s\<lparr>tstate := Resolving\<rparr> else s)"

definition resolve_end :: "u64 option \<Rightarrow> u64 option \<Rightarrow> tracer \<Rightarrow> tracer" where
  "resolve_end every bt s =
     (if tstate s = Resolving
      then s\<lparr>mtrace_every := (case every of None \<Rightarrow> mtrace_every s | Some v \<Rightarrow> v),
             bt_min := (case bt of None \<Rightarrow> bt_min s | Some v \<Rightarrow> v), tstate := Resolved\<rparr>
      else s)"

definition ready :: "tracer \<Rightarrow> bool" where "ready s \<longleftrightarrow> tstate s = Resolved"

definition put_hdr :: "u64 \<Rightarrow> u64 \<Rightarrow> u64 \<Rightarrow> u64 \<Rightarrow> tracer \<Rightarrow> tracer" where
  "put_hdr at n pc base s =
     s\<lparr>hdrs := (hdrs s)(at := Some \<lparr>h_magic = MAGIC, h_size = n, h_pc = pc, h_base = base\<rparr>)\<rparr>"

definition tag :: "u64 \<Rightarrow> u64 \<Rightarrow> u64 \<Rightarrow> tracer \<Rightarrow> u64 \<times> tracer" where
  "tag base n pc s =
     (if base = 0 then (0, s)
      else
        let s1 = count_new n pc (put_hdr base n pc base s);
            s2 = (if bt_min s1 \<noteq> 0 \<and> bt_min s1 \<le> n \<and> length (big_ring s1) < BIGRING
                  then s1\<lparr>big_ring := big_ring s1 @ [(pc, base + HDRSZ, n)]\<rparr> else s1)
        in (base + HDRSZ, s2))"

definition real_malloc :: "u64 \<Rightarrow> u64 \<Rightarrow> tracer \<Rightarrow> tracer" where
  "real_malloc n r s = s\<lparr>real_calls := real_calls s @ [RMalloc n r]\<rparr>"

text \<open>\<open>r\<close> is what the real allocator answers, when it is called.\<close>

definition malloc_pc :: "u64 \<Rightarrow> u64 \<Rightarrow> u64 \<Rightarrow> tracer \<Rightarrow> u64 \<times> tracer" where
  "malloc_pc r n pc s =
     (if \<not> ready s then
        let (b, s1) = boot_alloc (n + HDRSZ) 16 s in if b = 0 then (0, s1) else tag b n pc s1
      else tag r n pc (real_malloc (n + HDRSZ) r s))"

text \<open>\<open>calloc\<close>, with the product computed in 64 bits; clearing the block leaves no trace here.\<close>

definition calloc_pc :: "u64 \<Rightarrow> u64 \<Rightarrow> u64 \<Rightarrow> tracer \<Rightarrow> u64 \<times> tracer" where
  "calloc_pc r n pc s =
     (if \<not> ready s then
        let (p, s1) = boot_alloc (n + HDRSZ) 16 s in if p = 0 then (0, s1) else tag p n pc s1
      else
        let s1 = real_malloc (n + HDRSZ) r s in
        if r = 0 then (0, s1) else tag r n pc s1)"

definition memalign_pc :: "u64 \<Rightarrow> u64 \<Rightarrow> u64 \<Rightarrow> u64 \<Rightarrow> tracer \<Rightarrow> u64 \<times> tracer" where
  "memalign_pc r n align pc s =
     (if align \<le> 16 then malloc_pc r n pc s
      else
        let (base, s1) =
          (if \<not> ready s then boot_alloc (n + HDRSZ + align) 16 s
           else (r, real_malloc (n + HDRSZ + align) r s))
        in if base = 0 then (0, s1)
           else
             let p = (base + HDRSZ + align - 1) AND NOT (align - 1)
             in (p, count_new n pc (put_hdr (p - HDRSZ) n pc base s1)))"

definition has_magic :: "u64 \<Rightarrow> tracer \<Rightarrow> hdr option" where
  "has_magic p s = (case hdrs s (p - HDRSZ) of
       None \<Rightarrow> None
     | Some h \<Rightarrow> if h_magic h = MAGIC then Some h else None)"

definition real_realloc :: "u64 \<Rightarrow> u64 \<Rightarrow> u64 \<Rightarrow> tracer \<Rightarrow> tracer" where
  "real_realloc b n r s = s\<lparr>real_calls := real_calls s @ [RRealloc b n r]\<rparr>"

definition realloc :: "u64 \<Rightarrow> u64 \<Rightarrow> u64 \<Rightarrow> u64 \<Rightarrow> tracer \<Rightarrow> u64 \<times> tracer" where
  "realloc r old n pc s =
     (if old = 0 then malloc_pc r n pc s
      else case has_magic old s of
          None \<Rightarrow> if \<not> ready s then boot_alloc n 16 s else (r, real_realloc old n r s)
        | Some h \<Rightarrow>
            if \<not> ready s then (0, s)
            else
              let s1 = real_realloc (h_base h) (n + HDRSZ) r s in
              if r = 0 then (0, s1) else tag r n (h_pc h) (count_del (h_size h) (h_pc h) s1))"

definition in_boot :: "u64 \<Rightarrow> tracer \<Rightarrow> bool" where
  "in_boot p s \<longleftrightarrow> unat (boot_at s) \<le> unat p \<and> unat p < unat (boot_at s) + BOOT_SIZE"

definition real_free :: "u64 \<Rightarrow> tracer \<Rightarrow> tracer" where
  "real_free b s = s\<lparr>real_calls := real_calls s @ [RFree b]\<rparr>"

definition free :: "u64 \<Rightarrow> tracer \<Rightarrow> tracer" where
  "free p s =
     (if p = 0 \<or> in_boot p s then s
      else case has_magic p s of
          None \<Rightarrow> if ready s then real_free p s else s
        | Some h \<Rightarrow>
            if \<not> ready s then s else real_free (h_base h) (count_del (h_size h) (h_pc h) s))"

text \<open>The entry points: \<open>pc\<close> is the return address, operator \<open>new\<close> is \<open>malloc_pc\<close> or \<open>memalign_pc\<close> and
  operator \<open>delete\<close> is \<open>free\<close>. The product of \<open>calloc\<close> wraps around.\<close>

definition malloc :: "u64 \<Rightarrow> u64 \<Rightarrow> u64 \<Rightarrow> tracer \<Rightarrow> u64 \<times> tracer" where
  "malloc r n pc s = malloc_pc r n pc s"

definition calloc :: "u64 \<Rightarrow> u64 \<Rightarrow> u64 \<Rightarrow> u64 \<Rightarrow> tracer \<Rightarrow> u64 \<times> tracer" where
  "calloc r a b pc s = calloc_pc r (a * b) pc s"

definition operator_new :: "u64 \<Rightarrow> u64 \<Rightarrow> u64 option \<Rightarrow> u64 \<Rightarrow> tracer \<Rightarrow> u64 \<times> tracer" where
  "operator_new r n align pc s = (case align of None \<Rightarrow> malloc_pc r n pc s | Some a \<Rightarrow> memalign_pc r n a pc s)"

definition operator_delete :: "u64 \<Rightarrow> tracer \<Rightarrow> tracer" where
  "operator_delete p s = free p s"

end
