(* ===== verification/Alloc_Props.thy ===== *)
theory Alloc_Props
  imports Alloc_Trace "HOL-Library.Multiset"
begin

unbundle bit_operations_syntax

text \<open>
  Properties of the allocation tracer: over any run of the traced program the counters are those
  of the live blocks, the real allocator sees a valid sequence of calls, and a report lists the
  call sites with the most live bytes.
\<close>

subsection \<open>The table of call sites\<close>

definition chain :: "u64 \<Rightarrow> nat list" where
  "chain pc = map (\<lambda>k. unat ((pc_hash pc + of_nat k) AND 8191)) [0..<16]"

definition slot_for :: "pcent list \<Rightarrow> u64 \<Rightarrow> nat \<Rightarrow> bool" where
  "slot_for tab pc i \<longleftrightarrow> e_pc (tab ! i) = pc \<or> e_pc (tab ! i) = 0"

definition site_of :: "pcent list \<Rightarrow> u64 \<Rightarrow> nat option" where
  "site_of tab pc = find (\<lambda>i. e_pc (tab ! i) = pc) (chain pc)"

definition place_for :: "pcent list \<Rightarrow> u64 \<Rightarrow> nat option" where
  "place_for tab pc = find (slot_for tab pc) (chain pc)"

lemma upt_head: "[m..<m + Suc k] = m # [Suc m..<Suc m + k]"
  by (simp add: upt_conv_Cons)

lemma pc_probe_find:
  "pc_probe h pc c m k tab =
     (case find (\<lambda>i. e_pc (tab ! i) = pc \<or> (e_pc (tab ! i) = 0 \<and> c))
        (map (\<lambda>j. unat ((h + of_nat j) AND 8191)) [m..<m + k]) of
       None \<Rightarrow> (None, tab)
     | Some i \<Rightarrow> (Some i, if c then tab[i := (tab ! i)\<lparr>e_pc := pc\<rparr>] else tab))"
proof (induction k arbitrary: m)
  case 0
  then show ?case by simp
next
  case (Suc k)
  let ?i = "unat ((h + of_nat m) AND 8191)"
  have "(tab ! ?i)\<lparr>e_pc := e_pc (tab ! ?i)\<rparr> = tab ! ?i" by simp
  then have same: "e_pc (tab ! ?i) = pc \<Longrightarrow> tab[?i := (tab ! ?i)\<lparr>e_pc := pc\<rparr>] = tab"
    using list_update_id [of tab ?i] by (metis (no_types))
  let ?P = "\<lambda>i. e_pc (tab ! i) = pc \<or> (e_pc (tab ! i) = 0 \<and> c)"
  let ?xs = "map (\<lambda>j. unat ((h + of_nat j) AND 8191)) [Suc m..<Suc m + k]"
  have xs: "map (\<lambda>j. unat ((h + of_nat j) AND 8191)) [m..<m + Suc k] = ?i # ?xs"
    by (simp only: upt_head list.map)
  consider "e_pc (tab ! ?i) = pc" | "e_pc (tab ! ?i) \<noteq> pc" "e_pc (tab ! ?i) = 0" c | "\<not> ?P ?i" by blast
  then show ?case
  proof cases
    case 1
    then show ?thesis using same unfolding xs by (simp add: Let_def)
  next
    case 2
    then show ?thesis unfolding xs by (simp add: Let_def)
  next
    case 3
    then have "pc_probe h pc c m (Suc k) tab = pc_probe h pc c (Suc m) k tab" by (auto simp: Let_def)
    moreover have "find ?P (?i # ?xs) = find ?P ?xs" using 3 by (simp only: find.simps if_False)
    ultimately show ?thesis using Suc.IH [of "Suc m"] unfolding xs by (simp only:)
  qed
qed

lemma pc_find_False: "pc_find pc False tab = (site_of tab pc, tab)"
  by (auto simp: pc_find_def pc_probe_find site_of_def chain_def split: option.split)

lemma pc_find_True:
  "pc_find pc True tab = (case place_for tab pc of
       None \<Rightarrow> (None, tab) | Some i \<Rightarrow> (Some i, tab[i := (tab ! i)\<lparr>e_pc := pc\<rparr>]))"
proof -
  have "slot_for tab pc = (\<lambda>i. e_pc (tab ! i) = pc \<or> e_pc (tab ! i) = 0)"
    by (rule ext) (simp add: slot_for_def)
  then have "place_for tab pc = find (\<lambda>i. e_pc (tab ! i) = pc \<or> e_pc (tab ! i) = 0) (chain pc)"
    by (simp add: place_for_def)
  moreover have "pc_find pc True tab = (case find (\<lambda>i. e_pc (tab ! i) = pc \<or> e_pc (tab ! i) = 0) (chain pc) of
       None \<Rightarrow> (None, tab) | Some i \<Rightarrow> (Some i, tab[i := (tab ! i)\<lparr>e_pc := pc\<rparr>]))"
    unfolding pc_find_def pc_probe_find chain_def by (simp only: simp_thms if_True add_0)
  ultimately show ?thesis by (simp only:)
qed

lemma chain_bound: "i \<in> set (chain pc) \<Longrightarrow> i < 8192"
proof -
  have "unat (w AND 8191) < 8192" for w :: u64
  proof -
    have "w AND 8191 \<le> 8191" by (rule word_and_le1)
    then have "unat (w AND 8191) \<le> unat (8191 :: u64)" by (simp only: word_le_nat_alt)
    then show ?thesis by simp
  qed
  then show "i \<in> set (chain pc) \<Longrightarrow> i < 8192" by (auto simp: chain_def)
qed

lemma find_SomeD: "find P xs = Some x \<Longrightarrow> x \<in> set xs \<and> P x"
  by (rule find_Some_set)

text \<open>Taking an empty slot for one site moves no other.\<close>

lemma find_keep:
  assumes "find (slot_for tab pc) xs = Some i" and "e_pc (tab ! i) = pc" and "pc \<noteq> 0"
    and "e_pc (tab ! j) = 0" and "\<And>k. k \<noteq> j \<Longrightarrow> e_pc (tab' ! k) = e_pc (tab ! k)"
  shows "find (slot_for tab' pc) xs = Some i"
  using assms(1)
proof (induction xs)
  case Nil
  then show ?case by simp
next
  case (Cons x xs)
  show ?case
  proof (cases "slot_for tab pc x")
    case True
    then have "x = i" using Cons.prems by simp
    moreover have "i \<noteq> j" using assms(2-4) by auto
    ultimately show ?thesis using assms(2,5) by (simp add: slot_for_def)
  next
    case False
    then have "x \<noteq> j" using assms(4) by (auto simp: slot_for_def)
    then have "\<not> slot_for tab' pc x" using False assms(5) by (simp add: slot_for_def)
    then show ?thesis using Cons False by simp
  qed
qed

lemma find_keep_None:
  assumes "find (slot_for tab pc) xs = None"
    and "e_pc (tab ! j) = 0" and "\<And>k. k \<noteq> j \<Longrightarrow> e_pc (tab' ! k) = e_pc (tab ! k)"
  shows "find (slot_for tab' pc) xs = None"
  using assms(1) unfolding find_None_set
proof (intro ballI notI)
  fix x assume n: "\<forall>x\<in>set xs. \<not> slot_for tab pc x" and x: "x \<in> set xs" "slot_for tab' pc x"
  then have "x \<noteq> j" using assms(2) by (auto simp: slot_for_def)
  then show False using n x assms(3) by (auto simp: slot_for_def)
qed

subsection \<open>Live blocks\<close>

text \<open>A block the program holds: where it is, how many bytes were asked for, by which call site; the
  memory behind it, from \<open>b_base\<close> to before \<open>b_end\<close>.\<close>

record blk =
  b_ptr :: u64
  b_size :: u64
  b_pc :: u64
  b_base :: u64
  b_end :: nat
  b_boot :: bool

definition tally :: "(blk \<Rightarrow> u64) \<Rightarrow> blk list \<Rightarrow> u64" where
  "tally f L = sum_list (map f L)"

lemma tally_simps [simp]: "tally f [] = 0" "tally f (b # L) = f b + tally f L"
  by (simp_all add: tally_def)

lemma tally_remove: "b \<in> set L \<Longrightarrow> tally f (remove1 b L) = tally f L - f b"
  unfolding tally_def using sum_list_map_remove1 [of b L f] by (simp add: algebra_simps)

lemma tally_zero: "(\<And>b. b \<in> set L \<Longrightarrow> f b = 0) \<Longrightarrow> tally f L = 0"
  by (induction L) auto

definition site_bytes :: "u64 \<Rightarrow> blk \<Rightarrow> u64" where
  "site_bytes pc b = (if b_pc b = pc then b_size b else 0)"

definition site_cnt :: "u64 \<Rightarrow> blk \<Rightarrow> u64" where
  "site_cnt pc b = (if b_pc b = pc then 1 else 0)"

definition in_bin :: "nat \<Rightarrow> blk \<Rightarrow> u64" where
  "in_bin i b = (if bin_of (b_size b) = i then 1 else 0)"

definition ent_ok :: "pcent list \<Rightarrow> blk list \<Rightarrow> nat \<Rightarrow> bool" where
  "ent_ok tab L i \<longleftrightarrow>
     (if e_pc (tab ! i) = 0 then e_bytes (tab ! i) = 0 \<and> e_cnt (tab ! i) = 0
      else place_for tab (e_pc (tab ! i)) = Some i \<and>
        e_bytes (tab ! i) = tally (site_bytes (e_pc (tab ! i))) L \<and>
        e_cnt (tab ! i) = tally (site_cnt (e_pc (tab ! i))) L)"

text \<open>Every entry is where its site is looked for, with the live bytes and blocks of that site. A
  site with live blocks that has no entry found all its slots taken.\<close>

definition tab_ok :: "pcent list \<Rightarrow> blk list \<Rightarrow> bool" where
  "tab_ok tab L \<longleftrightarrow> length tab = 8192 \<and> (\<forall>i < 8192. ent_ok tab L i) \<and>
     (\<forall>b \<in> set L. b_pc b \<noteq> 0 \<and> (site_of tab (b_pc b) \<noteq> None \<or> place_for tab (b_pc b) = None))"

lemma tab_okD:
  assumes "tab_ok tab L"
  shows tab_ok_len: "length tab = 8192" and tab_ok_ent: "i < 8192 \<Longrightarrow> ent_ok tab L i"
    and tab_ok_blk: "b \<in> set L \<Longrightarrow> b_pc b \<noteq> 0 \<and> (site_of tab (b_pc b) \<noteq> None \<or> place_for tab (b_pc b) = None)"
  using assms by (simp_all add: tab_ok_def)

lemma tab_okI:
  assumes "length tab = 8192" and "\<And>i. i < 8192 \<Longrightarrow> ent_ok tab L i"
    and "\<And>b. b \<in> set L \<Longrightarrow> b_pc b \<noteq> 0 \<and> (site_of tab (b_pc b) \<noteq> None \<or> place_for tab (b_pc b) = None)"
  shows "tab_ok tab L"
  using assms by (simp add: tab_ok_def)

lemma place_site:
  assumes "tab_ok tab L" and "i \<in> set (chain pc)" and "e_pc (tab ! i) = pc" and "pc \<noteq> 0"
  shows "place_for tab pc = Some i"
proof -
  have "ent_ok tab L i" by (rule tab_ok_ent [OF assms(1) chain_bound [OF assms(2)]])
  then show ?thesis using assms(3,4) by (simp add: ent_ok_def)
qed

lemma site_place:
  assumes "tab_ok tab L" and "site_of tab pc = Some i" and "pc \<noteq> 0"
  shows "place_for tab pc = Some i" "i < 8192" "e_pc (tab ! i) = pc"
proof -
  have i: "i \<in> set (chain pc)" "e_pc (tab ! i) = pc" using find_SomeD [OF assms(2) [unfolded site_of_def]] by simp_all
  show "place_for tab pc = Some i" using place_site [OF assms(1) i assms(3)] .
  show "i < 8192" using chain_bound [OF i(1)] .
  show "e_pc (tab ! i) = pc" using i(2) .
qed

lemma no_entry:
  assumes "tab_ok tab L" and "site_of tab pc = None" and "pc \<noteq> 0" and "i < 8192"
  shows "e_pc (tab ! i) \<noteq> pc"
proof
  assume e: "e_pc (tab ! i) = pc"
  have "ent_ok tab L i" by (rule tab_ok_ent [OF assms(1,4)])
  then have "place_for tab pc = Some i" using e assms(3) unfolding ent_ok_def by (simp split: if_split_asm)
  then have i: "i \<in> set (chain pc)" unfolding place_for_def by (rule find_SomeD [THEN conjunct1])
  have "\<forall>x \<in> set (chain pc). e_pc (tab ! x) \<noteq> pc" using assms(2) by (simp only: site_of_def find_None_set)
  from bspec [OF this i] e show False by (rule notE)
qed

subsection \<open>Counting keeps the table\<close>

lemma slot_for_cong:
  "(\<And>k. e_pc (tab' ! k) = e_pc (tab ! k)) \<Longrightarrow> place_for tab' pc = place_for tab pc \<and> site_of tab' pc = site_of tab pc"
  by (simp add: place_for_def site_of_def slot_for_def [abs_def])

lemma site_none_tally:
  assumes "tab_ok tab L" and "place_for tab pc = Some i" and "e_pc (tab ! i) = 0" and "pc \<noteq> 0"
    and "b \<in> set L"
  shows "b_pc b \<noteq> pc"
proof
  assume b: "b_pc b = pc"
  have "site_of tab (b_pc b) \<noteq> None \<or> place_for tab (b_pc b) = None"
    using tab_ok_blk [OF assms(1,5)] by (rule conjunct2)
  then have "site_of tab pc \<noteq> None" unfolding b assms(2) by (simp only: option.distinct simp_thms)
  then obtain j where j: "site_of tab pc = Some j" by blast
  note sp = site_place [OF assms(1) j assms(4)]
  have "j = i" using sp(1) assms(2) by (metis option.inject)
  then show False using sp(3) assms(3,4) by blast
qed

lemma tally_other: "b_pc b \<noteq> pc \<Longrightarrow> tally (site_bytes pc) (b # L) = tally (site_bytes pc) L \<and> tally (site_cnt pc) (b # L) = tally (site_cnt pc) L"
  by (simp add: site_bytes_def site_cnt_def)

lemma tab_new:
  assumes t: "tab_ok tab L" and pc: "b_pc b \<noteq> 0"
  shows "tab_ok (bump 1 (b_size b) (pc_find (b_pc b) True tab)) (b # L)"
proof (cases "place_for tab (b_pc b)")
  case None
  have e: "ent_ok tab (b # L) i" if i: "i < 8192" for i
  proof -
    have o: "ent_ok tab L i" by (rule tab_ok_ent [OF t i])
    have "e_pc (tab ! i) \<noteq> b_pc b" using o None pc by (auto simp: ent_ok_def)
    then show ?thesis using o by (simp add: ent_ok_def site_bytes_def site_cnt_def)
  qed
  show ?thesis using t e pc None by (simp add: pc_find_True bump_def tab_ok_def)
next
  case (Some i)
  let ?pc = "b_pc b"
  let ?e = "(tab ! i)\<lparr>e_pc := ?pc, e_bytes := e_bytes (tab ! i) + b_size b, e_cnt := e_cnt (tab ! i) + 1\<rparr>"
  let ?t = "tab[i := ?e]"
  have i: "i \<in> set (chain ?pc)" "slot_for tab ?pc i"
    using Some find_SomeD unfolding place_for_def by fast+
  have il: "i < 8192" "i < length tab" using chain_bound [OF i(1)] t by (simp_all add: tab_ok_def)
  have bt: "bump 1 (b_size b) (pc_find ?pc True tab) = ?t"
    using il by (simp add: pc_find_True Some bump_def)
  have oi: "ent_ok tab L i" by (rule tab_ok_ent [OF t il(1)])
  have sums: "e_bytes (tab ! i) = tally (site_bytes ?pc) L" "e_cnt (tab ! i) = tally (site_cnt ?pc) L"
  proof -
    have z: "tally (site_bytes ?pc) L = 0 \<and> tally (site_cnt ?pc) L = 0" if "e_pc (tab ! i) = 0"
      using site_none_tally [OF t Some that pc] by (simp add: tally_zero site_bytes_def site_cnt_def)
    show "e_bytes (tab ! i) = tally (site_bytes ?pc) L" "e_cnt (tab ! i) = tally (site_cnt ?pc) L"
      using oi i(2) z pc by (auto simp: ent_ok_def slot_for_def split: if_split_asm)
  qed
  have pcs: "k \<noteq> i \<Longrightarrow> e_pc (?t ! k) = e_pc (tab ! k)" for k by simp
  have keep: "place_for ?t p = Some j" if j: "place_for tab p = Some j" "e_pc (tab ! j) = p" "p \<noteq> 0" for p j
  proof (cases "e_pc (tab ! i) = 0")
    case True
    show ?thesis unfolding place_for_def by (rule find_keep [OF j(1) [unfolded place_for_def] j(2,3) True pcs])
  next
    case False
    then have "e_pc (?t ! k) = e_pc (tab ! k)" for k using i(2) il by (cases "k = i") (auto simp: slot_for_def)
    then show ?thesis using slot_for_cong [of ?t tab p] j(1) by simp
  qed
  have keepN: "place_for ?t p = None" if n: "place_for tab p = None" for p
  proof (cases "e_pc (tab ! i) = 0")
    case True
    show ?thesis unfolding place_for_def by (rule find_keep_None [OF n [unfolded place_for_def] True pcs])
  next
    case False
    then have "e_pc (?t ! k) = e_pc (tab ! k)" for k using i(2) il by (cases "k = i") (auto simp: slot_for_def)
    then show ?thesis using slot_for_cong [of ?t tab p] n by simp
  qed
  have here: "place_for ?t ?pc = Some i"
  proof (cases "e_pc (tab ! i) = 0")
    case False
    then show ?thesis using keep [OF Some _ pc] i(2) by (simp add: slot_for_def)
  next
    case True
    have eq: "slot_for ?t ?pc k \<longleftrightarrow> slot_for tab ?pc k" for k
      using il i(2) pcs [of k] by (cases "k = i") (auto simp: slot_for_def)
    then have "slot_for ?t ?pc = slot_for tab ?pc" by blast
    then show ?thesis using Some by (simp add: place_for_def)
  qed
  have ents: "ent_ok ?t (b # L) k" if k: "k < 8192" for k
  proof (cases "k = i")
    case True
    then show ?thesis using il here sums pc by (simp add: ent_ok_def site_bytes_def site_cnt_def)
  next
    case False
    have o: "ent_ok tab L k" by (rule tab_ok_ent [OF t k])
    have "e_pc (tab ! k) \<noteq> ?pc" using o Some False pc by (auto simp: ent_ok_def)
    then show ?thesis using o False keep [of "e_pc (tab ! k)" k]
      by (simp add: ent_ok_def site_bytes_def site_cnt_def)
  qed
  have known: "site_of ?t p \<noteq> None \<or> place_for ?t p = None"
    if "p = ?pc \<or> site_of tab p \<noteq> None \<or> place_for tab p = None" "p \<noteq> 0" for p
  proof -
    have s: "site_of ?t p \<noteq> None" if q: "p = ?pc \<or> (\<exists>j. site_of tab p = Some j)"
    proof -
      obtain j where "j \<in> set (chain p)" "e_pc (?t ! j) = p"
      proof (cases "p = ?pc")
        case True
        then show thesis using that [of i] i(1) il by simp
      next
        case False
        then obtain j where j: "site_of tab p = Some j" using q by blast
        then have "j \<in> set (chain p)" "e_pc (tab ! j) = p" unfolding site_of_def using find_SomeD by fast+
        moreover have "j \<noteq> i" using False i(2) calculation(2) \<open>p \<noteq> 0\<close> by (auto simp: slot_for_def)
        ultimately show thesis using that [of j] by simp
      qed
      then show ?thesis by (auto simp: site_of_def find_None_set)
    qed
    show ?thesis using that(1) s keepN by (cases "site_of tab p") auto
  qed
  show ?thesis unfolding bt
  proof (rule tab_okI)
    show "length ?t = 8192" using tab_ok_len [OF t] by simp
    show "ent_ok ?t (b # L) k" if "k < 8192" for k using that by (rule ents)
    fix c assume "c \<in> set (b # L)"
    then have c: "b_pc c = ?pc \<or> site_of tab (b_pc c) \<noteq> None \<or> place_for tab (b_pc c) = None" "b_pc c \<noteq> 0"
      using t pc by (auto simp: tab_ok_def)
    show "b_pc c \<noteq> 0 \<and> (site_of ?t (b_pc c) \<noteq> None \<or> place_for ?t (b_pc c) = None)"
      by (rule conjI [OF c(2) known [OF c]])
  qed
qed

lemma tab_del:
  assumes t: "tab_ok tab L" and b: "b \<in> set L"
  shows "tab_ok (bump (- 1) (b_size b) (pc_find (b_pc b) False tab)) (remove1 b L)"
proof -
  let ?pc = "b_pc b"
  let ?t = "bump (- 1) (b_size b) (pc_find ?pc False tab)"
  have pc: "?pc \<noteq> 0" using tab_ok_blk [OF t b] by simp
  have other: "ent_ok tab (remove1 b L) k" if "ent_ok tab L k" "e_pc (tab ! k) \<noteq> ?pc" for k
    using that by (simp add: ent_ok_def tally_remove [OF b] site_bytes_def site_cnt_def)
  have pcs: "e_pc (?t ! k) = e_pc (tab ! k)" for k
  proof (cases "site_of tab ?pc")
    case None
    then show ?thesis by (simp add: pc_find_False bump_def)
  next
    case (Some i)
    have "i < length tab" using site_place(2) [OF t Some pc] tab_ok_len [OF t] by simp
    then show ?thesis using Some by (cases "k = i") (simp_all add: pc_find_False bump_def)
  qed
  have same: "place_for ?t p = place_for tab p" "site_of ?t p = site_of tab p" for p
    using slot_for_cong [of ?t tab p] pcs by blast+
  have "ent_ok ?t (remove1 b L) k" if k: "k < 8192" for k
  proof (cases "site_of tab ?pc")
    case None
    have "e_pc (tab ! k) \<noteq> ?pc" by (rule no_entry [OF t None pc k])
    then show ?thesis using other [OF tab_ok_ent [OF t k]] None by (simp add: pc_find_False bump_def)
  next
    case (Some i)
    note sp = site_place [OF t Some pc]
    have il: "i < length tab" using sp(2) tab_ok_len [OF t] by simp
    show ?thesis
    proof (cases "k = i")
      case True
      have "e_bytes (tab ! i) = tally (site_bytes ?pc) L \<and> e_cnt (tab ! i) = tally (site_cnt ?pc) L"
        using tab_ok_ent [OF t sp(2)] sp(3) pc by (simp add: ent_ok_def)
      moreover have "place_for ?t ?pc = Some i" using same(1) sp(1) by (rule trans)
      moreover have "?t ! i = (tab ! i)\<lparr>e_bytes := e_bytes (tab ! i) - b_size b, e_cnt := e_cnt (tab ! i) - 1\<rparr>"
        using il Some by (simp add: pc_find_False bump_def)
      ultimately show ?thesis
        using True sp(3) pc by (simp add: ent_ok_def tally_remove [OF b] site_bytes_def site_cnt_def)
    next
      case False
      have o: "ent_ok tab L k" by (rule tab_ok_ent [OF t k])
      have "e_pc (tab ! k) \<noteq> ?pc" using o sp(1) False pc by (auto simp: ent_ok_def)
      then have "ent_ok tab (remove1 b L) k" by (rule other [OF o])
      moreover have "?t ! k = tab ! k" using False Some by (simp add: pc_find_False bump_def)
      ultimately show ?thesis using same(1) by (simp add: ent_ok_def)
    qed
  qed
  note ents = this
  show ?thesis
  proof (rule tab_okI)
    show "ent_ok ?t (remove1 b L) k" if "k < 8192" for k using that by (rule ents)
    show "length ?t = 8192" using tab_ok_len [OF t] by (simp add: bump_def pc_find_False split: option.split)
    fix c assume "c \<in> set (remove1 b L)"
    then have "c \<in> set L" using set_remove1_subset by (rule subsetD [rotated])
    then show "b_pc c \<noteq> 0 \<and> (site_of ?t (b_pc c) \<noteq> None \<or> place_for ?t (b_pc c) = None)"
      unfolding same by (rule tab_ok_blk [OF t])
  qed
qed

subsection \<open>Runs of the traced program\<close>

text \<open>The calls the real allocator gets, checked against the blocks that are out: a block is freed or
  resized only while it is out.\<close>

fun replay :: "real_call list \<Rightarrow> u64 set \<Rightarrow> u64 set option" where
  "replay [] H = Some H"
| "replay (RMalloc n r # cs) H = replay cs (if r = 0 then H else insert r H)"
| "replay (RRealloc b n r # cs) H =
     (if b \<in> H then replay cs (if r = 0 then H else insert r (H - {b})) else None)"
| "replay (RFree b # cs) H = (if b \<in> H then replay cs (H - {b}) else None)"

lemma replay_append: "replay (cs @ ds) H = Option.bind (replay cs H) (replay ds)"
  by (induction cs H rule: replay.induct) simp_all

text \<open>An answer of the real allocator: no memory, or a block of \<open>size\<close> bytes that does not overlap what
  is out and does not touch the arena.\<close>

definition answer_ok :: "u64 \<Rightarrow> nat \<Rightarrow> tracer \<Rightarrow> blk list \<Rightarrow> u64 set \<Rightarrow> bool" where
  "answer_ok r sz s L F \<longleftrightarrow> r = 0 \<or>
     (unat r + sz < 2 ^ 64 \<and> r \<notin> F \<and>
      (\<forall>b \<in> set L. r \<noteq> b_base b \<and> (b_end b \<le> unat r \<or> unat r + sz \<le> unat (b_base b))) \<and>
      (unat r + sz < unat (boot_at s) \<or> unat (boot_at s) + BOOT_SIZE \<le> unat r))"

text \<open>Requests stay below \<open>PTRDIFF_MAX\<close>.\<close>

definition fits :: "u64 \<Rightarrow> u64 \<Rightarrow> bool" where
  "fits n align \<longleftrightarrow> unat n + unat align < 2 ^ 63"

definition extend :: "u64 \<Rightarrow> u64 \<Rightarrow> u64 \<Rightarrow> u64 \<Rightarrow> nat \<Rightarrow> bool \<Rightarrow> blk list \<Rightarrow> blk list" where
  "extend p n pc base e boot L =
     (if p = 0 then L
      else \<lparr>b_ptr = p, b_size = n, b_pc = pc, b_base = base, b_end = e, b_boot = boot\<rparr> # L)"

text \<open>The memory behind a block just allocated: the answer of the real allocator, or the part of the
  bootstrap arena taken by the call.\<close>

definition new_end :: "u64 \<Rightarrow> nat \<Rightarrow> tracer \<Rightarrow> tracer \<Rightarrow> nat" where
  "new_end r sz s s' = (if ready s then unat r + sz else unat (boot_at s') + unat (boot_used s'))"

text \<open>One call of the program, with the blocks it holds and the blocks it has from before the tracer
  was loaded (\<open>F\<close>). It frees and resizes only what it holds, and resizes no block of the
  bootstrap arena.\<close>

inductive step :: "tracer \<times> blk list \<times> u64 set \<Rightarrow> tracer \<times> blk list \<times> u64 set \<Rightarrow> bool" where
  resolve_1: "step (s, L, F) (resolve_begin s, L, F)"
| resolve_2: "step (s, L, F) (resolve_end every bt s, L, F)"
| alloc: "pc \<noteq> 0 \<Longrightarrow> fits n 0 \<Longrightarrow> (ready s \<longrightarrow> answer_ok r (unat n + 32) s L F) \<Longrightarrow>
     f \<in> {malloc_pc r n pc, calloc_pc r n pc, realloc r 0 n pc} \<Longrightarrow> f s = (p, s') \<Longrightarrow>
     step (s, L, F) (s', extend p n pc (if ready s then r else p - 32) (new_end r (unat n + 32) s s') (\<not> ready s) L, F)"
| aligned: "pc \<noteq> 0 \<Longrightarrow> fits n align \<Longrightarrow> 16 < align \<Longrightarrow> unat align = 2 ^ k \<Longrightarrow>
     (ready s \<longrightarrow> answer_ok r (unat n + 32 + unat align) s L F) \<Longrightarrow>
     memalign_pc r n align pc s = (p, s') \<Longrightarrow>
     step (s, L, F) (s', extend p n pc (if ready s then r else fst (boot_alloc (n + 32 + align) 16 s))
       (new_end r (unat n + 32 + unat align) s s') (\<not> ready s) L, F)"
| free_kept: "p = 0 \<or> in_boot p s \<Longrightarrow> step (s, L, F) (free p s, L, F)"
| free_block: "b \<in> set L \<Longrightarrow> \<not> b_boot b \<Longrightarrow> step (s, L, F) (free (b_ptr b) s, remove1 b L, F)"
| free_foreign: "p \<in> F \<Longrightarrow> p \<noteq> 0 \<Longrightarrow> \<not> in_boot p s \<Longrightarrow> has_magic p s = None \<Longrightarrow>
     step (s, L, F) (free p s, L, if ready s then F - {p} else F)"
| resize: "b \<in> set L \<Longrightarrow> \<not> b_boot b \<Longrightarrow> fits n 0 \<Longrightarrow> answer_ok r (unat n + 32) s (remove1 b L) F \<Longrightarrow>
     realloc r (b_ptr b) n pc s = (p, s') \<Longrightarrow>
     step (s, L, F) (s', if r = 0 then L else extend p n (b_pc b) r (unat r + unat n + 32) False (remove1 b L), F)"
| resize_foreign: "p \<in> F \<Longrightarrow> p \<noteq> 0 \<Longrightarrow> has_magic p s = None \<Longrightarrow> fits n 0 \<Longrightarrow>
     answer_ok r (unat n) s L (F - {p}) \<Longrightarrow> realloc r p n pc s = (q, s') \<Longrightarrow>
     step (s, L, F) (s', L, if ready s \<and> r \<noteq> 0 then insert r (F - {p}) else F)"

definition start_tracer :: "u64 \<Rightarrow> tracer" where
  "start_tracer b =
     \<lparr>live_bytes = 0, live_objs = 0, n_malloc = 0, n_free = 0, bin_count = replicate NBIN 0,
      pc_tab = replicate NPC \<lparr>e_pc = 0, e_bytes = 0, e_cnt = 0\<rparr>, tstate = Unresolved, mtrace_every = 5000,
      bt_min = 0, big_ring = [], boot_at = b, boot_used = 0, hdrs = (\<lambda>_. None), reports = [], real_calls = []\<rparr>"

definition arena :: "u64 \<Rightarrow> bool" where
  "arena b \<longleftrightarrow> b \<noteq> 0 \<and> unat b + BOOT_SIZE < 2 ^ 64"

subsection \<open>The counters\<close>

definition counted :: "tracer \<Rightarrow> blk list \<Rightarrow> bool" where
  "counted s L \<longleftrightarrow> live_bytes s = tally b_size L \<and> live_objs s = tally (\<lambda>_. 1) L \<and>
     n_malloc s - n_free s = tally (\<lambda>_. 1) L \<and> length (bin_count s) = 12 \<and>
     (\<forall>i < 12. bin_count s ! i = tally (in_bin i) L) \<and> tab_ok (pc_tab s) L"

lemma bin_from_bound: "b < 12 \<Longrightarrow> bin_from n b < 12"
proof (induction n b rule: bin_from.induct)
  case (1 n b)
  then show ?case by (subst bin_from.simps) (auto simp: NBIN_def)
qed

lemma bin_bound: "bin_of n < 12"
  by (simp add: bin_of_def bin_from_bound)

lemma counted_new:
  assumes c: "counted s L" and pc: "b_pc b \<noteq> 0"
  shows "counted (count_new (b_size b) (b_pc b) s) (b # L)"
proof -
  let ?s = "s\<lparr>live_bytes := live_bytes s + b_size b, live_objs := live_objs s + 1,
     bin_count := add_bin 1 (b_size b) (bin_count s), pc_tab := bump 1 (b_size b) (pc_find (b_pc b) True (pc_tab s)),
     n_malloc := n_malloc s + 1\<rparr>"
  have t: "tab_ok (bump 1 (b_size b) (pc_find (b_pc b) True (pc_tab s))) (b # L)"
    using c by (intro tab_new [OF _ pc]) (simp add: counted_def)
  have "\<forall>i < 12. add_bin 1 (b_size b) (bin_count s) ! i = tally (in_bin i) (b # L)"
    using c by (auto simp: counted_def add_bin_def in_bin_def nth_list_update)
  moreover have "n_malloc s + 1 - n_free s = 1 + tally (\<lambda>_. 1) L" using c by (simp add: counted_def)
  ultimately have "counted ?s (b # L)" using c t by (simp add: counted_def add_bin_def)
  moreover have "counted (dump ?s) (b # L) = counted ?s (b # L)" by (simp add: counted_def dump_def)
  ultimately show ?thesis unfolding count_new_def Let_def by (simp only: split: if_split) simp
qed

lemma counted_del:
  assumes c: "counted s L" and b: "b \<in> set L"
  shows "counted (count_del (b_size b) (b_pc b) s) (remove1 b L)"
proof -
  have t: "tab_ok (bump (- 1) (b_size b) (pc_find (b_pc b) False (pc_tab s))) (remove1 b L)"
    using c by (intro tab_del [OF _ b]) (simp add: counted_def)
  have "\<forall>i < 12. add_bin (- 1) (b_size b) (bin_count s) ! i = tally (in_bin i) (remove1 b L)"
    using c by (auto simp: counted_def add_bin_def in_bin_def nth_list_update tally_remove [OF b])
  moreover have "n_malloc s - (n_free s + 1) = tally (\<lambda>_. 1) L - 1" using c by (simp add: counted_def algebra_simps)
  ultimately show ?thesis using c t by (simp add: counted_def count_del_def add_bin_def tally_remove [OF b])
qed

text \<open>What counting leaves alone.\<close>

lemma count_sel [simp]:
  "hdrs (count_new n pc s) = hdrs s" "tstate (count_new n pc s) = tstate s" "boot_at (count_new n pc s) = boot_at s"
  "boot_used (count_new n pc s) = boot_used s" "real_calls (count_new n pc s) = real_calls s"
  "hdrs (count_del n pc s) = hdrs s" "tstate (count_del n pc s) = tstate s" "boot_at (count_del n pc s) = boot_at s"
  "boot_used (count_del n pc s) = boot_used s" "real_calls (count_del n pc s) = real_calls s"
  by (simp_all add: count_new_def count_del_def Let_def dump_def)

lemma counted_cong:
  "live_bytes s' = live_bytes s \<Longrightarrow> live_objs s' = live_objs s \<Longrightarrow> n_malloc s' = n_malloc s \<Longrightarrow>
   n_free s' = n_free s \<Longrightarrow> bin_count s' = bin_count s \<Longrightarrow> pc_tab s' = pc_tab s \<Longrightarrow> counted s' L = counted s L"
  by (simp add: counted_def)

subsection \<open>Addresses\<close>

lemma unat_u64: "unat (x :: u64) < 2 ^ 64"
  using unsigned_less [of x, where 'a = nat] by simp

lemma unat_align_down: "unat ((x :: u64) AND NOT (mask k)) = unat x div 2 ^ k * 2 ^ k"
proof -
  have "x AND NOT (mask k) = push_bit k (drop_bit k x)"
    by (rule bit_word_eqI) (auto simp: bit_simps)
  moreover have "unat (drop_bit k x) = unat x div 2 ^ k" by (simp only: unat_drop_bit_eq) (simp only: drop_bit_eq_div)
  moreover have "unat (push_bit k w :: u64) = take_bit 64 (push_bit k (unat w))" for w
    by (simp only: unsigned_push_bit_eq) simp
  moreover have "unat x div 2 ^ k * 2 ^ k < 2 ^ 64"
    using le_less_trans [OF div_times_less_eq_dividend unat_u64] .
  ultimately show ?thesis by (simp add: push_bit_eq_mult take_bit_eq_mod)
qed

lemma div_mult_between: "0 < d \<Longrightarrow> x div d * d \<le> x \<and> x < x div d * d + (d :: nat)"
  using mod_less_divisor [of d x] div_mult_mod_eq [of x d] by linarith

lemma minus_one_mask: "unat (a :: u64) = 2 ^ k \<Longrightarrow> a - 1 = mask k"
proof -
  assume h: "unat a = 2 ^ k"
  have "of_nat (unat a) = (2 ^ k :: u64)" unfolding h by simp
  then show ?thesis by (simp add: mask_eq_exp_minus_1)
qed

lemma unat_add: "unat (x :: u64) + unat y < 2 ^ 64 \<Longrightarrow> unat (x + y) = unat x + unat y"
  by (simp add: unat_word_ariths)

lemma unat_minus_32: "32 \<le> unat (p :: u64) \<Longrightarrow> unat (p - 32) = unat p - 32"
  by (simp add: unat_sub word_le_nat_alt)

text \<open>\<open>(x + a - 1) & ~(a - 1)\<close> is between \<open>x\<close> and \<open>x + a\<close>.\<close>

lemma align_up:
  assumes "unat (a :: u64) = 2 ^ k" and "unat x + unat a \<le> 2 ^ 64"
  shows "unat x \<le> unat ((x + (a - 1)) AND NOT (a - 1))" "unat ((x + (a - 1)) AND NOT (a - 1)) < unat x + unat a"
proof -
  have m: "a - 1 = mask k" using minus_one_mask [OF assms(1)] .
  have a: "0 < unat a" using assms(1) by simp
  then have "unat (a - 1) = unat a - 1" by (simp add: unat_sub word_le_nat_alt Suc_leI)
  moreover from this have "unat (x + (a - 1)) = unat x + unat (a - 1)" using assms(2) a by (intro unat_add) simp
  ultimately have u: "unat (x + (a - 1)) = unat x + 2 ^ k - 1" using assms(1) a by simp
  have d: "unat ((x + (a - 1)) AND NOT (a - 1)) = unat (x + (a - 1)) div 2 ^ k * 2 ^ k"
    unfolding m by (rule unat_align_down)
  have "unat (x + (a - 1)) div 2 ^ k * 2 ^ k \<le> unat (x + (a - 1)) \<and>
      unat (x + (a - 1)) < unat (x + (a - 1)) div 2 ^ k * 2 ^ k + 2 ^ k"
    by (rule div_mult_between) simp
  then show "unat x \<le> unat ((x + (a - 1)) AND NOT (a - 1))" "unat ((x + (a - 1)) AND NOT (a - 1)) < unat x + unat a"
    using u a assms(1) unfolding d by linarith+
qed

lemma boot_alloc_cases:
  assumes b: "boot_alloc n 16 s = (p, s')" and ar: "arena (boot_at s)" and u: "unat (boot_used s) \<le> BOOT_SIZE"
    and n: "unat n + 2 ^ 20 \<le> 2 ^ 64"
  shows "(p = 0 \<and> s' = s) \<or>
     (\<exists>u. s' = s\<lparr>boot_used := u\<rparr> \<and> unat u \<le> BOOT_SIZE \<and> unat (boot_used s) \<le> unat u \<and>
        (0 < unat n \<longrightarrow> p \<noteq> 0 \<and> unat (boot_at s) + unat (boot_used s) \<le> unat p \<and>
           unat p + unat n \<le> unat (boot_at s) + unat u))"
proof -
  let ?off = "(boot_used s + (16 - 1)) AND NOT (16 - 1)" and ?n = "(n + 15) AND NOT 15"
  have o: "unat (boot_used s) \<le> unat ?off" "unat ?off < unat (boot_used s) + 16"
    using align_up [of 16 4 "boot_used s"] u by (simp_all add: BOOT_SIZE_def)
  have n1: "unat n \<le> unat ?n" "unat ?n < unat n + 16" using align_up [of 16 4 n] n by simp_all
  have sum: "unat (?off + ?n) = unat ?off + unat ?n"
    using o n1 u n by (intro unat_add) (simp add: BOOT_SIZE_def)
  show ?thesis
  proof (cases "of_nat BOOT_SIZE < ?off + ?n")
    case True
    then show ?thesis using b by (simp add: boot_alloc_def Let_def)
  next
    case False
    have "unat (of_nat BOOT_SIZE :: u64) = BOOT_SIZE" by (simp add: BOOT_SIZE_def)
    then have le: "unat (?off + ?n) \<le> BOOT_SIZE" using False by (simp only: not_less word_le_nat_alt)
    then have le2: "unat ?off + unat ?n \<le> BOOT_SIZE" unfolding sum .
    have p: "p = boot_at s + ?off" and s': "s' = s\<lparr>boot_used := ?off + ?n\<rparr>"
      using b False by (simp_all add: boot_alloc_def Let_def)
    have at: "unat (boot_at s) + BOOT_SIZE \<le> 2 ^ 64" "0 < unat (boot_at s)"
      using ar by (simp_all add: arena_def unat_gt_0)
    have "p \<noteq> 0 \<and> unat (boot_at s) + unat (boot_used s) \<le> unat p \<and>
        unat p + unat n \<le> unat (boot_at s) + unat (?off + ?n)" if pos: "0 < unat n"
    proof -
      have "unat ?off < BOOT_SIZE" using le2 n1(1) pos by linarith
      then have "unat p = unat (boot_at s) + unat ?off" unfolding p using at(1) by (intro unat_add) linarith
      moreover from this have "0 < unat p" using at(2) by linarith
      then have "p \<noteq> 0" by (cases "p = 0") simp_all
      ultimately show ?thesis unfolding sum using o(1) n1(1) by linarith
    qed
    moreover have "unat (boot_used s) \<le> unat (?off + ?n)" unfolding sum using o(1) by linarith
    ultimately show ?thesis unfolding s' using le by (intro disjI2 exI conjI impI refl) blast+
  qed
qed

subsection \<open>Blocks stay apart\<close>

definition apart :: "blk \<Rightarrow> blk \<Rightarrow> bool" where
  "apart b c \<longleftrightarrow> b_end b \<le> unat (b_base c) \<or> b_end c \<le> unat (b_base b)"

text \<open>Where a block is: its header and the bytes of the program inside the memory behind it, that in
  the arena or outside it.\<close>

definition inside :: "tracer \<Rightarrow> blk \<Rightarrow> bool" where
  "inside s b \<longleftrightarrow> b_base b \<noteq> 0 \<and> unat (b_base b) + 32 \<le> unat (b_ptr b) \<and>
     unat (b_ptr b) + unat (b_size b) \<le> b_end b \<and> b_end b < 2 ^ 64 \<and>
     (if b_boot b then unat (boot_at s) \<le> unat (b_base b) \<and> b_end b \<le> unat (boot_at s) + unat (boot_used s)
      else (b_end b < unat (boot_at s) \<or> unat (boot_at s) + BOOT_SIZE \<le> unat (b_base b)) \<and> tstate s = Resolved)"

definition hdr_of :: "blk \<Rightarrow> hdr" where
  "hdr_of b = \<lparr>h_magic = MAGIC, h_size = b_size b, h_pc = b_pc b, h_base = b_base b\<rparr>"

definition geo :: "tracer \<Rightarrow> blk list \<Rightarrow> bool" where
  "geo s L \<longleftrightarrow> arena (boot_at s) \<and> unat (boot_used s) \<le> BOOT_SIZE \<and> sorted_wrt apart L \<and>
     (\<forall>b \<in> set L. inside s b \<and> hdrs s (b_ptr b - 32) = Some (hdr_of b))"

definition grown :: "tracer \<Rightarrow> tracer \<Rightarrow> bool" where
  "grown s s' \<longleftrightarrow> hdrs s' = hdrs s \<and> boot_at s' = boot_at s \<and> unat (boot_used s) \<le> unat (boot_used s') \<and>
     unat (boot_used s') \<le> BOOT_SIZE \<and> (tstate s = Resolved \<longrightarrow> tstate s' = Resolved)"

lemma geo_grown: "geo s L \<Longrightarrow> grown s s' \<Longrightarrow> geo s' L"
  unfolding geo_def grown_def inside_def by (fastforce split: if_splits)

lemma sorted_wrt_remove1: "sorted_wrt R L \<Longrightarrow> sorted_wrt R (remove1 b L)"
  using set_remove1_subset by (induction L) fastforce+

lemma geo_sub: "geo s L \<Longrightarrow> geo s (remove1 b L)"
  unfolding geo_def using set_remove1_subset [of b L] by (auto simp: sorted_wrt_remove1)

lemma hdr_addr: "inside s b \<Longrightarrow> unat (b_ptr b - 32) = unat (b_ptr b) - 32"
  by (rule unat_minus_32) (simp add: inside_def)

lemma apart_hdr:
  assumes "inside s b" and "inside s c" and "apart b c"
  shows "b_ptr b - 32 \<noteq> b_ptr c - 32" "b_base b \<noteq> b_base c"
proof -
  have "unat (b_ptr b - 32) \<noteq> unat (b_ptr c - 32)" "unat (b_base b) \<noteq> unat (b_base c)"
    using assms unfolding hdr_addr [OF assms(1)] hdr_addr [OF assms(2)] by (auto simp: inside_def apart_def)
  then show "b_ptr b - 32 \<noteq> b_ptr c - 32" "b_base b \<noteq> b_base c" by auto
qed

text \<open>A new block: counted, its header written.\<close>

definition put_blk :: "blk \<Rightarrow> tracer \<Rightarrow> tracer" where
  "put_blk b s = count_new (b_size b) (b_pc b) (put_hdr (b_ptr b - 32) (b_size b) (b_pc b) (b_base b) s)"

lemma geo_new:
  assumes g: "geo s L" and b: "inside s b" and a: "\<forall>c \<in> set L. apart b c"
  shows "geo (put_blk b s) (b # L)"
proof -
  have "inside (put_blk b s) c = inside s c" for c
    by (simp add: inside_def put_blk_def put_hdr_def)
  moreover have "hdrs (put_blk b s) (b_ptr b - 32) = Some (hdr_of b)"
    by (simp add: put_blk_def put_hdr_def hdr_of_def)
  moreover have "hdrs (put_blk b s) (b_ptr c - 32) = Some (hdr_of c)" if c: "c \<in> set L" for c
  proof -
    have "inside s c" "hdrs s (b_ptr c - 32) = Some (hdr_of c)" using g c by (simp_all add: geo_def)
    then show ?thesis using apart_hdr(1) [OF b, of c] a c by (auto simp: put_blk_def put_hdr_def)
  qed
  ultimately show ?thesis using g b a by (simp add: geo_def) (simp add: put_blk_def put_hdr_def)
qed

lemma counted_put:
  assumes "counted s L" and "b_pc b \<noteq> 0"
  shows "counted (put_blk b s) (b # L)"
proof -
  have "counted (put_hdr (b_ptr b - 32) (b_size b) (b_pc b) (b_base b) s) L"
    using assms(1) by (simp add: put_hdr_def counted_def)
  then show ?thesis unfolding put_blk_def using assms(2) by (rule counted_new)
qed

lemma geo_distinct: "geo s L \<Longrightarrow> distinct L"
proof -
  assume g: "geo s L"
  have "\<not> apart b b" if "b \<in> set L" for b using g that by (auto simp: geo_def inside_def apart_def)
  then show ?thesis using g unfolding geo_def by (induction L) auto
qed

lemma geo_apart:
  assumes g: "geo s L" and "b \<in> set L" "c \<in> set L" "b \<noteq> c"
  shows "apart b c"
proof -
  have sym: "apart x y \<Longrightarrow> apart y x" for x y by (auto simp: apart_def)
  have "sorted_wrt apart L" using g by (simp add: geo_def)
  then show ?thesis using assms(2-4) sym by (induction L) auto
qed

definition bases :: "blk list \<Rightarrow> u64 set" where
  "bases L = {b_base b |b. b \<in> set L \<and> \<not> b_boot b}"

lemma bases_remove:
  assumes g: "geo s L" and b: "b \<in> set L" "\<not> b_boot b"
  shows "bases (remove1 b L) = bases L - {b_base b}"
proof -
  have "set (remove1 b L) = set L - {b}" using geo_distinct [OF g] by (rule set_remove1_eq)
  moreover have "c = b" if "c \<in> set L" "b_base c = b_base b" for c
  proof (rule ccontr)
    assume "c \<noteq> b"
    then have "apart c b" using geo_apart [OF g that(1) b(1)] by blast
    then show False using apart_hdr(2) [of s c b] g that b(1) by (auto simp: geo_def)
  qed
  ultimately show ?thesis by (auto simp: bases_def)
qed

definition inv :: "u64 set \<Rightarrow> tracer \<times> blk list \<times> u64 set \<Rightarrow> bool" where
  "inv F0 x = (case x of (s, L, F) \<Rightarrow> geo s L \<and> counted s L \<and>
     replay (real_calls s) F0 = Some (bases L \<union> F) \<and> bases L \<inter> F = {})"

subsection \<open>Every call keeps the invariant\<close>

lemma inv_counters:
  assumes i: "inv F0 (s, L, F)" and g: "grown s s'"
    and c: "\<And>M. counted s' M = counted s M" and r: "real_calls s' = real_calls s"
  shows "inv F0 (s', L, F)"
  using i geo_grown [OF _ g] c r by (simp add: inv_def)

lemma ring_any: "\<exists>rg. (if c then x\<lparr>big_ring := y\<rparr> else x) = x\<lparr>big_ring := rg\<rparr>" for x :: tracer
  by (cases c) (auto intro: exI [of _ "big_ring x"])

lemma tag_put:
  assumes "base \<noteq> 0"
  shows "\<exists>rg. tag base n pc s = (base + 32, (put_blk (\<lparr>b_ptr = base + 32, b_size = n, b_pc = pc, b_base = base, b_end = e, b_boot = bo\<rparr>) s)\<lparr>big_ring := rg\<rparr>)"
  using assms ring_any by (simp add: tag_def put_blk_def HDRSZ_def Let_def)

lemma ring_irrelevant [simp]:
  "geo (s\<lparr>big_ring := rg\<rparr>) L = geo s L" "counted (s\<lparr>big_ring := rg\<rparr>) L = counted s L"
  by (simp_all add: geo_def inside_def counted_def)

lemma real_calls_put [simp]: "real_calls (put_blk b s) = real_calls s"
  by (simp add: put_blk_def put_hdr_def)

text \<open>A new block, in the arena or at an answer of the real allocator.\<close>

lemma inv_new:
  assumes i: "geo s L" "counted s L" and b: "inside s b" "\<forall>c \<in> set L. apart b c" "b_pc b \<noteq> 0"
    and r: "replay (real_calls s) F0 = Some (bases (b # L) \<union> F)" and f: "bases (b # L) \<inter> F = {}"
  shows "inv F0 ((put_blk b s)\<lparr>big_ring := rg\<rparr>, b # L, F)"
  unfolding inv_def using geo_new [OF i(1) b(1,2)] counted_put [OF i(2) b(3)] r f by simp

lemma bases_Cons: "bases (b # L) = (if b_boot b then bases L else insert (b_base b) (bases L))"
  by (auto simp: bases_def)

text \<open>The arena: what is taken lies behind everything taken before.\<close>

lemma arena_apart:
  assumes g: "geo s L" and c: "c \<in> set L"
    and b: "unat (boot_at s) + unat (boot_used s) \<le> unat (b_base b)" "b_end b \<le> unat (boot_at s) + BOOT_SIZE"
  shows "apart b c"
proof -
  have "inside s c" "unat (boot_used s) \<le> BOOT_SIZE" using g c by (simp_all add: geo_def)
  then show ?thesis using b by (auto simp: inside_def apart_def split: if_splits)
qed

lemma boot_block:
  assumes i: "inv F0 (s, L, F)" and b: "boot_alloc m 16 s = (base, s1)" and m: "0 < unat m" "unat m + 2 ^ 20 \<le> 2 ^ 64"
  shows "base = 0 \<longrightarrow> inv F0 (s1, L, F)"
    and "base \<noteq> 0 \<Longrightarrow> inv F0 (s1, L, F) \<and> unat base + unat m \<le> unat (boot_at s1) + unat (boot_used s1) \<and>
      unat (boot_at s1) \<le> unat base \<and> boot_at s1 = boot_at s \<and> unat (boot_used s1) \<le> BOOT_SIZE \<and>
      unat (boot_at s) + unat (boot_used s) \<le> unat base"
proof -
  have g: "arena (boot_at s)" "unat (boot_used s) \<le> BOOT_SIZE" using i by (simp_all add: inv_def geo_def)
  note cs = boot_alloc_cases [OF b g m(2)]
  have keep: "inv F0 (s\<lparr>boot_used := u\<rparr>, L, F)" if "unat u \<le> BOOT_SIZE" "unat (boot_used s) \<le> unat u" for u
    using i that by (intro inv_counters [OF i]) (simp_all add: grown_def counted_def)
  show "base = 0 \<longrightarrow> inv F0 (s1, L, F)" using cs keep i by auto
  assume "base \<noteq> 0"
  then show "inv F0 (s1, L, F) \<and> unat base + unat m \<le> unat (boot_at s1) + unat (boot_used s1) \<and>
      unat (boot_at s1) \<le> unat base \<and> boot_at s1 = boot_at s \<and> unat (boot_used s1) \<le> BOOT_SIZE \<and>
      unat (boot_at s) + unat (boot_used s) \<le> unat base"
    using cs keep m(1) by auto
qed

text \<open>An answer of the real allocator.\<close>

lemma answer_apart:
  assumes "answer_ok r sz s L F" and "r \<noteq> 0" and "c \<in> set L" and "b_base b = r" and "b_end b = unat r + sz"
  shows "apart b c" "r \<notin> F" "b_base c \<noteq> r"
  using assms by (auto simp: answer_ok_def apart_def)

lemma inv_real_malloc:
  "inv F0 (s, L, F) \<Longrightarrow> geo (real_malloc n r s) L \<and> counted (real_malloc n r s) L \<and>
     replay (real_calls (real_malloc n r s)) F0 = Some (if r = 0 then bases L \<union> F else insert r (bases L \<union> F))"
  by (auto simp: inv_def real_malloc_def geo_def inside_def counted_def replay_append)

lemma calloc_malloc: "calloc_pc r n pc s = malloc_pc r n pc s"
  by (simp add: calloc_pc_def malloc_pc_def tag_def Let_def)

lemma unat_plus_32: "unat (n :: u64) + 32 < 2 ^ 64 \<Longrightarrow> unat (n + 32) = unat n + 32"
  using unat_add [of n 32] by simp

text \<open>Placing a block with a header at \<open>p - 32\<close>: common to all allocations.\<close>

lemma place_block:
  assumes i: "inv F0 (s, L, F)" and pc: "pc \<noteq> 0" and sz: "unat n + 32 \<le> sz" "unat r \<le> unat q" "unat q + 32 + unat n \<le> unat r + sz"
    and rdy: "ready s" and a: "answer_ok r sz s L F" and r: "r \<noteq> 0"
    and b: "b = \<lparr>b_ptr = q + 32, b_size = n, b_pc = pc, b_base = r, b_end = unat r + sz, b_boot = False\<rparr>"
  shows "inv F0 ((put_blk b (real_malloc m r s))\<lparr>big_ring := rg\<rparr>, b # L, F)"
proof (rule inv_new)
  note rm = inv_real_malloc [OF i, of m r]
  show "geo (real_malloc m r s) L" "counted (real_malloc m r s) L" using rm by simp_all
  have lim: "unat r + sz < 2 ^ 64" and out: "unat r + sz < unat (boot_at s) \<or> unat (boot_at s) + BOOT_SIZE \<le> unat r"
    using a r by (simp_all add: answer_ok_def)
  have "unat (q + 32) = unat q + 32" by (rule unat_plus_32) (use lim sz in linarith)
  then show "inside (real_malloc m r s) b"
    using lim sz out rdy r by (auto simp: inside_def b real_malloc_def ready_def)
  show "\<forall>c \<in> set L. apart b c" using answer_apart(1) [OF a r] b by simp
  show "b_pc b \<noteq> 0" using pc by (simp add: b)
  show "replay (real_calls (real_malloc m r s)) F0 = Some (bases (b # L) \<union> F)" using rm r by (simp add: bases_Cons b)
  have "r \<notin> F" using a r by (simp add: answer_ok_def)
  then show "bases (b # L) \<inter> F = {}" using i by (simp add: bases_Cons b inv_def)
qed

lemma place_boot:
  assumes i: "inv F0 (s, L, F)" and bt: "boot_alloc m 16 s = (base, s1)" and m: "0 < unat m" "unat m + 2 ^ 20 \<le> 2 ^ 64"
    and base: "base \<noteq> 0" and pc: "pc \<noteq> 0" and sz: "unat base \<le> unat q" "unat q + 32 + unat n \<le> unat base + unat m"
    and b: "b = \<lparr>b_ptr = q + 32, b_size = n, b_pc = pc, b_base = base, b_end = unat (boot_at s1) + unat (boot_used s1), b_boot = True\<rparr>"
  shows "inv F0 ((put_blk b s1)\<lparr>big_ring := rg\<rparr>, b # L, F)"
proof (rule inv_new)
  note k = boot_block(2) [OF i bt m base]
  have i1: "inv F0 (s1, L, F)" using k by simp
  then show "geo s1 L" "counted s1 L" by (simp_all add: inv_def)
  have ar: "unat (boot_at s1) + BOOT_SIZE < 2 ^ 64" using i1 by (simp add: inv_def geo_def arena_def)
  have "unat (q + 32) = unat q + 32" by (rule unat_plus_32) (use k ar sz in linarith)
  then show "inside s1 b" using k ar sz base by (auto simp: inside_def b)
  have "geo s L" using i by (simp add: inv_def)
  then show "\<forall>c \<in> set L. apart b c" using arena_apart [of s L _ b] k b by simp
  show "b_pc b \<noteq> 0" using pc by (simp add: b)
  show "replay (real_calls s1) F0 = Some (bases (b # L) \<union> F)" "bases (b # L) \<inter> F = {}"
    using i1 by (simp_all add: bases_Cons b inv_def)
qed

lemma malloc_inv:
  assumes i: "inv F0 (s, L, F)" and pc: "pc \<noteq> 0" and n: "fits n 0"
    and a: "ready s \<longrightarrow> answer_ok r (unat n + 32) s L F" and m: "malloc_pc r n pc s = (p, s')"
  shows "inv F0 (s', extend p n pc (if ready s then r else p - 32) (new_end r (unat n + 32) s s') (\<not> ready s) L, F)"
proof -
  have n32: "unat (n + 32) = unat n + 32" by (rule unat_plus_32) (use n in \<open>simp add: fits_def\<close>)
  show ?thesis
  proof (cases "ready s")
    case True
    note rm = inv_real_malloc [OF i, of "n + HDRSZ" r]
    show ?thesis
    proof (cases "r = 0")
      case r: True
      then have "p = 0" "s' = real_malloc (n + HDRSZ) r s" using m True by (simp_all add: malloc_pc_def tag_def)
      then show ?thesis using rm r i by (simp add: extend_def inv_def)
    next
      case r: False
      have an: "answer_ok r (unat n + 32) s L F" using a True by simp
      let ?b = "\<lparr>b_ptr = r + 32, b_size = n, b_pc = pc, b_base = r, b_end = unat r + (unat n + 32), b_boot = False\<rparr>"
      obtain rg where tg: "tag r n pc (real_malloc (n + HDRSZ) r s) = (r + 32, (put_blk ?b (real_malloc (n + HDRSZ) r s))\<lparr>big_ring := rg\<rparr>)"
        using tag_put [OF r] by blast
      have pb: "p = r + 32" "s' = (put_blk ?b (real_malloc (n + HDRSZ) r s))\<lparr>big_ring := rg\<rparr>"
        using m True tg by (auto simp: malloc_pc_def)
      have "unat r + (unat n + 32) < 2 ^ 64" using an r by (simp add: answer_ok_def)
      then have "unat (r + 32) = unat r + 32" by (intro unat_plus_32) linarith
      then have "p \<noteq> 0" unfolding pb by (metis add_is_0 unat_0 zero_neq_numeral)
      then have "extend p n pc (if ready s then r else p - 32) (new_end r (unat n + 32) s s') (\<not> ready s) L = ?b # L"
        using True pb by (simp add: extend_def new_end_def)
      moreover have "inv F0 (s', ?b # L, F)" unfolding pb
        by (rule place_block [OF i pc _ _ _ True an r refl]) simp_all
      ultimately show ?thesis by simp
    qed
  next
    case False
    obtain base s1 where bt: "boot_alloc (n + 32) 16 s = (base, s1)" by fastforce
    have sz: "0 < unat (n + 32)" "unat (n + 32) + 2 ^ 20 \<le> 2 ^ 64" using n n32 by (simp_all add: fits_def)
    show ?thesis
    proof (cases "base = 0")
      case True
      then have "p = 0" "s' = s1" using m False bt by (simp_all add: malloc_pc_def HDRSZ_def)
      then show ?thesis using boot_block(1) [OF i bt sz] True by (simp add: extend_def)
    next
      case base: False
      let ?b = "\<lparr>b_ptr = base + 32, b_size = n, b_pc = pc, b_base = base, b_end = unat (boot_at s1) + unat (boot_used s1), b_boot = True\<rparr>"
      obtain rg where tg: "tag base n pc s1 = (base + 32, (put_blk ?b s1)\<lparr>big_ring := rg\<rparr>)"
        using tag_put [OF base] by blast
      have pb: "p = base + 32" "s' = (put_blk ?b s1)\<lparr>big_ring := rg\<rparr>"
        using m False bt base tg by (auto simp: malloc_pc_def HDRSZ_def)
      have iv: "inv F0 (s', ?b # L, F)" unfolding pb
        by (rule place_boot [OF i bt sz base pc _ _ refl]) (simp_all add: n32)
      then have "inside s' ?b" by (simp add: inv_def geo_def)
      then have "p \<noteq> 0" unfolding pb(1) by (auto simp: inside_def)
      moreover have "boot_at s' = boot_at s1" "boot_used s' = boot_used s1" by (simp_all add: pb put_blk_def put_hdr_def)
      ultimately have "extend p n pc (if ready s then r else p - 32) (new_end r (unat n + 32) s s') (\<not> ready s) L = ?b # L"
        using False pb(1) by (simp add: extend_def new_end_def)
      then show ?thesis using iv by simp
    qed
  qed
qed

lemma memalign_inv:
  assumes i: "inv F0 (s, L, F)" and pc: "pc \<noteq> 0" and n: "fits n align" and al: "16 < align" "unat align = 2 ^ k"
    and a: "ready s \<longrightarrow> answer_ok r (unat n + 32 + unat align) s L F" and m: "memalign_pc r n align pc s = (p, s')"
  shows "inv F0 (s', extend p n pc (if ready s then r else fst (boot_alloc (n + 32 + align) 16 s))
      (new_end r (unat n + 32 + unat align) s s') (\<not> ready s) L, F)"
proof -
  have n32: "unat (n + 32) = unat n + 32" by (rule unat_plus_32) (use n in \<open>simp add: fits_def\<close>)
  have na: "unat (n + 32 + align) = unat n + 32 + unat align"
    using unat_add [of "n + 32" align] n by (simp add: n32 fits_def)
  have up: "unat base + 32 \<le> unat ((base + 32 + align - 1) AND NOT (align - 1)) \<and>
      unat ((base + 32 + align - 1) AND NOT (align - 1)) < unat base + 32 + unat align"
    if b: "unat base + 32 + unat align < 2 ^ 64" for base
  proof -
    have b32: "unat (base + 32) = unat base + 32" by (rule unat_plus_32) (use b in linarith)
    have e: "base + 32 + align - 1 = base + 32 + (align - 1)" by (simp add: algebra_simps)
    show ?thesis using align_up [OF al(2), of "base + 32"] b unfolding e b32 by simp
  qed
  let ?q = "\<lambda>base. (base + HDRSZ + align - 1) AND NOT (align - 1)"
  have ms: "memalign_pc r n align pc s =
      (let (base, s1) = (if \<not> ready s then boot_alloc (n + 32 + align) 16 s else (r, real_malloc (n + 32 + align) r s))
       in if base = 0 then (0, s1)
          else (?q base, count_new n pc (put_hdr (?q base - 32) n pc base s1)))"
  proof -
    have "\<not> align \<le> 16" using al(1) by simp
    then show ?thesis unfolding memalign_pc_def Let_def HDRSZ_def by (simp only: if_False)
  qed
  show ?thesis
  proof (cases "ready s")
    case True
    show ?thesis
    proof (cases "r = 0")
      case r: True
      then have "p = 0" "s' = real_malloc (n + 32 + align) r s" using m True ms by simp_all
      then show ?thesis using inv_real_malloc [OF i, of "n + 32 + align" r] r i by (simp add: extend_def inv_def)
    next
      case r: False
      have an: "answer_ok r (unat n + 32 + unat align) s L F" using a True by simp
      let ?b = "\<lparr>b_ptr = ?q r - 32 + 32, b_size = n, b_pc = pc, b_base = r, b_end = unat r + (unat n + 32 + unat align), b_boot = False\<rparr>"
      have pb: "p = ?q r" "s' = put_blk ?b (real_malloc (n + 32 + align) r s)"
        using m True ms r by (auto simp: put_blk_def)
      have lim: "unat r + (unat n + 32 + unat align) < 2 ^ 64" using an r by (simp add: answer_ok_def)
      have q: "unat r + 32 \<le> unat (?q r)" "unat (?q r) < unat r + 32 + unat align" using up [of r] lim by (simp_all add: HDRSZ_def)
      have q32: "unat (?q r - 32) = unat (?q r) - 32" by (rule unat_minus_32) (use q in linarith)
      have "inv F0 ((put_blk ?b (real_malloc (n + 32 + align) r s))\<lparr>big_ring := big_ring s'\<rparr>, ?b # L, F)"
        by (rule place_block [OF i pc _ _ _ True an r refl]) (use q q32 in linarith)+
      then have "inv F0 (s', ?b # L, F)" unfolding pb(2) by simp
      moreover have "p \<noteq> 0" using q(1) pb(1) by auto
      ultimately show ?thesis using True pb(1) by (simp add: extend_def new_end_def)
    qed
  next
    case False
    obtain base s1 where bt: "boot_alloc (n + 32 + align) 16 s = (base, s1)" by fastforce
    have sz: "0 < unat (n + 32 + align)" "unat (n + 32 + align) + 2 ^ 20 \<le> 2 ^ 64" using n na by (simp_all add: fits_def)
    show ?thesis
    proof (cases "base = 0")
      case True
      then have "p = 0" "s' = s1" using m False bt ms by simp_all
      then show ?thesis using boot_block(1) [OF i bt sz] True by (simp add: extend_def)
    next
      case base: False
      let ?b = "\<lparr>b_ptr = ?q base - 32 + 32, b_size = n, b_pc = pc, b_base = base, b_end = unat (boot_at s1) + unat (boot_used s1), b_boot = True\<rparr>"
      have pb: "p = ?q base" "s' = put_blk ?b s1" using m False bt base ms by (auto simp: put_blk_def)
      note k = boot_block(2) [OF i bt sz base]
      have "inv F0 (s1, L, F)" using k by simp
      then have ar: "unat (boot_at s1) + BOOT_SIZE < 2 ^ 64" by (simp add: inv_def geo_def arena_def)
      have lim: "unat base + 32 + unat align < 2 ^ 64" using k ar na by linarith
      have q: "unat base + 32 \<le> unat (?q base)" "unat (?q base) < unat base + 32 + unat align"
        using up [OF lim] by (simp_all add: HDRSZ_def)
      have q32: "unat (?q base - 32) = unat (?q base) - 32" by (rule unat_minus_32) (use q in linarith)
      have "inv F0 ((put_blk ?b s1)\<lparr>big_ring := big_ring s'\<rparr>, ?b # L, F)"
        by (rule place_boot [OF i bt sz base pc _ _ refl]) (use q q32 na in linarith)+
      then have "inv F0 (s', ?b # L, F)" unfolding pb(2) by simp
      moreover have "p \<noteq> 0" using q(1) pb(1) by auto
      moreover have "boot_at s' = boot_at s1" "boot_used s' = boot_used s1" by (simp_all add: pb put_blk_def put_hdr_def)
      ultimately show ?thesis using False pb(1) bt by (simp add: extend_def new_end_def)
    qed
  qed
qed

lemma block_magic:
  assumes "geo s L" and "b \<in> set L"
  shows "has_magic (b_ptr b) s = Some (hdr_of b)"
  using assms by (simp add: has_magic_def geo_def HDRSZ_def hdr_of_def)

lemma block_place:
  assumes "geo s L" and "b \<in> set L" and "\<not> b_boot b"
  shows "b_ptr b \<noteq> 0" "\<not> in_boot (b_ptr b) s" "ready s" "b_base b \<in> bases L"
proof -
  have i: "inside s b" using assms by (simp add: geo_def)
  show "b_ptr b \<noteq> 0" using i by (auto simp: inside_def)
  show "\<not> in_boot (b_ptr b) s" using i assms(3) by (auto simp: inside_def in_boot_def)
  show "ready s" using i assms(3) by (simp add: inside_def ready_def)
  show "b_base b \<in> bases L" using assms by (auto simp: bases_def)
qed

text \<open>Giving a block up: its counters, and the rest of the invariant without it.\<close>

lemma drop_block:
  assumes i: "inv F0 (s, L, F)" and b: "b \<in> set L" "\<not> b_boot b"
  shows "geo (count_del (b_size b) (b_pc b) s) (remove1 b L)" "counted (count_del (b_size b) (b_pc b) s) (remove1 b L)"
    "bases (remove1 b L) = bases L - {b_base b}" "b_base b \<notin> F"
proof -
  have g: "geo s L" and c: "counted s L" using i by (simp_all add: inv_def)
  have "grown s (count_del (b_size b) (b_pc b) s)" using g by (simp add: grown_def geo_def)
  then show "geo (count_del (b_size b) (b_pc b) s) (remove1 b L)" using geo_grown [OF geo_sub [OF g]] by blast
  show "counted (count_del (b_size b) (b_pc b) s) (remove1 b L)" by (rule counted_del [OF c b(1)])
  show "bases (remove1 b L) = bases L - {b_base b}" by (rule bases_remove [OF g b])
  show "b_base b \<notin> F" using block_place(4) [OF g b] i by (auto simp: inv_def)
qed

lemma calls_cong [simp]:
  "geo (s\<lparr>real_calls := cs\<rparr>) L = geo s L" "counted (s\<lparr>real_calls := cs\<rparr>) L = counted s L"
  by (simp_all add: geo_def inside_def counted_def)

lemma free_inv:
  assumes i: "inv F0 (s, L, F)" and b: "b \<in> set L" "\<not> b_boot b"
  shows "inv F0 (free (b_ptr b) s, remove1 b L, F)"
proof -
  have g: "geo s L" using i by (simp add: inv_def)
  note p = block_place [OF g b] and d = drop_block [OF i b]
  have "free (b_ptr b) s = real_free (b_base b) (count_del (b_size b) (b_pc b) s)"
    using p block_magic [OF g b(1)] by (simp add: free_def hdr_of_def)
  moreover have "replay (real_calls s @ [RFree (b_base b)]) F0 = Some (bases (remove1 b L) \<union> F)"
    using i p(4) d(3,4) by (auto simp: inv_def replay_append)
  ultimately show ?thesis using i d by (auto simp: inv_def real_free_def)
qed

lemma free_foreign_inv:
  assumes i: "inv F0 (s, L, F)" and p: "p \<in> F" "p \<noteq> 0" "\<not> in_boot p s" "has_magic p s = None"
  shows "inv F0 (free p s, L, if ready s then F - {p} else F)"
proof (cases "ready s")
  case True
  then have "free p s = real_free p s" using p by (simp add: free_def)
  moreover have "replay (real_calls s @ [RFree p]) F0 = Some (bases L \<union> (F - {p}))"
    using i p(1) by (auto simp: inv_def replay_append)
  ultimately show ?thesis using i True by (auto simp: inv_def real_free_def)
next
  case False
  then show ?thesis using i p by (simp add: free_def)
qed

lemma resize_inv:
  assumes i: "inv F0 (s, L, F)" and b: "b \<in> set L" "\<not> b_boot b" and n: "fits n 0"
    and a: "answer_ok r (unat n + 32) s (remove1 b L) F" and m: "realloc r (b_ptr b) n pc s = (p, s')"
  shows "inv F0 (s', if r = 0 then L else extend p n (b_pc b) r (unat r + unat n + 32) False (remove1 b L), F)"
proof -
  have g: "geo s L" using i by (simp add: inv_def)
  note pl = block_place [OF g b] and d = drop_block [OF i b]
  let ?s1 = "real_realloc (b_base b) (n + HDRSZ) r s"
  have e: "realloc r (b_ptr b) n pc s =
      (if r = 0 then (0, ?s1) else tag r n (b_pc b) (count_del (b_size b) (b_pc b) ?s1))"
    using pl block_magic [OF g b(1)] by (simp add: realloc_def hdr_of_def Let_def)
  show ?thesis
  proof (cases "r = 0")
    case True
    then have "s' = ?s1" using m e by simp
    moreover have "replay (real_calls s @ [RRealloc (b_base b) (n + HDRSZ) 0]) F0 = Some (bases L \<union> F)"
      using i pl(4) by (simp add: inv_def replay_append)
    ultimately show ?thesis using i True by (simp add: inv_def real_realloc_def)
  next
    case r: False
    let ?s2 = "count_del (b_size b) (b_pc b) ?s1"
    let ?b = "\<lparr>b_ptr = r + 32, b_size = n, b_pc = b_pc b, b_base = r, b_end = unat r + (unat n + 32), b_boot = False\<rparr>"
    obtain rg where tg: "tag r n (b_pc b) ?s2 = (r + 32, (put_blk ?b ?s2)\<lparr>big_ring := rg\<rparr>)"
      using tag_put [OF r] by blast
    have pb: "p = r + 32" "s' = (put_blk ?b ?s2)\<lparr>big_ring := rg\<rparr>" using m e r tg by auto
    have lim: "unat r + (unat n + 32) < 2 ^ 64"
      and out: "unat r + (unat n + 32) < unat (boot_at s) \<or> unat (boot_at s) + BOOT_SIZE \<le> unat r" and nF: "r \<notin> F"
      using a r by (simp_all add: answer_ok_def)
    have r32: "unat (r + 32) = unat r + 32" by (rule unat_plus_32) (use lim in linarith)
    have s2: "?s2 = (count_del (b_size b) (b_pc b) s)\<lparr>real_calls := real_calls s @ [RRealloc (b_base b) (n + HDRSZ) r]\<rparr>"
      by (simp add: count_del_def real_realloc_def)
    have "inv F0 (s', ?b # remove1 b L, F)" unfolding pb(2)
    proof (rule inv_new)
      show "geo ?s2 (remove1 b L)" "counted ?s2 (remove1 b L)" unfolding s2 using d by simp_all
      show "inside ?s2 ?b" using lim out r r32 pl(3) by (auto simp: inside_def s2 ready_def)
      show "\<forall>c \<in> set (remove1 b L). apart ?b c" using answer_apart(1) [OF a r] by simp
      have "counted s L" using i by (simp add: inv_def)
      then show "b_pc ?b \<noteq> 0" using tab_ok_blk [of "pc_tab s" L b] b(1) by (simp add: counted_def)
      have bs: "bases (?b # remove1 b L) = insert r (bases L - {b_base b})" using d(3) by (simp add: bases_Cons)
      show "replay (real_calls ?s2) F0 = Some (bases (?b # remove1 b L) \<union> F)"
        unfolding bs s2 using i pl(4) d(4) r by (auto simp: inv_def replay_append)
      show "bases (?b # remove1 b L) \<inter> F = {}" unfolding bs using i nF by (auto simp: inv_def)
    qed
    moreover have "p \<noteq> 0" using r32 pb(1) by auto
    ultimately show ?thesis using r pb(1) by (simp add: extend_def add.assoc)
  qed
qed

lemma resize_foreign_inv:
  assumes i: "inv F0 (s, L, F)" and p: "p \<in> F" "p \<noteq> 0" "has_magic p s = None" and n: "fits n 0"
    and a: "answer_ok r (unat n) s L (F - {p})" and m: "realloc r p n pc s = (q, s')"
  shows "inv F0 (s', L, if ready s \<and> r \<noteq> 0 then insert r (F - {p}) else F)"
proof (cases "ready s")
  case True
  then have s': "s' = real_realloc p n r s" using m p by (auto simp: realloc_def)
  have pn: "p \<notin> bases L" using i p(1) by (auto simp: inv_def)
  have rn: "r \<noteq> 0 \<Longrightarrow> r \<notin> bases L" using a by (auto simp: answer_ok_def bases_def)
  have "replay (real_calls s @ [RRealloc p n r]) F0 = Some (bases L \<union> (if r \<noteq> 0 then insert r (F - {p}) else F))"
    using i p(1) pn by (auto simp: inv_def replay_append)
  then show ?thesis using i True rn by (auto simp: inv_def s' real_realloc_def)
next
  case False
  have bt: "boot_alloc n 16 s = (q, s')" using m p False by (simp add: realloc_def)
  have g: "arena (boot_at s)" "unat (boot_used s) \<le> BOOT_SIZE" using i by (simp_all add: inv_def geo_def)
  have "unat n + 2 ^ 20 \<le> 2 ^ 64" using n by (simp add: fits_def)
  then have "s' = s \<or> (\<exists>u. s' = s\<lparr>boot_used := u\<rparr> \<and> unat u \<le> BOOT_SIZE \<and> unat (boot_used s) \<le> unat u)"
    using boot_alloc_cases [OF bt g] by blast
  moreover have "inv F0 (s\<lparr>boot_used := u\<rparr>, L, F)" if "unat u \<le> BOOT_SIZE" "unat (boot_used s) \<le> unat u" for u
    using that by (intro inv_counters [OF i]) (simp_all add: grown_def counted_def)
  ultimately show ?thesis using i False by auto
qed

lemma resolve_inv:
  assumes i: "inv F0 (s, L, F)"
  shows "inv F0 (resolve_begin s, L, F)" "inv F0 (resolve_end every bt s, L, F)"
proof -
  have g: "unat (boot_used s) \<le> BOOT_SIZE" using i by (simp add: inv_def geo_def)
  show "inv F0 (resolve_begin s, L, F)"
    by (rule inv_counters [OF i]) (use g in \<open>simp_all add: resolve_begin_def grown_def counted_def\<close>)
  show "inv F0 (resolve_end every bt s, L, F)"
    by (rule inv_counters [OF i]) (use g in \<open>simp_all add: resolve_end_def grown_def counted_def\<close>)
qed

lemma step_inv: "step x y \<Longrightarrow> inv F0 x \<Longrightarrow> inv F0 y"
proof (induction rule: step.induct)
  case (alloc pc n s r L F f p s')
  then have "malloc_pc r n pc s = (p, s')" by (auto simp: calloc_malloc [abs_def] realloc_def)
  then show ?case using malloc_inv alloc by blast
next
  case (aligned pc n align k s r L F p s')
  then show ?case using memalign_inv by blast
next
  case (free_kept p s L F)
  then show ?case by (auto simp: free_def)
next
  case (resolve_1 s L F)
  then show ?case by (rule resolve_inv(1))
next
  case (resolve_2 s L F every bt)
  then show ?case by (rule resolve_inv(2))
next
  case (free_block b L s F)
  then show ?case by (intro free_inv)
next
  case (free_foreign p F s L)
  then show ?case by (intro free_foreign_inv)
next
  case (resize b L n r s F pc p s')
  then show ?case by (intro resize_inv)
next
  case (resize_foreign p F s n r L pc q s')
  then show ?case by (intro resize_foreign_inv)
qed

lemma start_inv: "arena b \<Longrightarrow> inv F0 (start_tracer b, [], F0)"
proof -
  have "place_for (replicate n e) 0 = place_for (replicate n e) 0" for n e by simp
  have "tab_ok (replicate NPC \<lparr>e_pc = 0, e_bytes = 0, e_cnt = 0\<rparr>) []"
    by (rule tab_okI) (simp_all add: NPC_def ent_ok_def)
  then show "arena b \<Longrightarrow> inv F0 (start_tracer b, [], F0)"
    by (simp add: inv_def geo_def counted_def start_tracer_def bases_def NBIN_def)
qed

lemma runs_inv: "step\<^sup>*\<^sup>* (start_tracer b, [], F0) x \<Longrightarrow> arena b \<Longrightarrow> inv F0 x"
  by (induction rule: rtranclp_induct) (auto intro: start_inv step_inv)


subsection \<open>Reports\<close>

text \<open>The eight largest call sites: a stable sort by falling live bytes, cut after eight.\<close>

definition live_sites :: "pcent list \<Rightarrow> nat list" where
  "live_sites tab = filter (\<lambda>i. e_pc (tab ! i) \<noteq> 0 \<and> e_bytes (tab ! i) \<noteq> 0) [0..<length tab]"

definition falling :: "pcent list \<Rightarrow> nat \<Rightarrow> int" where
  "falling tab i = - uint (e_bytes (tab ! i))"

text \<open>Insertion behind the entries with as many bytes.\<close>

fun insert_behind :: "('a \<Rightarrow> int) \<Rightarrow> 'a \<Rightarrow> 'a list \<Rightarrow> 'a list" where
  "insert_behind f x [] = [x]"
| "insert_behind f x (y # ys) = (if f x < f y then x # y # ys else y # insert_behind f x ys)"

lemma mset_insert_behind [simp]: "mset (insert_behind f x ys) = add_mset x (mset ys)"
  by (induction ys) auto

lemma sorted_insert_behind: "sorted (map f ys) \<Longrightarrow> sorted (map f (insert_behind f x ys))"
proof (induction ys)
  case Nil
  then show ?case by simp
next
  case (Cons y ys)
  have "set (insert_behind f x ys) = insert x (set ys)"
    using mset_insert_behind [of f x ys] by (metis set_mset_mset set_mset_add_mset_insert)
  then show ?case using Cons by auto
qed

lemma filter_insert_behind:
  assumes "sorted (map f ys)"
  shows "filter (\<lambda>z. f z = k) (insert_behind f x ys) =
    (if f x = k then filter (\<lambda>z. f z = k) ys @ [x] else filter (\<lambda>z. f z = k) ys)"
  using assms
proof (induction ys)
  case Nil
  then show ?case by simp
next
  case (Cons y ys)
  show ?case
  proof (cases "f x < f y")
    case True
    then have "\<forall>z \<in> set (y # ys). f z \<noteq> f x" using Cons.prems by auto
    then have "f x = k \<Longrightarrow> filter (\<lambda>z. f z = k) (y # ys) = []" by (auto simp: filter_empty_conv)
    then show ?thesis using True by auto
  next
    case False
    then show ?thesis using Cons by auto
  qed
qed

lemma fold_insert_props:
  "sorted (map f acc) \<Longrightarrow> mset (fold (insert_behind f) xs acc) = mset (acc @ xs) \<and>
     sorted (map f (fold (insert_behind f) xs acc)) \<and>
     (\<forall>k. filter (\<lambda>z. f z = k) (fold (insert_behind f) xs acc) = filter (\<lambda>z. f z = k) (acc @ xs))"
proof (induction xs arbitrary: acc)
  case Nil
  then show ?case by simp
next
  case (Cons x xs)
  then show ?case using Cons.IH [OF sorted_insert_behind [OF Cons.prems]] filter_insert_behind [OF Cons.prems]
    by simp
qed

lemma fold_insert_behind: "fold (insert_behind f) xs [] = sort_key f xs"
proof (rule properties_for_sort_key [symmetric])
  note p = fold_insert_props [of f "[]" xs, simplified]
  show "mset (fold (insert_behind f) xs []) = mset xs" "sorted (map f (fold (insert_behind f) xs []))" using p by simp_all
  show "filter (\<lambda>x. f k = f x) (fold (insert_behind f) xs []) = filter (\<lambda>x. f k = f x) xs" for k
    using p by (simp add: eq_commute [of "f k"])
qed

text \<open>The eight places of the dump hold the first eight of the list kept so far.\<close>

lemma take_insert_behind:
  "take n (insert_behind f x (take n ys)) = take n (insert_behind f x ys)"
proof (induction ys arbitrary: n)
  case Nil
  then show ?case by simp
next
  case (Cons y ys)
  then show ?case
  proof (cases n)
    case 0
    then show ?thesis by simp
  next
    case (Suc m)
    have "take m (take m ys) = take m ys" by simp
    then show ?thesis using Cons.IH [of m] Suc by (auto simp: take_Cons' min_def)
  qed
qed

definition slots :: "nat \<Rightarrow> nat list \<Rightarrow> nat option list" where
  "slots n ys = map Some ys @ replicate (n - length ys) None"

lemma butlast_none: "0 < m \<Longrightarrow> x # butlast (replicate m x) = replicate m x"
  by (cases m) (simp_all add: replicate_append_same [symmetric])

lemma place_slots:
  assumes "e_bytes (tab ! i) \<noteq> 0" and "length ys \<le> n" and "\<forall>y \<in> set ys. e_bytes (tab ! y) \<noteq> 0"
  shows "place tab i (slots n ys) = slots n (take n (insert_behind (falling tab) i ys))"
  using assms(2,3)
proof (induction ys arbitrary: n)
  case Nil
  then show ?case using assms(1)
    by (cases n) (simp_all add: slots_def cur_bytes_def word_neq_0_conv butlast_none)
next
  case (Cons y ys)
  then obtain m where n: "n = Suc m" "length ys \<le> m" by (cases n) auto
  have lt: "falling tab i < falling tab y \<longleftrightarrow> e_bytes (tab ! y) < e_bytes (tab ! i)"
    by (simp add: falling_def word_less_def)
  show ?case
  proof (cases "e_bytes (tab ! y) < e_bytes (tab ! i)")
    case True
    have "Some i # butlast (slots n (y # ys)) = slots n (take n (i # y # ys))"
    proof (cases "length (y # ys) = n")
      case True
      then show ?thesis using n by (simp add: slots_def butlast_conv_take take_map [symmetric])
    next
      case False
      then obtain k where "n - length (y # ys) = Suc k" using Cons.prems(1) by (cases "n - length (y # ys)") auto
      then show ?thesis using n
        by (simp add: slots_def butlast_append replicate_append_same [symmetric] Suc_diff_le)
    qed
    then show ?thesis using True lt by (simp add: slots_def cur_bytes_def)
  next
    case False
    then show ?thesis using Cons.IH [OF n(2)] Cons.prems(2) lt n by (simp add: slots_def cur_bytes_def)
  qed
qed

lemma place_zero: "e_bytes (tab ! i) = 0 \<Longrightarrow> place tab i js = js"
  by (induction js) simp_all

lemma fold_place:
  assumes "length ys \<le> 8" and "\<forall>y \<in> set ys. e_bytes (tab ! y) \<noteq> 0"
    and "ys = take 8 zs"
  shows "fold (\<lambda>i idx. if e_pc (tab ! i) = 0 then idx else place tab i idx) js (slots 8 ys) =
    slots 8 (take 8 (fold (insert_behind (falling tab)) (filter (\<lambda>i. e_pc (tab ! i) \<noteq> 0 \<and> e_bytes (tab ! i) \<noteq> 0) js) zs))"
  using assms
proof (induction js arbitrary: ys zs)
  case Nil
  then show ?case by simp
next
  case (Cons i js)
  let ?P = "\<lambda>i. e_pc (tab ! i) \<noteq> 0 \<and> e_bytes (tab ! i) \<noteq> 0"
  let ?zs = "if ?P i then insert_behind (falling tab) i zs else zs"
  have "(if e_pc (tab ! i) = 0 then slots 8 ys else place tab i (slots 8 ys)) = slots 8 (take 8 ?zs)"
    using place_slots [of tab i ys 8] place_zero [of tab i "slots 8 ys"] Cons.prems
      take_insert_behind [of 8 "falling tab" i zs] by auto
  moreover have "\<forall>y \<in> set (take 8 ?zs). e_bytes (tab ! y) \<noteq> 0"
  proof (cases "?P i")
    case True
    have "take 8 ?zs = take 8 (insert_behind (falling tab) i ys)"
      using True Cons.prems(3) take_insert_behind [of 8 "falling tab" i zs] by simp
    moreover have "set (insert_behind (falling tab) i ys) = insert i (set ys)"
      using mset_insert_behind [of "falling tab" i ys] by (metis set_mset_mset set_mset_add_mset_insert)
    ultimately show ?thesis using Cons.prems(2) True by (auto dest: in_set_takeD)
  next
    case False
    then show ?thesis using Cons.prems(2,3) by auto
  qed
  moreover have "length (take 8 ?zs) \<le> 8" by simp
  moreover have "fold (insert_behind (falling tab)) (filter ?P (i # js)) zs = fold (insert_behind (falling tab)) (filter ?P js) ?zs"
    by (cases "?P i") auto
  ultimately show ?case using Cons.IH [of "take 8 ?zs" ?zs] by (simp only: fold_simps refl)
qed

lemma top_sites_sorted: "top_sites tab = take 8 (sort_key (falling tab) (live_sites tab))"
proof -
  have "slots 8 [] = replicate 8 None" by (simp add: slots_def)
  then have "fold (\<lambda>i idx. if e_pc (tab ! i) = 0 then idx else place tab i idx) [0..<length tab] (replicate 8 None) =
      slots 8 (take 8 (sort_key (falling tab) (live_sites tab)))"
    using fold_place [of "[]" tab "[]" "[0..<length tab]"] by (simp add: fold_insert_behind live_sites_def)
  moreover have "map the (takeWhile (\<lambda>j. j \<noteq> None) (slots n ys)) = ys" for n ys
    by (simp add: slots_def takeWhile_append takeWhile_map comp_def)
  ultimately show ?thesis by (simp only: top_sites_def)
qed


subsection \<open>The tracer is exact and invisible\<close>

lemma tally_size: "tally b_size L = sum_list (map b_size L)"
  by (simp add: tally_def)

lemma tally_count: "tally (\<lambda>b. if P b then 1 else 0) L = of_nat (length (filter P L))"
  by (induction L) (simp_all add: algebra_simps)

lemma tally_one: "tally (\<lambda>_. 1) L = of_nat (length L)"
  by (induction L) (simp_all add: algebra_simps)

lemma tally_site:
  "tally (site_bytes pc) L = sum_list (map b_size (filter (\<lambda>b. b_pc b = pc) L))"
  "tally (site_cnt pc) L = of_nat (length (filter (\<lambda>b. b_pc b = pc) L))"
  "tally (in_bin i) L = of_nat (length (filter (\<lambda>b. bin_of (b_size b) = i) L))"
  by (induction L) (simp_all add: site_bytes_def site_cnt_def in_bin_def algebra_simps)

lemma site_counts:
  assumes t: "tab_ok tab L" and pc: "pc \<noteq> 0"
  shows "case site_of tab pc of
      Some i \<Rightarrow> e_bytes (tab ! i) = tally (site_bytes pc) L \<and> e_cnt (tab ! i) = tally (site_cnt pc) L
    | None \<Rightarrow> (\<forall>b \<in> set L. b_pc b \<noteq> pc) \<or> (\<forall>i \<in> set (chain pc). e_pc (tab ! i) \<noteq> 0 \<and> e_pc (tab ! i) \<noteq> pc)"
proof (cases "site_of tab pc")
  case (Some i)
  note sp = site_place [OF t Some pc]
  have "ent_ok tab L i" by (rule tab_ok_ent [OF t sp(2)])
  then show ?thesis using Some sp(3) pc by (simp add: ent_ok_def)
next
  case None
  show ?thesis
  proof (cases "\<forall>b \<in> set L. b_pc b \<noteq> pc")
    case False
    then obtain b where b: "b \<in> set L" "b_pc b = pc" by blast
    have "place_for tab pc = None" using tab_ok_blk [OF t b(1)] None unfolding b(2) by simp
    then show ?thesis using None by (simp add: place_for_def find_None_set slot_for_def)
  qed (simp add: None)
qed

text \<open>C5. The tracer counts exactly. After any sequence of allocations, reallocations and releases by a
  program that releases only what it holds, and whatever the real allocator answers, the total,
  the number of objects, the histogram and the difference of the two call counters are those of
  the live blocks (modulo \<open>2^64\<close>; blocks of the bootstrap arena count as live for ever). A call
  site that has an entry has exactly its live bytes and blocks there; one that has none has no
  live blocks, or all its 16 slots belong to other sites. And a report lists the (at most) eight
  sites with the most live bytes, largest first.\<close>

theorem tracer_counts_exact:
  assumes "step\<^sup>*\<^sup>* (start_tracer b, [], F0) (s, L, F)" and "arena b"
  shows "live_bytes s = sum_list (map b_size L) \<and> live_objs s = of_nat (length L) \<and>
    n_malloc s - n_free s = of_nat (length L) \<and>
    (\<forall>i < 12. bin_count s ! i = of_nat (length (filter (\<lambda>b. bin_of (b_size b) = i) L))) \<and>
    (\<forall>pc. pc \<noteq> 0 \<longrightarrow> (let mine = filter (\<lambda>b. b_pc b = pc) L in
       case fst (pc_find pc False (pc_tab s)) of
         Some i \<Rightarrow> e_bytes (pc_tab s ! i) = sum_list (map b_size mine) \<and> e_cnt (pc_tab s ! i) = of_nat (length mine)
       | None \<Rightarrow> mine = [] \<or> (\<forall>i \<in> set (chain pc). e_pc (pc_tab s ! i) \<noteq> 0 \<and> e_pc (pc_tab s ! i) \<noteq> pc))) \<and>
    top_sites (pc_tab s) = take 8 (sort_key (\<lambda>i. - uint (e_bytes (pc_tab s ! i)))
       (filter (\<lambda>i. e_pc (pc_tab s ! i) \<noteq> 0 \<and> e_bytes (pc_tab s ! i) \<noteq> 0) [0..<8192]))"
proof -
  have c: "counted s L" using runs_inv [OF assms] by (simp add: inv_def)
  then have t: "tab_ok (pc_tab s) L" by (simp add: counted_def)
  have sites: "let mine = filter (\<lambda>b. b_pc b = pc) L in
       case fst (pc_find pc False (pc_tab s)) of
         Some i \<Rightarrow> e_bytes (pc_tab s ! i) = sum_list (map b_size mine) \<and> e_cnt (pc_tab s ! i) = of_nat (length mine)
       | None \<Rightarrow> mine = [] \<or> (\<forall>i \<in> set (chain pc). e_pc (pc_tab s ! i) \<noteq> 0 \<and> e_pc (pc_tab s ! i) \<noteq> pc)"
    if "pc \<noteq> 0" for pc
    using site_counts [OF t that] by (simp add: pc_find_False tally_site filter_empty_conv Let_def split: option.split_asm)
  have "falling (pc_tab s) = (\<lambda>i. - uint (e_bytes (pc_tab s ! i)))" by (rule ext) (simp add: falling_def)
  then have "top_sites (pc_tab s) = take 8 (sort_key (\<lambda>i. - uint (e_bytes (pc_tab s ! i)))
       (filter (\<lambda>i. e_pc (pc_tab s ! i) \<noteq> 0 \<and> e_bytes (pc_tab s ! i) \<noteq> 0) [0..<8192]))"
    using tab_ok_len [OF t] by (simp only: top_sites_sorted live_sites_def)
  then show ?thesis using c sites by (simp add: counted_def tally_size tally_one tally_site)
qed

text \<open>A run: the first allocation resolves the real functions and then gets a block.\<close>

definition first_tracer :: tracer where
  "first_tracer = resolve_end None None (resolve_begin (start_tracer 4096))"

definition one_block :: "blk" where
  "one_block = \<lparr>b_ptr = 1000032, b_size = 64, b_pc = 7, b_base = 1000000, b_end = 1000096, b_boot = False\<rparr>"

lemma sample_arena: "arena 4096"
  by (simp add: arena_def BOOT_SIZE_def)

lemma traced_run:
  "\<exists>s. step\<^sup>*\<^sup>* (start_tracer 4096, [], {}) (s, [one_block], {}) \<and>
    step\<^sup>*\<^sup>* (start_tracer 4096, [], {}) (free (b_ptr one_block) s, [], {})"
proof -
  let ?s = "first_tracer"
  obtain s where s: "malloc_pc 1000000 64 7 ?s = (1000032, s)"
    by (simp add: malloc_pc_def ready_def first_tracer_def resolve_end_def resolve_begin_def start_tracer_def tag_def HDRSZ_def Let_def)
  have rdy: "ready ?s" and bt: "boot_at ?s = 4096"
    by (simp_all add: ready_def first_tracer_def resolve_end_def resolve_begin_def start_tracer_def)
  have "step (start_tracer 4096, [], {}) (resolve_begin (start_tracer 4096), [], {})" by (rule resolve_1)
  moreover have "step (resolve_begin (start_tracer 4096), [], {}) (?s, [], {})"
    unfolding first_tracer_def by (rule resolve_2)
  moreover have "step (?s, [], {}) (s, [one_block], {})"
  proof -
    have "answer_ok 1000000 (unat (64 :: u64) + 32) ?s [] {}" by (simp add: answer_ok_def bt BOOT_SIZE_def)
    then have "step (?s, [], {}) (s, extend 1000032 64 7 (if ready ?s then 1000000 else 1000032 - 32)
        (new_end 1000000 (unat (64 :: u64) + 32) ?s s) (\<not> ready ?s) [], {})"
      by (intro step.alloc [where f = "malloc_pc 1000000 64 7"]) (simp_all add: fits_def s)
    then show ?thesis using rdy by (simp add: extend_def new_end_def one_block_def)
  qed
  moreover have "step (s, [one_block], {}) (free (b_ptr one_block) s, remove1 one_block [one_block], {})"
    by (rule free_block) (simp_all add: one_block_def)
  ultimately have "step\<^sup>*\<^sup>* (start_tracer 4096, [], {}) (s, [one_block], {})"
    and "step (s, [one_block], {}) (free (b_ptr one_block) s, [], {})" by (simp_all add: converse_rtranclp_into_rtranclp)
  then show ?thesis by (intro exI [of _ s]) (simp add: rtranclp.rtrancl_into_rtrancl)
qed

theorem tracer_counts_exact_witness:
  "\<exists>s. live_bytes s = 64 \<and> n_malloc s - n_free s = 1 \<and> live_bytes (free (b_ptr one_block) s) = 0"
proof -
  obtain s where r: "step\<^sup>*\<^sup>* (start_tracer 4096, [], {}) (s, [one_block], {})"
      "step\<^sup>*\<^sup>* (start_tracer 4096, [], {}) (free (b_ptr one_block) s, [], {})" using traced_run by blast
  show ?thesis using tracer_counts_exact [OF r(1) sample_arena] tracer_counts_exact [OF r(2) sample_arena]
    by (intro exI [of _ s]) (simp add: one_block_def)
qed

text \<open>C20. The real allocator does not notice, in runs that stay clear of the two defects of the next
  subsection. The steps of a run are calls of every allocation function, with three limits: no requested size
  overflows when the header (and the alignment) is added to it, no block of the bootstrap arena is
  resized once the real functions are known, and the program gives back only blocks that it holds (its own,
  or foreign ones that were handed out before the tracer was there). The real allocator is taken
  to answer with null or with a block that overlaps no other. Then, over any number of such calls, it is asked to
  release or resize only blocks that it has handed out and that are not released yet, each once, and at any time
  what is out is exactly what the program holds: nothing leaks. Every block of the program lies inside the memory
  handed out for it, behind a header that is still intact, and two blocks never overlap.\<close>

theorem real_allocator_undisturbed:
  assumes "step\<^sup>*\<^sup>* (start_tracer b, [], F0) (s, L, F)" and "arena b"
  shows "replay (real_calls s) F0 = Some ({b_base x |x. x \<in> set L \<and> \<not> b_boot x} \<union> F) \<and>
    (\<forall>x \<in> set L. unat (b_base x) + 32 \<le> unat (b_ptr x) \<and> unat (b_ptr x) + unat (b_size x) \<le> b_end x \<and>
       has_magic (b_ptr x) s = Some \<lparr>h_magic = MAGIC, h_size = b_size x, h_pc = b_pc x, h_base = b_base x\<rparr> \<and>
       (\<forall>y \<in> set L. x \<noteq> y \<longrightarrow> b_end x \<le> unat (b_base y) \<or> b_end y \<le> unat (b_base x)))"
proof -
  have i: "geo s L" "replay (real_calls s) F0 = Some (bases L \<union> F)" using runs_inv [OF assms] by (simp_all add: inv_def)
  have "inside s x" if "x \<in> set L" for x using i(1) that by (simp add: geo_def)
  then show ?thesis
    using i(2) block_magic [OF i(1)] geo_apart [OF i(1)] by (auto simp: bases_def inside_def hdr_of_def apart_def)
qed

theorem real_allocator_undisturbed_witness:
  "\<exists>s. replay (real_calls s) {} = Some {1000000} \<and> replay (real_calls (free (b_ptr one_block) s)) {} = Some {}"
proof -
  obtain s where r: "step\<^sup>*\<^sup>* (start_tracer 4096, [], {}) (s, [one_block], {})"
      "step\<^sup>*\<^sup>* (start_tracer 4096, [], {}) (free (b_ptr one_block) s, [], {})" using traced_run by blast
  show ?thesis using real_allocator_undisturbed [OF r(1) sample_arena] real_allocator_undisturbed [OF r(2) sample_arena]
    by (intro exI [of _ s]) (auto simp: one_block_def)
qed

subsection \<open>Where it falls short\<close>

text \<open>Resizing a block of the bootstrap arena once the real functions are known hands the arena's
  address to the real \<open>realloc\<close>, which never handed it out.\<close>

lemma boot_block_resized:
  assumes "geo s L" and "b \<in> set L" and "b_boot b" and "ready s" and "realloc r (b_ptr b) n pc s = (p, s')"
  shows "RRealloc (b_base b) (n + HDRSZ) r \<in> set (real_calls s')" "unat (boot_at s) \<le> unat (b_base b)"
    "unat (b_base b) < unat (boot_at s) + BOOT_SIZE"
proof -
  have i: "inside s b" "unat (boot_used s) \<le> BOOT_SIZE" "b_ptr b \<noteq> 0"
    using assms(1,2) by (auto simp: geo_def inside_def)
  show "RRealloc (b_base b) (n + HDRSZ) r \<in> set (real_calls s')"
    using assms(4,5) i(3) block_magic [OF assms(1,2)]
    by (auto simp: realloc_def hdr_of_def real_realloc_def tag_def put_hdr_def Let_def split: if_split_asm)
  show "unat (boot_at s) \<le> unat (b_base b)" "unat (b_base b) < unat (boot_at s) + BOOT_SIZE"
    using i(1,2) assms(3) by (auto simp: inside_def)
qed

text \<open>The ring of large blocks is never told of a release: the next report reads the freed block.\<close>

lemma freed_block_reported:
  assumes "e \<in> set (big_ring s)" and "length (big_ring s) \<le> 60"
  shows "e \<in> set (r_big (last (reports (dump (free p s)))))"
  using assms by (auto simp: dump_def big_dump_def free_def real_free_def count_del_def split: option.split)

text \<open>The size of the header is added without a check: a request of almost \<open>2^64\<close> bytes gets a block of
  a few bytes.\<close>

lemma huge_request:
  assumes "ready s" and "r \<noteq> 0"
  shows "fst (malloc_pc r (- 1) pc s) = r + 32" "RMalloc 31 r \<in> set (real_calls (snd (malloc_pc r (- 1) pc s)))"
  using assms by (simp_all add: malloc_pc_def tag_def real_malloc_def put_hdr_def HDRSZ_def Let_def)

text \<open>And the product of \<open>calloc\<close> wraps around: \<open>2^32\<close> elements of \<open>2^32\<close> bytes are an empty block.\<close>

lemma huge_calloc: "calloc r (2 ^ 32) (2 ^ 32) pc s = calloc_pc r 0 pc s"
proof -
  have "(2 ^ 32 * 2 ^ 32 :: u64) = 0" by (simp only: power_add [symmetric]) simp
  then show ?thesis by (simp only: calloc_def)
qed

end
