(* ===== verification/Startup.thy ===== *)
theory Startup
  imports Jni_Env "HOL-Library.Multiset"
begin

text \<open>
  Start-up of the harness (\<open>main\<close> and \<open>build_sesscfg_nested\<close> in \<open>harness/jinterop.c\<close>, with the table
  of \<open>harness/dict_table.h\<close>): the canned objects handed to the engine before the first session,
  and the choice and order of the dictionaries. Static objects and string literals are blocks at
  the addresses \<open>at\<close> and \<open>lit\<close>; the engine's functions are parameters.
\<close>

subsection \<open>Static objects\<close>

text \<open>\<open>memset\<close>, the class, and the fields in order. A static object has no magic.\<close>

fun set_all :: "u64 \<Rightarrow> (string \<times> char \<times> u64) list \<Rightarrow> 'z hmem_scheme \<Rightarrow> 'z hmem_scheme option" where
  "set_all p [] s = Some s"
| "set_all p ((name, type, v) # fs) s = do { s1 \<leftarrow> obj_set p name type v s; set_all p fs s1 }"

definition new_static ::
    "(string \<Rightarrow> u64) \<Rightarrow> string \<Rightarrow> string \<Rightarrow> (string \<times> char \<times> u64) list \<Rightarrow> 'z hmem_scheme \<Rightarrow> 'z hmem_scheme option" where
  "new_static at name cls fs s =
     set_all (at name) fs (put_blk (at name) (HObj \<lparr>jmagic = 0, jcls = cls, jfields = []\<rparr>) s)"

text \<open>Several of them, in order.\<close>

fun new_statics ::
    "(string \<Rightarrow> u64) \<Rightarrow> (string \<times> string \<times> (string \<times> char \<times> u64) list) list \<Rightarrow> 'z hmem_scheme \<Rightarrow> 'z hmem_scheme option" where
  "new_statics at [] s = Some s"
| "new_statics at ((name, cls, fs) # os) s = do { s1 \<leftarrow> new_static at name cls fs s; new_statics at os s1 }"

subsection \<open>The session configuration\<close>

text \<open>The nested objects in the order in which they are filled: name, class, fields.\<close>

definition config_nested :: "(string \<Rightarrow> u64) \<Rightarrow> (string \<times> string \<times> (string \<times> char \<times> u64) list) list" where
  "config_nested at = [
     (''g_wubicfg'', ''com/tencent/wxhld/info/SessionConfig$WubiConfig'',
         [(''enable_comment'', CHR ''z'', 1)]),
     (''g_aug'', ''com/tencent/wxhld/info/SessionConfig$InputAugmenter'',
         [(''wubi_config'', CHR ''o'', at ''g_wubicfg''),
          (''enable_shift_key_correction'', CHR ''z'', 0),
          (''enable_exchange'', CHR ''z'', 1),
          (''enable_keyboard_neighbour'', CHR ''z'', 1),
          (''enable_insert_at_middle'', CHR ''z'', 1),
          (''enable_skip'', CHR ''z'', 1),
          (''double_pin_solution'', CHR ''i'', 0)]),
     (''g_lml'', ''com/tencent/wxhld/info/SessionConfig$LocalMostLikelyConfig'',
         [(''enable_normal_emoji'', CHR ''z'', 1),
          (''enable_kao_emoji'', CHR ''z'', 1),
          (''enable_normal_text'', CHR ''z'', 1),
          (''enable_easter_egg'', CHR ''z'', 1),
          (''enable_easter_egg_sent_out_candidate'', CHR ''z'', 1),
          (''enable_most_likely_filter'', CHR ''z'', 1)]),
     (''g_lpi'', ''com/tencent/wxhld/info/SessionConfig$LocalProcessInputConfig'',
         [(''enable_normal_emoji'', CHR ''z'', 1),
          (''enable_kao_emoji'', CHR ''z'', 1),
          (''enable_emoji_in_user_dict'', CHR ''z'', 1),
          (''enable_symbol_emoji'', CHR ''z'', 1)]),
     (''g_cml'', ''com/tencent/wxhld/info/SessionConfig$CloudMostLikelyConfig'',
         [(''enable_normal_emoji'', CHR ''z'', 1),
          (''enable_kao_emoji'', CHR ''z'', 1),
          (''enable_baike'', CHR ''z'', 1),
          (''enable_normal_text'', CHR ''z'', 1),
          (''enable_easter_egg'', CHR ''z'', 1)]),
     (''g_cpi'', ''com/tencent/wxhld/info/SessionConfig$CloudProcessInputConfig'',
         [(''return_cnt'', CHR ''i'', 3)]),
     (''g_crec'', ''com/tencent/wxhld/info/SessionConfig$CloudRecommendConfig'',
         []),
     (''g_ctr'', ''com/tencent/wxhld/info/SessionConfig$CloudTextRewriteConfig'',
         []),
     (''g_crd'', ''com/tencent/wxhld/info/SessionConfig$CloudResourceDisplayConfig'',
         []),
     (''g_cec'', ''com/tencent/wxhld/info/SessionConfig$CloudEngineConfig'',
         [(''most_likely_config'', CHR ''o'', at ''g_cml''),
          (''process_input_config'', CHR ''o'', at ''g_cpi''),
          (''recommend_config'', CHR ''o'', at ''g_crec''),
          (''text_rewrite_config'', CHR ''o'', at ''g_ctr''),
          (''resource_display_config'', CHR ''o'', at ''g_crd'')]),
     (''g_gsi'', ''com/tencent/wxhld/info/SessionConfig$GroupSyncInfo'',
         [])]"

definition build_sesscfg_nested :: "(string \<Rightarrow> u64) \<Rightarrow> 'z hmem_scheme \<Rightarrow> 'z hmem_scheme option" where
  "build_sesscfg_nested at s = new_statics at (config_nested at) s"

definition config_session :: "(string \<Rightarrow> u64) \<Rightarrow> (string \<Rightarrow> u64) \<Rightarrow> u64 \<Rightarrow> string \<times> string \<times> (string \<times> char \<times> u64) list" where
  "config_session at lit kb =
     (''g_sesscfg'', ''com/tencent/wxhld/info/SessionConfig'',
         [(''app_name'', CHR ''s'', lit ''com.tencent.mm''),
          (''app_scene'', CHR ''i'', 2),
          (''keyboard_type'', CHR ''i'', kb),
          (''with_async_session_wrapper'', CHR ''z'', 1),
          (''with_search_candidate_instantly_session_wrapper'', CHR ''z'', 1),
          (''enable_pre_input'', CHR ''z'', 1),
          (''enable_auto_most_likely'', CHR ''z'', 1),
          (''enable_user_hot_word_recommend'', CHR ''z'', 1),
          (''enable_local_correction'', CHR ''z'', 1),
          (''input_augmenter'', CHR ''o'', at ''g_aug''),
          (''local_most_likely_config'', CHR ''o'', at ''g_lml''),
          (''local_process_input_config'', CHR ''o'', at ''g_lpi''),
          (''cloud_engine_config'', CHR ''o'', at ''g_cec''),
          (''group_sync_info'', CHR ''o'', at ''g_gsi'')])"

definition build_sesscfg :: "(string \<Rightarrow> u64) \<Rightarrow> (string \<Rightarrow> u64) \<Rightarrow> string option \<Rightarrow> 'z hmem_scheme \<Rightarrow> 'z hmem_scheme option" where
  "build_sesscfg at lit wetype_kb s = do {
     s1 \<leftarrow> build_sesscfg_nested at s;
     let kb = (case wetype_kb of None \<Rightarrow> 0 | Some e \<Rightarrow> word_of_int (atoi e));
     new_statics at [config_session at lit kb] s1
   }"

subsection \<open>The initialisation record\<close>

text \<open>An environment variable that is set and not empty, or a literal; both are character buffers of
  the program.\<close>

definition env_or :: "(string \<Rightarrow> u64 option) \<Rightarrow> (string \<Rightarrow> u64) \<Rightarrow> string \<Rightarrow> string \<Rightarrow> 'z hmem_scheme \<Rightarrow> u64" where
  "env_or env lit name d s = (case env name of
       None \<Rightarrow> lit d
     | Some p \<Rightarrow> if get_str p s = Some [] then lit d else p)"

definition build_initinfo ::
    "(string \<Rightarrow> u64) \<Rightarrow> (string \<Rightarrow> u64) \<Rightarrow> (string \<Rightarrow> u64 option) \<Rightarrow> 'z hmem_scheme \<Rightarrow> 'z hmem_scheme option" where
  "build_initinfo at lit env s = do {
     let p = at ''g_initinfo'';
     let s = put_blk p (HObj \<lparr>jmagic = JO_MAGIC, jcls = ''com/tencent/wxhld/info/InitInfo'', jfields = []\<rparr>) s;
     s \<leftarrow> set_all p
         [(''platform'', CHR ''i'', 1), (''uin'', CHR ''s'', lit ''123456789012345''),
          (''workDir'', CHR ''s'', env_or env lit ''WETYPE_WORK_DIR'' ''/tmp/wetype-work'' s),
          (''sourcePath'', CHR ''s'', env_or env lit ''WETYPE_ASSET_DIR'' ''.deps/wechat-ime/assets'' s),
          (''appVer'', CHR ''s'', lit ''3.5.4''), (''systemVersion'', CHR ''s'', lit ''linux-6.1''),
          (''deviceName'', CHR ''s'', lit ''aarch64-linux''), (''devicePerformance'', CHR ''i'', 2),
          (''logLevel'', CHR ''i'', 0), (''packageType'', CHR ''i'', 0), (''debugLogConfig'', CHR ''s'', lit ''{}'')] s;
     s \<leftarrow> new_static at ''wevis'' ''com/tencent/wxhld/info/WevisDeviceScoreInfo''
         [(''cpu_score'', CHR ''f'', at ''cpu_s''), (''gpu_score'', CHR ''f'', at ''gpu_s'')] s;
     obj_set p ''wevisDeviceScoreInfo'' CHR ''o'' (at ''wevis'') s
   }"

subsection \<open>The dictionaries\<close>

text \<open>\<open>g_dict_table\<close>: name, type and version.\<close>

definition g_dict_table :: "(string \<times> int \<times> int) list" where
  "g_dict_table =
    [(''sw.bin'', 65560, 1643),
     (''sd.bin'', 65559, 1542),
     (''tts.bin'', 65573, 586),
     (''ln2py.bin'', 65547, 962),
     (''ssd.bin'', 65635, 32),
     (''wsd.bin'', 65549, 1045),
     (''prism_v2.bin'', 65578, 51),
     (''awb.bin'', 65544, 1043),
     (''bwcn.bin'', 65536, 1356),
     (''pskvd.bin'', 65568, 1295),
     (''ap.bin'', 65543, 1022),
     (''md.bin'', 262145, 1022),
     (''rsd.bin'', 65561, 958),
     (''stt.bin'', 65572, 583),
     (''ae.bin'', 65569, 1107),
     (''lmcn.bin'', 131072, 1266),
     (''bwcnen.bin'', 65537, 1227),
     (''cell_dict.sc.zh'', 0, 867),
     (''swbd86.bin'', 524291, 959),
     (''bwen.bin'', 65539, 1058),
     (''mdltr.bin'', 262149, 486),
     (''wtid.bin'', 65682, 305),
     (''wltm.bin'', 65563, 969),
     (''bccn.bin'', 65538, 1028),
     (''wpen.bin'', 65540, 955),
     (''wwkvc2e.bin'', 65566, 992),
     (''akv.bin'', 65545, 1086),
     (''wkvc2e.bin'', 65553, 1535),
     (''cell_dict.ssrc.zh'', 7, 1223),
     (''hp_base.bin'', 262144, 1513),
     (''wlwmd.bin'', 65564, 990),
     (''tcd.bin'', 65570, 962),
     (''enfont.bin'', 65576, 167),
     (''editwordt9.bin'', 65633, 102),
     (''pcc.bin'', 65565, 1008),
     (''elc.bin'', 262147, 968),
     (''editpinyin.bin'', 65625, 100),
     (''hwd_hand_write.bin'', 524290, 1118),
     (''noun_tag_dict.bin'', 65580, 48),
     (''atp.bin'', 262148, 597)]"

text \<open>The hyperparameters first, the others in the order of the table.\<close>

definition dict_order :: "(string \<times> int \<times> int) list" where
  "dict_order = filter (\<lambda>d. fst d = ''hp_base.bin'') g_dict_table @ filter (\<lambda>d. fst d \<noteq> ''hp_base.bin'') g_dict_table"

text \<open>\<open>strtok\<close> with a comma: the non-empty pieces.\<close>

function strtok_all :: "char \<Rightarrow> string \<Rightarrow> string list" where
  "strtok_all d s =
     (let t = dropWhile (\<lambda>c. c = d) s in
      if t = [] then [] else takeWhile (\<lambda>c. c \<noteq> d) t # strtok_all d (dropWhile (\<lambda>c. c \<noteq> d) t))"
  by pat_completeness auto
termination
proof (relation "measure (\<lambda>(d, s). length s)")
  fix d :: char and s t
  assume t: "t = dropWhile (\<lambda>c. c = d) s" and ne: "t \<noteq> []"
  have "length t \<le> length s" by (simp add: t length_dropWhile_le)
  moreover have "hd t \<noteq> d" using hd_dropWhile [of "\<lambda>c. c = d" s] ne t by simp
  then have "length (dropWhile (\<lambda>c. c \<noteq> d) t) < length t"
    using ne by (cases t) (simp_all add: length_dropWhile_le less_Suc_eq_le)
  ultimately show "((d, dropWhile (\<lambda>c. c \<noteq> d) t), d, s) \<in> measure (\<lambda>(d, s). length s)" by simp
qed auto

declare strtok_all.simps [simp del]

text \<open>Is a dictionary skipped by \<open>WETYPE_SKIP_DICTS\<close>? The list is cut to the 511 bytes of its copy.\<close>

definition skipped :: "string option \<Rightarrow> string \<Rightarrow> bool" where
  "skipped skip name = (case skip of
       None \<Rightarrow> False
     | Some e \<Rightarrow> e = ''ALL'' \<or> name \<in> set (strtok_all (CHR '','') (snprintf_s 512 e)))"

text \<open>One \<open>DictInfo\<close> for each dictionary that is not skipped; \<open>dn\<close> is the number made so far, and the
  path of each is kept in a static row of 600 bytes.\<close>

fun load_dicts ::
    "(nat \<Rightarrow> u64) \<Rightarrow> string \<Rightarrow> string option \<Rightarrow> (string \<times> int \<times> int) list \<Rightarrow> nat \<Rightarrow> 'z hreg_scheme \<Rightarrow>
     (u64 list \<times> 'z hreg_scheme) option" where
  "load_dicts paths dir skip [] dn s = Some ([], s)"
| "load_dicts paths dir skip ((name, type, version) # ds) dn s =
     (if 64 \<le> dn then Some ([], s)
      else if skipped skip name then load_dicts paths dir skip ds dn s
      else do {
        let (di, s1) = obj_new ''com/tencent/wxhld/info/DictInfo'' s;
        let s2 = put_blk (paths dn) (HStr (snprintf_s 600 (dir @ ''/'' @ name))) s1;
        s3 \<leftarrow> set_all di [(''path'', CHR ''s'', paths dn), (''id'', CHR ''i'', word_of_int type),
                (''version'', CHR ''i'', word_of_int version)] s2;
        (rest, s4) \<leftarrow> load_dicts paths dir skip ds (dn + 1) s3;
        Some (di # rest, s4)
      })"

text \<open>An environment variable that is set and not empty, or a default.\<close>

definition env_text :: "string \<Rightarrow> string option \<Rightarrow> string" where
  "env_text d e = (case e of None \<Rightarrow> d | Some x \<Rightarrow> if x = [] then d else x)"

text \<open>The array handed to \<open>config_dict\<close>, and the object with the path of the user dictionary.\<close>

definition config_dicts ::
    "(string \<Rightarrow> u64) \<Rightarrow> (nat \<Rightarrow> u64) \<Rightarrow> string option \<Rightarrow> string option \<Rightarrow> string option \<Rightarrow> 'z hreg_scheme \<Rightarrow>
     'z hreg_scheme option" where
  "config_dicts at paths dict_dir skip work_dir s = do {
     let dir = env_text ''.deps/wechat-ime/assets/config/beta'' dict_dir;
     (elems, s1) \<leftarrow> load_dicts paths dir skip dict_order 0 s;
     let s2 = put_blk (at ''elems'') (HVec (elems @ replicate (64 - length elems) 0)) s1;
     let s3 = put_blk (at ''g_arr'') (HArr \<lparr>aelem = at ''elems'', alen = of_nat (length elems)\<rparr>) s2;
     let s4 = put_blk (at ''udpath'') (HStr (snprintf_s 600 (env_text ''/tmp/wetype-work'' work_dir @ ''/userdict''))) s3;
     new_static at ''g_userdict'' ''java/lang/String'' [(''.str'', CHR ''s'', at ''udpath'')] s4
   }"

end
