(* ===== verification/Startup_Props.thy ===== *)
theory Startup_Props
  imports Startup
begin

text \<open>
  What the engine finds after start-up: the fields of the static objects as the JNI functions read
  them, and the dictionary records in their array.
\<close>

subsection \<open>What the engine finds\<close>

definition mk_field :: "string \<times> char \<times> u64 \<Rightarrow> jfield" where
  "mk_field x = (case x of (n, t, v) \<Rightarrow> \<lparr>fname = n, ftype = t, fowned = False, fval = v\<rparr>)"

lemma fname_mk: "fname (mk_field x) = fst x"
  by (cases x) (simp add: mk_field_def)

text \<open>Setting the fields of an object one by one: with names that differ and room for all.\<close>

lemma set_all_append:
  assumes "p \<noteq> 0" and "heap s p = Some (HObj ob)"
    and "distinct (map fname (jfields ob) @ map fst fs)" and "length (jfields ob) + length fs \<le> 48"
  shows "set_all p fs s = Some (put_blk p (HObj (ob\<lparr>jfields := jfields ob @ map mk_field fs\<rparr>)) s)"
  using assms
proof (induction fs arbitrary: s ob)
  case Nil
  then show ?case by (simp add: put_blk_def fun_upd_idem)
next
  case (Cons f fs)
  obtain n t v where f: "f = (n, t, v)" by (cases f)
  let ?ob = "ob\<lparr>jfields := jfields ob @ [mk_field f]\<rparr>"
  let ?s = "put_blk p (HObj ?ob) s"
  have none: "obj_get ob n = None"
    using Cons.prems(3) by (auto simp: obj_get_def find_None_set f image_iff)
  have "obj_set p n t v s = Some ?s"
    using Cons.prems(1,2,4) none by (simp add: obj_set_def obj_setf_def get_obj_def mk_field_def f)
  moreover have "set_all p fs ?s = Some (put_blk p (HObj (?ob\<lparr>jfields := jfields ?ob @ map mk_field fs\<rparr>)) ?s)"
    using Cons.prems by (intro Cons.IH) (simp_all add: put_blk_def fname_mk f)
  ultimately show ?case by (simp add: f put_blk_def)
qed

lemma new_static_block:
  assumes "at name \<noteq> 0" and "distinct (map fst fs)" and "length fs \<le> 48"
  shows "new_static at name cls fs s = Some (put_blk (at name) (HObj \<lparr>jmagic = 0, jcls = cls, jfields = map mk_field fs\<rparr>) s)"
  using set_all_append [of "at name" "put_blk (at name) (HObj \<lparr>jmagic = 0, jcls = cls, jfields = []\<rparr>) s" _ fs] assms
  by (simp add: new_static_def put_blk_def)

lemma put_blk_heap: "heap (put_blk p b s) = (heap s)(p \<mapsto> b)"
  by (simp add: put_blk_def)

text \<open>The static objects of the session configuration.\<close>

definition config_names :: "string list" where
  "config_names = [''g_wubicfg'', ''g_aug'', ''g_lml'', ''g_lpi'', ''g_cml'', ''g_cpi'', ''g_crec'', ''g_ctr'',
     ''g_crd'', ''g_cec'', ''g_gsi'', ''g_sesscfg'']"


text \<open>The switches that are on, by object and field.\<close>

definition switches_on :: "(string \<times> string list) list" where
  "switches_on =
     [(''g_wubicfg'', [''enable_comment'']),
      (''g_aug'', [''enable_exchange'', ''enable_keyboard_neighbour'', ''enable_insert_at_middle'', ''enable_skip'']),
      (''g_lml'', [''enable_normal_emoji'', ''enable_kao_emoji'', ''enable_normal_text'', ''enable_easter_egg'',
         ''enable_easter_egg_sent_out_candidate'', ''enable_most_likely_filter'']),
      (''g_lpi'', [''enable_normal_emoji'', ''enable_kao_emoji'', ''enable_emoji_in_user_dict'', ''enable_symbol_emoji'']),
      (''g_cml'', [''enable_normal_emoji'', ''enable_kao_emoji'', ''enable_baike'', ''enable_normal_text'',
         ''enable_easter_egg'']),
      (''g_cpi'', []), (''g_crec'', []), (''g_ctr'', []), (''g_crd'', []), (''g_cec'', []), (''g_gsi'', []),
      (''g_sesscfg'', [''with_async_session_wrapper'', ''with_search_candidate_instantly_session_wrapper'',
         ''enable_pre_input'', ''enable_auto_most_likely'', ''enable_user_hot_word_recommend'',
         ''enable_local_correction''])]"

text \<open>The objects that a configuration object refers to.\<close>

definition config_links :: "(string \<times> string \<times> string) list" where
  "config_links =
     [(''g_sesscfg'', ''input_augmenter'', ''g_aug''), (''g_sesscfg'', ''local_most_likely_config'', ''g_lml''),
      (''g_sesscfg'', ''local_process_input_config'', ''g_lpi''), (''g_sesscfg'', ''cloud_engine_config'', ''g_cec''),
      (''g_sesscfg'', ''group_sync_info'', ''g_gsi''), (''g_aug'', ''wubi_config'', ''g_wubicfg''),
      (''g_cec'', ''most_likely_config'', ''g_cml''), (''g_cec'', ''process_input_config'', ''g_cpi''),
      (''g_cec'', ''recommend_config'', ''g_crec''), (''g_cec'', ''text_rewrite_config'', ''g_ctr''),
      (''g_cec'', ''resource_display_config'', ''g_crd'')]"

text \<open>A static object as a block: its class and its fields in order.\<close>

definition static_blk :: "string \<Rightarrow> (string \<times> char \<times> u64) list \<Rightarrow> hobj" where
  "static_blk cls fs = HObj \<lparr>jmagic = 0, jcls = cls, jfields = map mk_field fs\<rparr>"

lemma new_static_run:
  assumes "at name \<noteq> 0" and "distinct (map fst fs)" and "length fs \<le> 48"
  shows "new_static at name cls fs s = Some (put_blk (at name) (static_blk cls fs) s)"
  using new_static_block [of at name fs cls s, OF assms] by (simp add: static_blk_def)

text \<open>A table of static objects at different places: all are there in the end, nothing else changes.\<close>

lemma new_statics_run:
  assumes "\<forall>(n, c, fs) \<in> set os. at n \<noteq> 0 \<and> distinct (map fst fs) \<and> length fs \<le> 48"
    and "distinct (map (at \<circ> fst) os)"
  shows "\<exists>s'. new_statics at os s = Some s' \<and> answers s' = answers s \<and>
    (\<forall>p. p \<notin> (at \<circ> fst) ` set os \<longrightarrow> heap s' p = heap s p) \<and>
    (\<forall>(n, c, fs) \<in> set os. heap s' (at n) = Some (static_blk c fs))"
  using assms
proof (induction os arbitrary: s)
  case Nil
  then show ?case by simp
next
  case (Cons x os)
  obtain n c fs where x: "x = (n, c, fs)" by (cases x)
  let ?s = "put_blk (at n) (static_blk c fs) s"
  obtain s' where s': "new_statics at os ?s = Some s'" "answers s' = answers ?s"
      "\<forall>p. p \<notin> (at \<circ> fst) ` set os \<longrightarrow> heap s' p = heap ?s p"
      "\<forall>(n, c, fs) \<in> set os. heap s' (at n) = Some (static_blk c fs)"
    using Cons.IH [of ?s] Cons.prems by auto
  have "new_static at n c fs s = Some ?s" using Cons.prems(1) by (intro new_static_run) (auto simp: x)
  then show ?case using s' Cons.prems(2) by (auto simp: x put_blk_def)
qed

text \<open>What a list of fields holds: the flags of a list are on and all others off, and the links.\<close>

definition flags_of :: "(string \<times> char \<times> u64) list \<Rightarrow> string list \<Rightarrow> bool" where
  "flags_of fs on \<longleftrightarrow> distinct (map fst fs) \<and>
     (\<forall>f. (case map_of fs f of Some (k, v) \<Rightarrow> if k = CHR ''z'' then v else 0 | None \<Rightarrow> 0) = (if f \<in> set on then 1 else 0))"

definition config_state :: "(string \<Rightarrow> u64) \<Rightarrow> u64 \<Rightarrow> 'z hmem_scheme \<Rightarrow> bool" where
  "config_state at kb s \<longleftrightarrow> (\<forall>(n, on) \<in> set switches_on. \<exists>c fs. heap s (at n) = Some (static_blk c fs) \<and> flags_of fs on \<and>
     (\<forall>(m, f, q) \<in> set config_links. m = n \<longrightarrow> map_of fs f = Some (CHR ''o'', at q)) \<and>
     (n = ''g_sesscfg'' \<longrightarrow> map_of fs ''keyboard_type'' = Some (CHR ''i'', kb)))"

lemma config_tables:
  "map fst (config_nested at @ [config_session at lit kb]) = config_names"
  "\<forall>(n, c, fs) \<in> set (config_nested at @ [config_session at lit kb]). distinct (map fst fs) \<and> length fs \<le> 48"
  by (simp_all add: config_nested_def config_session_def config_names_def)

text \<open>The tables hold what they should, field by field.\<close>

lemma config_flags:
  "\<forall>(n, on) \<in> set switches_on. \<exists>c fs. (n, c, fs) \<in> set (config_nested at @ [config_session at lit kb]) \<and> flags_of fs on \<and>
     (\<forall>(m, f, q) \<in> set config_links. m = n \<longrightarrow> map_of fs f = Some (CHR ''o'', at q)) \<and>
     (n = ''g_sesscfg'' \<longrightarrow> map_of fs ''keyboard_type'' = Some (CHR ''i'', kb))"
  unfolding switches_on_def config_nested_def config_session_def config_links_def
  by (simp add: flags_of_def)

lemma sesscfg_blocks:
  assumes inj: "inj_on at (set config_names)" and nz: "\<forall>n \<in> set config_names. at n \<noteq> 0"
  shows "\<exists>s'. build_sesscfg at lit kb s = Some s' \<and> answers s' = answers s \<and>
    (\<forall>p. p \<notin> at ` set config_names \<longrightarrow> heap s' p = heap s p) \<and>
    config_state at (case kb of None \<Rightarrow> 0 | Some e \<Rightarrow> word_of_int (atoi e)) s'"
proof -
  let ?kb = "case kb of None \<Rightarrow> 0 | Some e \<Rightarrow> word_of_int (atoi e)"
  define os where "os = config_nested at @ [config_session at lit ?kb]"
  have names: "map fst os = config_names" unfolding os_def by (rule config_tables)
  then have im: "(at \<circ> fst) ` set os = at ` set config_names" and ns: "fst ` set os = set config_names"
    by (metis image_comp list.set_map) (metis names list.set_map)
  have "distinct config_names" by (simp add: config_names_def)
  then have "distinct (map (at \<circ> fst) os)"
    using inj by (simp add: distinct_map flip: map_map names)
  moreover have "\<forall>(n, c, fs) \<in> set os. at n \<noteq> 0 \<and> distinct (map fst fs) \<and> length fs \<le> 48"
    using config_tables(2) [of at lit ?kb, folded os_def] nz ns by force
  ultimately obtain s' where s': "new_statics at os s = Some s'" "answers s' = answers s"
      "\<forall>p. p \<notin> at ` set config_names \<longrightarrow> heap s' p = heap s p"
      "\<forall>(n, c, fs) \<in> set os. heap s' (at n) = Some (static_blk c fs)"
    using new_statics_run [of os at s] unfolding im by blast
  have "new_statics at (xs @ ys) s = new_statics at xs s \<bind> new_statics at ys" for xs ys and s :: "'a hmem_scheme"
    by (induction at xs s rule: new_statics.induct) (auto split: bind_splits)
  then have "build_sesscfg at lit kb s = Some s'"
    using s'(1) by (simp add: build_sesscfg_def build_sesscfg_nested_def Let_def os_def)
  moreover have "config_state at ?kb s'"
    using config_flags [of at lit ?kb, folded os_def] s'(4) unfolding config_state_def by fastforce
  ultimately show ?thesis using s'(2,3) by blast
qed

lemma find_mk_field:
  "find (\<lambda>f. fname f = n) (map mk_field fs) =
     map_option (\<lambda>(k, v). \<lparr>fname = n, ftype = k, fowned = False, fval = v\<rparr>) (map_of fs n)"
  by (induction fs) (auto simp: mk_field_def)

lemma static_get:
  assumes "heap s p = Some (static_blk c fs)"
  shows "get_obj p s = Some \<lparr>jmagic = 0, jcls = c, jfields = map mk_field fs\<rparr>"
    and "obj_get \<lparr>jmagic = 0, jcls = c, jfields = map mk_field fs\<rparr> n =
      map_option (\<lambda>(k, v). \<lparr>fname = n, ftype = k, fowned = False, fval = v\<rparr>) (map_of fs n)"
  using assms by (simp_all add: get_obj_def static_blk_def obj_get_def find_mk_field)

text \<open>Reading a static object: numbers by type, references as they are.\<close>

lemma static_num:
  assumes "heap s p = Some (static_blk c fs)" and "p \<noteq> 0" and "get_tok tok s = Some t"
  shows "num_field ty p tok s = Some (case map_of fs (tname t) of Some (k, v) \<Rightarrow> if k = ty then v else 0 | None \<Rightarrow> 0)"
  using assms by (auto simp: num_field_def static_get split: option.splits)

lemma static_ref:
  assumes "heap s p = Some (static_blk c fs)" and "p \<noteq> 0" and "get_tok tok s = Some t"
    and "map_of fs (tname t) = Some (CHR ''o'', v)"
  shows "F_GetObjectField p tok s = Some (v, s)"
  using assms by (simp add: F_GetObjectField_def static_get)

subsection \<open>Properties\<close>

text \<open>C10. The session configuration: whatever is in memory, \<open>build_sesscfg\<close> succeeds, and through the
  JNI the engine then reads 1 for the switches of \<open>switches_on\<close> and 0 for every other boolean field
  of the twelve objects, finds each nested object under its name (\<open>config_links\<close>, so the automatic
  completion with objects full of zeros never strikes), and reads the keyboard type as \<open>atoi\<close> of
  \<open>WETYPE_KB\<close>, or 0.\<close>

theorem session_defaults:
  fixes s :: "'z jenv_scheme"
  assumes inj: "inj_on at (set config_names)" and nz: "\<forall>n \<in> set config_names. at n \<noteq> 0"
  shows "\<exists>s'. build_sesscfg at lit kb s = Some s' \<and>
    (\<forall>(n, on) \<in> set switches_on. \<forall>tok t. get_tok tok s' = Some t \<longrightarrow>
       F_GetBooleanField (at n) tok s' = Some (if tname t \<in> set on then 1 else 0)) \<and>
    (\<forall>(n, f, m) \<in> set config_links. \<forall>tok t. get_tok tok s' = Some t \<and> tname t = f \<longrightarrow>
       F_GetObjectField (at n) tok s' = Some (at m, s')) \<and>
    (\<forall>tok t. get_tok tok s' = Some t \<and> tname t = ''keyboard_type'' \<longrightarrow>
       F_GetIntField (at ''g_sesscfg'') tok s' =
         Some (case kb of None \<Rightarrow> 0 | Some e \<Rightarrow> word_of_int (atoi e)))"
proof -
  let ?kb = "case kb of None \<Rightarrow> 0 | Some e \<Rightarrow> word_of_int (atoi e)"
  obtain s' where run: "build_sesscfg at lit kb s = Some s'" and st: "config_state at ?kb s'"
    using sesscfg_blocks [OF assms, of lit kb s] by blast
  have sub: "fst ` set switches_on = set config_names" "fst ` set config_links \<subseteq> set config_names"
    by (auto simp: switches_on_def config_links_def config_names_def)
  have blk: "\<exists>c fs. heap s' (at n) = Some (static_blk c fs) \<and> at n \<noteq> 0 \<and> flags_of fs on \<and>
      (\<forall>f q. (n, f, q) \<in> set config_links \<longrightarrow> map_of fs f = Some (CHR ''o'', at q)) \<and>
      (n = ''g_sesscfg'' \<longrightarrow> map_of fs ''keyboard_type'' = Some (CHR ''i'', ?kb))"
    if mem: "(n, on) \<in> set switches_on" for n on
  proof -
    have "n \<in> set config_names" using sub(1) mem by (metis fst_conv image_eqI)
    then have "at n \<noteq> 0" using nz by blast
    moreover obtain c fs where "heap s' (at n) = Some (static_blk c fs)" "flags_of fs on"
        "\<forall>(m, f, q) \<in> set config_links. m = n \<longrightarrow> map_of fs f = Some (CHR ''o'', at q)"
        "n = ''g_sesscfg'' \<longrightarrow> map_of fs ''keyboard_type'' = Some (CHR ''i'', ?kb)"
      using bspec [OF st [unfolded config_state_def] mem] by (simp only: prod.case) blast
    ultimately show ?thesis by blast
  qed
  have flags: "F_GetBooleanField (at n) tok s' = Some (if tname t \<in> set on then 1 else 0)"
    if mem: "(n, on) \<in> set switches_on" and tok: "get_tok tok s' = Some t" for n on tok t
  proof -
    obtain c fs where "heap s' (at n) = Some (static_blk c fs)" "at n \<noteq> 0" and on: "flags_of fs on"
      using blk [OF mem] by (elim exE conjE) (rule that)
    note static_num [OF this(1,2) tok, of "CHR ''z''"]
    also note conjunct2 [OF on [unfolded flags_of_def], rule_format, of "tname t"]
    finally show ?thesis by (simp only: F_GetBooleanField_def)
  qed
  have links: "F_GetObjectField (at n) tok s' = Some (at m, s')"
    if l: "(n, f, m) \<in> set config_links" and t: "get_tok tok s' = Some t" "tname t = f" for n f m tok t
  proof -
    obtain on where on: "(n, on) \<in> set switches_on" 
      using subsetD [OF sub(2) imageI [OF l, of fst]] unfolding sub(1) [symmetric] by (metis fst_conv imageE prod.collapse)
    obtain c fs where "heap s' (at n) = Some (static_blk c fs)" "at n \<noteq> 0" "map_of fs f = Some (CHR ''o'', at m)"
      using blk [OF on] l by (elim exE conjE) (rule that, assumption+, blast)
    then show ?thesis using t by (intro static_ref) auto
  qed
  obtain on where on: "(''g_sesscfg'', on) \<in> set switches_on" by (auto simp: switches_on_def)
  obtain c fs where g: "heap s' (at ''g_sesscfg'') = Some (static_blk c fs)" "at ''g_sesscfg'' \<noteq> 0"
      "map_of fs ''keyboard_type'' = Some (CHR ''i'', ?kb)"
    using blk [OF on] by (elim exE conjE) (rule that, assumption+, simp)
  have "F_GetIntField (at ''g_sesscfg'') tok s' = Some ?kb"
    if "get_tok tok s' = Some t" "tname t = ''keyboard_type''" for tok t
    using static_num [OF g(1,2) that(1)] g(3) that(2) by (simp add: F_GetIntField_def)
  then show ?thesis using run flags links by (intro exI [of _ s']) blast
qed

definition sample_at :: "string \<Rightarrow> u64" where
  "sample_at n = (case find (\<lambda>(k, m). m = n) (enumerate 1 config_names) of None \<Rightarrow> 0 | Some (k, _) \<Rightarrow> of_nat k)"

lemma sample_at_ok: "inj_on sample_at (set config_names)" "\<forall>n \<in> set config_names. sample_at n \<noteq> 0"
  by (simp_all add: config_names_def sample_at_def inj_on_def)

theorem session_defaults_witness:
  "\<exists>s'. build_sesscfg sample_at sample_at (Some ''2'') sample_env = Some s' \<and>
    (\<forall>tok t. get_tok tok s' = Some t \<and> tname t = ''enable_exchange'' \<longrightarrow>
       F_GetBooleanField (sample_at ''g_aug'') tok s' = Some 1 \<and> F_GetBooleanField (sample_at ''g_lml'') tok s' = Some 0)"
proof -
  have "(''g_aug'', [''enable_exchange'', ''enable_keyboard_neighbour'', ''enable_insert_at_middle'', ''enable_skip''])
      \<in> set switches_on" "(''g_lml'', [''enable_normal_emoji'', ''enable_kao_emoji'', ''enable_normal_text'',
      ''enable_easter_egg'', ''enable_easter_egg_sent_out_candidate'', ''enable_most_likely_filter''])
      \<in> set switches_on" by (simp_all add: switches_on_def)
  note sw = this
  obtain s' where run: "build_sesscfg sample_at sample_at (Some ''2'') sample_env = Some s'"
    and fl: "\<forall>(n, on) \<in> set switches_on. \<forall>tok t. get_tok tok s' = Some t \<longrightarrow>
       F_GetBooleanField (sample_at n) tok s' = Some (if tname t \<in> set on then 1 else 0)"
    using session_defaults [OF sample_at_ok, of sample_at "Some ''2''" sample_env] by (elim exE conjE)
  show ?thesis
    using run bspec [OF fl sw(1)] bspec [OF fl sw(2)] by (intro exI [of _ s']) simp
qed

text \<open>The scores of the device: the slots hold the addresses of two variables with 1.0, while a float
  is read from the slot itself; the engine sees the low half of an address.\<close>

lemma set_one: "set_all p [(n, k, v)] s = obj_set p n k v s"
  by (cases "obj_set p n k v s") simp_all

lemma device_score_address:
  fixes s :: "'z jenv_scheme"
  assumes at: "at ''wevis'' \<noteq> 0" "at ''g_initinfo'' \<noteq> 0" "at ''wevis'' \<noteq> at ''g_initinfo''"
  shows "\<exists>s'. build_initinfo at lit env s = Some s' \<and>
    (\<forall>tok t. get_tok tok s' = Some t \<and> tname t = ''cpu_score'' \<longrightarrow>
       F_GetFloatField (at ''wevis'') tok s' = Some (ucast (at ''cpu_s'')))"
proof -
  let ?p = "at ''g_initinfo''" and ?c = "''com/tencent/wxhld/info/WevisDeviceScoreInfo''"
  let ?fs = "[(''cpu_score'', CHR ''f'', at ''cpu_s''), (''gpu_score'', CHR ''f'', at ''gpu_s'')]"
  let ?o = "\<lparr>jmagic = JO_MAGIC, jcls = ''com/tencent/wxhld/info/InitInfo'', jfields = []\<rparr>"
  define s0 where "s0 = put_blk ?p (HObj ?o) s"
  have h0: "heap s0 ?p = Some (HObj ?o)" by (simp add: s0_def put_blk_def)
  have w: "new_static at ''wevis'' ?c ?fs s1 = Some (put_blk (at ''wevis'') (static_blk ?c ?fs) s1)" for s1 :: "'z jenv_scheme"
    using at(1) by (intro new_static_run) simp_all
  obtain fs where run: "build_initinfo at lit env s =
      (set_all ?p fs s0 \<bind> (\<lambda>s1. new_static at ''wevis'' ?c ?fs s1 \<bind> obj_set ?p ''wevisDeviceScoreInfo'' CHR ''o'' (at ''wevis'')))"
    and fs: "map fst fs = [''platform'', ''uin'', ''workDir'', ''sourcePath'', ''appVer'', ''systemVersion'', ''deviceName'',
       ''devicePerformance'', ''logLevel'', ''packageType'', ''debugLogConfig'']"
    by (rule that, unfold build_initinfo_def Let_def s0_def, rule refl, simp only: list.map fst_conv)
  let ?o1 = "?o\<lparr>jfields := map mk_field fs\<rparr>"
  let ?s2 = "put_blk (at ''wevis'') (static_blk ?c ?fs) (put_blk ?p (HObj ?o1) s0)"
  let ?s' = "put_blk ?p (HObj (?o1\<lparr>jfields := jfields ?o1 @ map mk_field [(''wevisDeviceScoreInfo'', CHR ''o'', at ''wevis'')]\<rparr>)) ?s2"
  have len: "length fs = 11" using arg_cong [OF fs, of length] by simp
  have "set_all ?p fs s0 = Some (put_blk ?p (HObj ?o1) s0)"
    using set_all_append [OF at(2) h0, of fs] fs len by simp
  moreover have "set_all ?p [(''wevisDeviceScoreInfo'', CHR ''o'', at ''wevis'')] ?s2 = Some ?s'"
    using at(2,3) fs len
    by (intro set_all_append) (auto simp: put_blk_def comp_def fname_mk cong: map_cong)
  ultimately have "build_initinfo at lit env s = Some ?s'" by (simp add: run w set_one)
  moreover have "heap ?s' (at ''wevis'') = Some (static_blk ?c ?fs)" using at(3) by (simp add: put_blk_def)
  ultimately show ?thesis using at(1) by (intro exI [of _ ?s']) (simp add: F_GetFloatField_def static_num)
qed

text \<open>A dictionary record: type, version and the place of its path, which holds the text.\<close>

definition dict_obj :: "'z hmem_scheme \<Rightarrow> string \<Rightarrow> u64 \<Rightarrow> string \<times> int \<times> int \<Rightarrow> u64 \<Rightarrow> bool" where
  "dict_obj s dir row d p \<longleftrightarrow> (case d of (name, type, version) \<Rightarrow>
     heap s row = Some (HStr (snprintf_s 600 (dir @ ''/'' @ name))) \<and>
     (p = 0 \<or> heap s p = Some (HObj \<lparr>jmagic = JO_MAGIC, jcls = ''com/tencent/wxhld/info/DictInfo'',
        jfields = map mk_field [(''path'', CHR ''s'', row), (''id'', CHR ''i'', word_of_int type),
          (''version'', CHR ''i'', word_of_int version)]\<rparr>)))"

lemma obj_new_places:
  fixes s :: "'z hreg_scheme"
  assumes "obj_new cn s = (p, s1)"
  shows "set (answers s1) \<subseteq> set (answers s)"
    and "p = 0 \<and> heap s1 = heap s \<or> p \<noteq> 0 \<and> p \<in> set (answers s) \<and> heap s p = None \<and>
      heap s1 = (heap s)(p \<mapsto> HObj \<lparr>jmagic = JO_MAGIC, jcls = cn, jfields = []\<rparr>)"
proof -
  obtain s0 where m: "malloc_blk (HObj \<lparr>jmagic = JO_MAGIC, jcls = cn, jfields = []\<rparr>) s = (p, s0)"
    and s1: "s1 = reg_add p R_JOBJ s0"
    using assms by (auto simp: obj_new_def split: prod.splits)
  have "set (answers (reg_add p R_JOBJ t)) \<subseteq> set (answers t)" for t :: "'z hreg_scheme"
    by (auto simp: reg_add_def Let_def malloc_tmp_def split: list.splits)
  then show "set (answers s1) \<subseteq> set (answers s)"
    using m s1 by (fastforce simp: malloc_blk_def split: list.splits if_splits)
  show "p = 0 \<and> heap s1 = heap s \<or> p \<noteq> 0 \<and> p \<in> set (answers s) \<and> heap s p = None \<and>
      heap s1 = (heap s)(p \<mapsto> HObj \<lparr>jmagic = JO_MAGIC, jcls = cn, jfields = []\<rparr>)"
    using m s1 by (auto simp: malloc_blk_def split: list.splits if_splits)
qed

lemma set_all_null: "set_all 0 fs s = Some s"
  by (induction fs) (auto simp: obj_set_def obj_setf_def)

lemma load_dicts_run:
  fixes s :: "'z hreg_scheme"
  assumes "inj_on paths {..<64}" and "set (answers s) \<inter> paths ` {..<64} = {}"
  shows "\<exists>ps s'. load_dicts paths dir skip ds dn s = Some (ps, s') \<and>
    (\<forall>q b. heap s q = Some b \<and> q \<notin> paths ` {dn..<64} \<longrightarrow> heap s' q = Some b) \<and>
    (\<forall>p \<in> set ps. p \<noteq> 0 \<longrightarrow> p \<in> set (answers s) \<and> heap s p = None) \<and> distinct (filter (\<lambda>p. p \<noteq> 0) ps) \<and>
    list_all2 (\<lambda>(k, d) p. dict_obj s' dir (paths k) d p)
      (enumerate dn (take (64 - dn) (filter (\<lambda>d. \<not> skipped skip (fst d)) ds))) ps"
  using assms(2)
proof (induction ds arbitrary: dn s)
  case Nil
  then show ?case by simp
next
  case (Cons d ds)
  obtain name ty ver where d: "d = (name, ty, ver)" by (cases d)
  show ?case
  proof (cases "64 \<le> dn \<or> skipped skip name")
    case True
    then show ?thesis using Cons.IH [OF Cons.prems, of dn] by (cases "64 \<le> dn") (simp_all add: d)
  next
    case False
    let ?row = "paths dn" and ?fs = "[(''path'', CHR ''s'', paths dn), (''id'', CHR ''i'', word_of_int ty),
                (''version'', CHR ''i'', word_of_int ver)]"
    let ?o = "\<lparr>jmagic = JO_MAGIC, jcls = ''com/tencent/wxhld/info/DictInfo'', jfields = []\<rparr>"
    obtain p s1 where o: "obj_new ''com/tencent/wxhld/info/DictInfo'' s = (p, s1)" by fastforce
    note pl = obj_new_places [OF o]
    define s2 where "s2 = put_blk ?row (HStr (snprintf_s 600 (dir @ ''/'' @ name))) s1"
    define s3 where "s3 = (if p = 0 then s2 else put_blk p (HObj (?o\<lparr>jfields := map mk_field ?fs\<rparr>)) s2)"
    have row: "?row \<in> paths ` {..<64}" using False by simp
    have pr: "p \<noteq> 0 \<Longrightarrow> p \<notin> paths ` {..<64}" using pl(2) Cons.prems by blast
    have "set_all p ?fs s2 = Some s3"
    proof (cases "p = 0")
      case True
      then show ?thesis by (simp only: set_all_null s3_def if_True simp_thms)
    next
      case p: False
      have "heap s2 p = Some (HObj ?o)" using pl(2) p pr row by (auto simp: s2_def put_blk_def)
      from set_all_append [OF p this, of ?fs] p show ?thesis by (simp add: s3_def)
    qed
    note fields = this
    have a3: "answers s3 = answers s1" by (simp add: s3_def s2_def put_blk_def)
    have h3: "heap s3 = (if p = 0 then heap s else (heap s)(p \<mapsto> HObj (?o\<lparr>jfields := map mk_field ?fs\<rparr>)))
        (?row \<mapsto> HStr (snprintf_s 600 (dir @ ''/'' @ name)))"
      using pl(2) pr row by (auto simp: s3_def s2_def put_blk_def fun_eq_iff)
    have "set (answers s3) \<inter> paths ` {..<64} = {}" using pl(1) Cons.prems a3 by auto
    from Cons.IH [OF this, of "dn + 1"] obtain ps s' where run: "load_dicts paths dir skip ds (dn + 1) s3 = Some (ps, s')"
      and keep: "\<forall>q b. heap s3 q = Some b \<and> q \<notin> paths ` {dn + 1..<64} \<longrightarrow> heap s' q = Some b"
      and fresh: "\<forall>p \<in> set ps. p \<noteq> 0 \<longrightarrow> p \<in> set (answers s3) \<and> heap s3 p = None" "distinct (filter (\<lambda>p. p \<noteq> 0) ps)"
      and all: "list_all2 (\<lambda>(k, d) p. dict_obj s' dir (paths k) d p)
        (enumerate (dn + 1) (take (64 - (dn + 1)) (filter (\<lambda>d. \<not> skipped skip (fst d)) ds))) ps"
      by blast
    have r1: "?row \<notin> paths ` {dn + 1..<64}" using inj_onD [OF assms(1), of dn] False by fastforce
    have "load_dicts paths dir skip (d # ds) dn s = Some (p # ps, s')"
      using False o fields run by (simp add: d Let_def s2_def del: set_all.simps)
    moreover have "\<forall>q b. heap s q = Some b \<and> q \<notin> paths ` {dn..<64} \<longrightarrow> heap s' q = Some b"
    proof (intro allI impI)
      fix q b assume q: "heap s q = Some b \<and> q \<notin> paths ` {dn..<64}"
      then have "heap s3 q = Some b" using False pl(2) by (auto simp: h3)
      moreover have "q \<notin> paths ` {dn + 1..<64}" using q by auto
      ultimately show "heap s' q = Some b" using keep by blast
    qed
    moreover have "\<forall>q \<in> set (p # ps). q \<noteq> 0 \<longrightarrow> q \<in> set (answers s) \<and> heap s q = None"
      using pl fresh(1) a3 by (auto simp: h3 split: if_splits)
    moreover have "distinct (filter (\<lambda>p. p \<noteq> 0) (p # ps))" using fresh by (auto simp: h3 split: if_splits)
    moreover have hrow: "heap s' ?row = Some (HStr (snprintf_s 600 (dir @ ''/'' @ name)))"
      using keep [rule_format, of ?row] r1 by (simp add: h3)
    moreover have "heap s' p = Some (HObj (?o\<lparr>jfields := map mk_field ?fs\<rparr>))" if p: "p \<noteq> 0"
    proof -
      have "p \<noteq> ?row" "p \<notin> paths ` {dn + 1..<64}" using pr [OF p] row by auto
      then show ?thesis using keep [rule_format, of p] p by (simp add: h3)
    qed
    then have "p = 0 \<or> heap s' p = Some (HObj (?o\<lparr>jfields := map mk_field ?fs\<rparr>))" by blast
    with hrow have "dict_obj s' dir ?row d p" by (simp add: dict_obj_def d)
    moreover have "enumerate dn (take (64 - dn) (filter (\<lambda>d. \<not> skipped skip (fst d)) (d # ds))) =
        (dn, d) # enumerate (dn + 1) (take (64 - (dn + 1)) (filter (\<lambda>d. \<not> skipped skip (fst d)) ds))"
      using False by (simp add: d take_Cons')
    ultimately show ?thesis using all
      by (intro exI [of _ "p # ps"] exI [of _ s']) (simp del: load_dicts.simps filter.simps)
  qed
qed

text \<open>The order of loading: a rearrangement of the table that starts with the hyperparameters.\<close>

lemma dict_order_ok:
  "mset dict_order = mset g_dict_table" "fst (hd dict_order) = ''hp_base.bin''" "length dict_order = 40"
proof -
  show "mset dict_order = mset g_dict_table" by (simp add: dict_order_def multiset_partition [symmetric])
  show "fst (hd dict_order) = ''hp_base.bin''" "length dict_order = 40"
    by (simp_all add: dict_order_def g_dict_table_def)
qed

text \<open>C16. The dictionaries handed to \<open>config_dict\<close>: the records in \<open>elems\<close> are, in order, those of the
  dictionaries that \<open>WETYPE_SKIP_DICTS\<close> does not name, the hyperparameters before all others and each
  of the 40 at most once, with type, version and the path in the chosen directory; the array has their
  number as its length, so nothing behind it is read. A record that could not be allocated is a null
  element. Live blocks outside the static rows and objects stay as they are.\<close>

theorem dicts_loaded:
  fixes s :: "'z hreg_scheme"
  assumes rows: "inj_on paths {..<64}" "set (answers s) \<inter> paths ` {..<64} = {}"
    and at: "inj_on at {''elems'', ''g_arr'', ''udpath'', ''g_userdict''}" "at ''g_userdict'' \<noteq> 0"
    and apart: "at ` {''elems'', ''g_arr'', ''udpath'', ''g_userdict''} \<inter> (paths ` {..<64} \<union> set (answers s)) = {}"
    and dir: "dir = env_text ''.deps/wechat-ime/assets/config/beta'' dict_dir"
  shows "mset dict_order = mset g_dict_table \<and> fst (hd dict_order) = ''hp_base.bin'' \<and>
    (\<exists>s' ps. config_dicts at paths dict_dir skip work_dir s = Some s' \<and>
      list_all2 (\<lambda>(k, d) p. dict_obj s' dir (paths k) d p)
        (enumerate 0 (filter (\<lambda>d. \<not> skipped skip (fst d)) dict_order)) ps \<and>
      heap s' (at ''elems'') = Some (HVec (ps @ replicate (64 - length ps) 0)) \<and>
      heap s' (at ''g_arr'') = Some (HArr \<lparr>aelem = at ''elems'', alen = of_nat (length ps)\<rparr>) \<and>
      length ps \<le> 40 \<and>
      (\<forall>q b. heap s q = Some b \<and> q \<notin> paths ` {..<64} \<union> at ` {''elems'', ''g_arr'', ''udpath'', ''g_userdict''} \<longrightarrow>
         heap s' q = Some b))"
proof -
  let ?ks = "filter (\<lambda>d. \<not> skipped skip (fst d)) dict_order" and ?A = "at ` {''elems'', ''g_arr'', ''udpath'', ''g_userdict''}"
  have len: "length ?ks \<le> 40" using length_filter_le [of "\<lambda>d. \<not> skipped skip (fst d)" dict_order] dict_order_ok(3) by simp
  then have tk: "take (64 - 0) ?ks = ?ks" by simp
  obtain ps s1 where run: "load_dicts paths dir skip dict_order 0 s = Some (ps, s1)"
    and keep: "\<forall>q b. heap s q = Some b \<and> q \<notin> paths ` {0..<64} \<longrightarrow> heap s1 q = Some b"
    and fresh: "\<forall>p \<in> set ps. p \<noteq> 0 \<longrightarrow> p \<in> set (answers s) \<and> heap s p = None"
    and all: "list_all2 (\<lambda>(k, d) p. dict_obj s1 dir (paths k) d p) (enumerate 0 ?ks) ps"
    using load_dicts_run [OF rows, of dir skip dict_order 0] unfolding tk by blast
  have lp: "length ps = length ?ks" using list_all2_lengthD [OF all] by simp
  obtain u s' where run': "config_dicts at paths dict_dir skip work_dir s = Some s'"
    and h: "heap s' = (heap s1)(at ''elems'' \<mapsto> HVec (ps @ replicate (64 - length ps) 0),
      at ''g_arr'' \<mapsto> HArr \<lparr>aelem = at ''elems'', alen = of_nat (length ps)\<rparr>, at ''udpath'' \<mapsto> HStr u,
      at ''g_userdict'' \<mapsto> static_blk ''java/lang/String'' [(''.str'', CHR ''s'', at ''udpath'')])"
    using run dir at(2) by (simp add: config_dicts_def Let_def new_static_run put_blk_def)
  have d: "at ''elems'' \<noteq> at ''g_arr''" "at ''elems'' \<noteq> at ''udpath''" "at ''elems'' \<noteq> at ''g_userdict''"
      "at ''g_arr'' \<noteq> at ''udpath''" "at ''g_arr'' \<noteq> at ''g_userdict''"
    using at(1) by (simp_all add: inj_on_def)
  have out: "heap s' q = heap s1 q" if "q \<notin> ?A" for q using that by (auto simp: h)
  have "list_all2 (\<lambda>(k, d) p. dict_obj s' dir (paths k) d p) (enumerate 0 ?ks) ps"
    unfolding list_all2_conv_all_nth
  proof (intro conjI allI impI)
    show "length (enumerate 0 ?ks) = length ps" by (simp add: lp)
    fix i assume i: "i < length (enumerate 0 ?ks)"
    have "dict_obj s1 dir (paths i) (?ks ! i) (ps ! i)"
      using list_all2_nthD [OF all i] i by (simp add: nth_enumerate_eq)
    moreover have "paths i \<in> paths ` {..<64}" using i len by simp
    then have "paths i \<notin> ?A" using apart by blast
    moreover have "ps ! i \<in> set ps" using i lp by simp
    then have "ps ! i = 0 \<or> ps ! i \<in> set (answers s)" using fresh by blast
    then have "ps ! i = 0 \<or> ps ! i \<notin> ?A" using apart by blast
    ultimately have "dict_obj s' dir (paths i) (?ks ! i) (ps ! i)"
      using out unfolding dict_obj_def by (auto split: prod.splits)
    then show "(case enumerate 0 ?ks ! i of (k, d) \<Rightarrow> \<lambda>p. dict_obj s' dir (paths k) d p) (ps ! i)"
      using i by (simp add: nth_enumerate_eq)
  qed
  moreover have "heap s' q = Some b" if "heap s q = Some b \<and> q \<notin> paths ` {..<64} \<union> ?A" for q b
    using keep out that by (simp add: atLeast0LessThan)
  ultimately show ?thesis
    using run' d dict_order_ok lp len by (intro conjI exI [of _ s'] exI [of _ ps]) (simp_all add: h)
qed

definition sample_static :: "string \<Rightarrow> u64" where
  "sample_static n = (if n = ''elems'' then 0x2000 else if n = ''g_arr'' then 0x2001 else if n = ''udpath'' then 0x2002 else 0x2003)"

theorem dicts_loaded_witness:
  "\<exists>s'. config_dicts sample_static (\<lambda>k. 0x1000 + of_nat k) (Some ''dicts'') None None sample_env = Some s' \<and>
    heap s' 0x2001 = Some (HArr \<lparr>aelem = 0x2000, alen = 40\<rparr>)"
proof -
  let ?r = "\<lambda>k. 0x1000 + of_nat k :: u64"
  have u: "uint (?r k) = 0x1000 + int k" if "k < 64" for k using that by (simp add: unat_word_ariths uint_nat unat_of_nat)
  have inj: "inj_on ?r {..<64}" using u by (intro inj_onI) (metis add_left_cancel lessThan_iff of_nat_eq_iff)
  have away: "v \<notin> ?r ` {..<64}" if "uint v < 0x1000 \<or> 0x1040 \<le> uint v" for v using that u by fastforce
  have a: "set (answers sample_env) \<inter> ?r ` {..<64} = {}"
    using away [of "0x90"] away [of "0xa0"] away [of "0xb0"] away [of "0xc0"] by (simp add: sample_env_sel)
  have i: "inj_on sample_static {''elems'', ''g_arr'', ''udpath'', ''g_userdict''}" "sample_static ''g_userdict'' \<noteq> 0"
    by (simp_all add: sample_static_def)
  have d: "sample_static ` {''elems'', ''g_arr'', ''udpath'', ''g_userdict''} \<inter> (?r ` {..<64} \<union> set (answers sample_env)) = {}"
    using away [of "0x2000"] away [of "0x2001"] away [of "0x2002"] away [of "0x2003"]
    by (simp add: sample_static_def sample_env_sel)
  have ks: "filter (\<lambda>d. \<not> skipped None (fst d)) dict_order = dict_order" by (simp add: skipped_def)
  obtain s' ps where run: "config_dicts sample_static ?r (Some ''dicts'') None None sample_env = Some s'"
    and l: "list_all2 (\<lambda>(k, d) p. dict_obj s' (env_text ''.deps/wechat-ime/assets/config/beta'' (Some ''dicts'')) (?r k) d p)
        (enumerate 0 dict_order) ps"
    and g: "heap s' (sample_static ''g_arr'') = Some (HArr \<lparr>aelem = sample_static ''elems'', alen = of_nat (length ps)\<rparr>)"
    using dicts_loaded [OF inj a i d refl, of "Some ''dicts''" None None, unfolded ks] by (elim exE conjE) (rule that)
  have "length ps = 40" using list_all2_lengthD [OF l] dict_order_ok(3) by simp
  then show ?thesis using run g by (intro exI [of _ s']) (simp add: sample_static_def)
qed

end
