(* ===== verification/Heap_Scan.thy ===== *)
theory Heap_Scan
  imports Alloc_Props "HOL-Library.Sublist"
begin

unbundle bit_operations_syntax

text \<open>
  The tracer with the search for owners (\<open>scripts/mtrace2_heapscan.c\<close>). It counts as the allocation
  tracer does (\<open>Alloc_Trace\<close>, component \<open>trc\<close> here, without the ring of large blocks), keeps a
  registry of the live blocks, and at allocations of chosen sizes prints which blocks and
  globals point to the blocks of that size, the return addresses on the stack, or the bytes
  near the new block. What it looks at is an argument: a \<open>world\<close> holds the memory, the stack and the
  loaded libraries at the moment of the call. What it prints is the list \<open>prints\<close>.
  Functions that the two tracers share by name carry the suffix 2.
\<close>

subsection \<open>State\<close>

definition MAXHIT :: nat where "MAXHIT = 8"
definition NWR :: nat where "NWR = 8"
definition REG_SLOTS :: nat where "REG_SLOTS = 2 ^ 19"
definition MAXOWN :: nat where "MAXOWN = 4"

record regent =
  g_ptr :: u64
  g_size :: u64
  g_pc :: u64

record phdr =
  p_type :: "32 word"
  p_flags :: "32 word"
  p_vaddr :: u64
  p_memsz :: u64

record loaded =
  dlpi_name :: "string option"
  dlpi_addr :: u64
  dlpi_phdr :: "phdr list"

record world =
  w_word :: "u64 \<Rightarrow> u64"
  w_byte :: "u64 \<Rightarrow> 8 word"
  w_frame :: "nat \<Rightarrow> u64"
  w_caller :: u64
  w_libs :: "loaded list"

datatype print =
    OwnScan nat u64                    \<comment> \<open>blocks, target size\<close>
  | OwnEdge u64 u64 u64 u64 u64 u64    \<comment> \<open>target, offset in it, its site; site, offset, size of the referrer\<close>
  | OwnNone u64 u64                    \<comment> \<open>target without reference, its site\<close>
  | OwnSeg u64 u64
  | OwnGlob nat u64 u64 u64 u64        \<comment> \<open>segment, offset; target, offset in it, its site\<close>
  | OwnDone nat nat                    \<comment> \<open>targets, edges\<close>
  | Probe u64 u64 u64 "8 word list"    \<comment> \<open>block, size, address, bytes\<close>
  | Stack u64 u64 "(nat \<times> u64) list"   \<comment> \<open>size, call site, return addresses by offset\<close>

record scanner =
  trc :: tracer
  hit_size :: "u64 list"
  hit_left :: "int list"
  wx_lo :: u64
  wx_hi :: u64
  wr_rng :: "(u64 \<times> u64) list"
  live_reg :: "nat \<Rightarrow> regent"
  own_target :: "u64 list"
  own_left :: "int list"
  own_n :: nat
  probe_off :: int
  probe_len :: int
  probe_left :: int
  probe_size :: u64
  prints :: "print list"

definition on_trc :: "(tracer \<Rightarrow> tracer) \<Rightarrow> scanner \<Rightarrow> scanner" where
  "on_trc f s = s\<lparr>trc := f (trc s)\<rparr>"

subsection \<open>The registry of live blocks\<close>

definition reg_hash :: "u64 \<Rightarrow> u64" where
  "reg_hash p = (drop_bit 4 p * 11400714819323198485) AND 0x7ffff"

definition reg_slot :: "u64 \<Rightarrow> nat \<Rightarrow> nat" where
  "reg_slot p i = unat ((reg_hash p + of_nat i) AND 0x7ffff)"

text \<open>At most 64 slots are probed; \<open>k\<close> are left. With all of them taken, the block is not registered.\<close>

fun reg_add_from :: "u64 \<Rightarrow> u64 \<Rightarrow> u64 \<Rightarrow> nat \<Rightarrow> nat \<Rightarrow> (nat \<Rightarrow> regent) \<Rightarrow> (nat \<Rightarrow> regent)" where
  "reg_add_from p n pc i 0 reg = reg"
| "reg_add_from p n pc i (Suc k) reg =
     (let s = reg_slot p i in
      if g_ptr (reg s) = 0 then reg(s := \<lparr>g_ptr = p, g_size = n, g_pc = pc\<rparr>)
      else if g_ptr (reg s) = p then reg(s := (reg s)\<lparr>g_size := n, g_pc := pc\<rparr>)
      else reg_add_from p n pc (i + 1) k reg)"

definition reg_add2 :: "u64 \<Rightarrow> u64 \<Rightarrow> u64 \<Rightarrow> scanner \<Rightarrow> scanner" where
  "reg_add2 p n pc s = (if p = 0 then s else s\<lparr>live_reg := reg_add_from p n pc 0 64 (live_reg s)\<rparr>)"

fun reg_del_from :: "u64 \<Rightarrow> nat \<Rightarrow> nat \<Rightarrow> (nat \<Rightarrow> regent) \<Rightarrow> (nat \<Rightarrow> regent)" where
  "reg_del_from p i 0 reg = reg"
| "reg_del_from p i (Suc k) reg =
     (let s = reg_slot p i in
      if g_ptr (reg s) = p then reg(s := (reg s)\<lparr>g_ptr := 0\<rparr>)
      else if g_ptr (reg s) = 0 then reg
      else reg_del_from p (i + 1) k reg)"

definition reg_del2 :: "u64 \<Rightarrow> scanner \<Rightarrow> scanner" where
  "reg_del2 p s = (if p = 0 then s else s\<lparr>live_reg := reg_del_from p 0 64 (live_reg s)\<rparr>)"

subsection \<open>The search for owners\<close>

text \<open>The live blocks, at most half the slots, sorted by address. Where an address is in the registry
  twice, the order of the two is left to \<open>qsort\<close>; here the sort is stable.\<close>

definition collect_live :: "(nat \<Rightarrow> regent) \<Rightarrow> regent list" where
  "collect_live reg =
     sort_key g_ptr (take (REG_SLOTS div 2) (filter (\<lambda>e. g_ptr e \<noteq> 0) (map reg [0..<REG_SLOTS])))"

text \<open>The last block at or below an address, by bisection; \<open>-1\<close> if there is none.\<close>

function bisect :: "regent list \<Rightarrow> u64 \<Rightarrow> int \<Rightarrow> int \<Rightarrow> int \<Rightarrow> int" where
  "bisect arr v lo hi k =
     (if lo \<le> hi then
        let mid = (lo + hi) div 2 in
        if g_ptr (arr ! nat mid) \<le> v then bisect arr v (mid + 1) hi mid else bisect arr v lo (mid - 1) k
      else k)"
  by pat_completeness auto
termination
  by (relation "measure (\<lambda>(arr, v, lo, hi, k). nat (hi - lo + 1))") auto

declare bisect.simps [simp del]

definition in_target :: "regent list \<Rightarrow> regent \<Rightarrow> u64 \<Rightarrow> bool" where
  "in_target arr t v \<longleftrightarrow>
     \<not> (v < g_ptr t \<or> g_ptr t + g_size t \<le> v) \<and>
     (let k = bisect arr v 0 (int (length arr) - 1) (- 1) in \<not> (k < 0 \<or> g_ptr (arr ! nat k) \<noteq> g_ptr t))"

text \<open>The first word of a block that points into the target, among the first 64 KB.\<close>

definition ref_words :: "regent \<Rightarrow> nat" where
  "ref_words b = (if 8192 < drop_bit 3 (g_size b) then 8192 else unat (drop_bit 3 (g_size b)))"

definition ref_word :: "world \<Rightarrow> regent list \<Rightarrow> regent \<Rightarrow> regent \<Rightarrow> nat option" where
  "ref_word w arr t b = find (\<lambda>i. in_target arr t (w_word w (g_ptr b + 8 * of_nat i))) [0..<ref_words b]"

text \<open>The referrers of one target, with the counters \<open>refs\<close> and \<open>nedge\<close>.\<close>

fun own_refs :: "world \<Rightarrow> regent list \<Rightarrow> regent \<Rightarrow> regent list \<Rightarrow> nat \<Rightarrow> nat \<Rightarrow> print list \<times> nat \<times> nat" where
  "own_refs w arr t [] refs nedge = ([], refs, nedge)"
| "own_refs w arr t (b # bs) refs nedge =
     (if \<not> (refs < 8 \<and> nedge < 600) then ([], refs, nedge)
      else if g_size b < 0x18 then own_refs w arr t bs refs nedge
      else case ref_word w arr t b of
          None \<Rightarrow> own_refs w arr t bs refs nedge
        | Some i \<Rightarrow>
            let (ps, r, n) = own_refs w arr t bs (refs + 1) (nedge + 1);
                v = w_word w (g_ptr b + 8 * of_nat i)
            in (OwnEdge (g_ptr t) (v - g_ptr t) (g_pc t) (g_pc b) (of_nat i * 8) (g_size b) # ps, r, n))"

text \<open>The targets from the highest address down, at most eight of them in detail.\<close>

fun own_targets :: "world \<Rightarrow> regent list \<Rightarrow> u64 \<Rightarrow> regent list \<Rightarrow> nat \<Rightarrow> nat \<Rightarrow> print list \<times> nat \<times> nat" where
  "own_targets w arr target [] ntgt nedge = ([], ntgt, nedge)"
| "own_targets w arr target (t # ts) ntgt nedge =
     (if \<not> nedge < 600 then ([], ntgt, nedge)
      else if g_size t \<noteq> target then own_targets w arr target ts ntgt nedge
      else if 8 < ntgt + 1 then own_targets w arr target ts (ntgt + 1) nedge
      else
        let (ps, refs, nedge1) = own_refs w arr t arr 0 nedge;
            (qs, n, e) = own_targets w arr target ts (ntgt + 1) nedge1
        in (ps @ (if refs = 0 then [OwnNone (g_ptr t) (g_pc t)] else []) @ qs, n, e))"

text \<open>The words of a data segment, and those that point into a target.\<close>

definition seg_words :: "u64 \<times> u64 \<Rightarrow> u64 list" where
  "seg_words r = (let gm = fst r AND NOT 7 in map (\<lambda>i. gm + 8 * of_nat i) [0..<(unat (snd r) - unat gm + 7) div 8])"

fun glob_words :: "world \<Rightarrow> regent list \<Rightarrow> regent \<Rightarrow> nat \<Rightarrow> u64 \<Rightarrow> u64 list \<Rightarrow> nat \<Rightarrow> print list \<times> nat" where
  "glob_words w arr t g gm [] gedge = ([], gedge)"
| "glob_words w arr t g gm (a # as) gedge =
     (if \<not> gedge < 40 then ([], gedge)
      else let v = w_word w a in
        if in_target arr t v then
          let (ps, e) = glob_words w arr t g gm as (gedge + 1)
          in (OwnGlob g (a - gm) (g_ptr t) (v - g_ptr t) (g_pc t) # ps, e)
        else glob_words w arr t g gm as gedge)"

fun glob_targets :: "world \<Rightarrow> regent list \<Rightarrow> u64 \<Rightarrow> nat \<Rightarrow> u64 \<times> u64 \<Rightarrow> regent list \<Rightarrow> nat \<Rightarrow> print list \<times> nat" where
  "glob_targets w arr target g r [] gedge = ([], gedge)"
| "glob_targets w arr target g r (t # ts) gedge =
     (if \<not> gedge < 40 then ([], gedge)
      else if g_size t \<noteq> target then glob_targets w arr target g r ts gedge
      else
        let (ps, e) = glob_words w arr t g (fst r AND NOT 7) (seg_words r) gedge;
            (qs, e1) = glob_targets w arr target g r ts e
        in (ps @ qs, e1))"

definition own_globals :: "world \<Rightarrow> regent list \<Rightarrow> u64 \<Rightarrow> (u64 \<times> u64) list \<Rightarrow> print list" where
  "own_globals w arr target rng =
     concat (map (\<lambda>(g, r). OwnSeg (fst r AND NOT 7) (snd r) # fst (glob_targets w arr target g r arr 0)) (enumerate 0 rng))"

definition ownership_scan :: "world \<Rightarrow> u64 \<Rightarrow> scanner \<Rightarrow> scanner" where
  "ownership_scan w target s =
     (let arr = collect_live (live_reg s);
          (edges, ntgt, nedge) = own_targets w arr target (rev arr) 0 0
      in s\<lparr>prints := prints s @ OwnScan (length arr) target # edges @ own_globals w arr target (wr_rng s) @
             [OwnDone ntgt nedge]\<rparr>)"

subsection \<open>What an allocation triggers\<close>

text \<open>The bytes near a block of the chosen size.\<close>

definition maybe_probe :: "world \<Rightarrow> u64 \<Rightarrow> u64 \<Rightarrow> scanner \<Rightarrow> scanner" where
  "maybe_probe w n userp s =
     (if probe_size s = 0 \<or> n \<noteq> probe_size s \<or> probe_left s \<le> 0 then s
      else
        let addr = userp + word_of_int (probe_off s)
        in s\<lparr>probe_left := probe_left s - 1,
             prints := prints s @ [Probe userp n addr (map (\<lambda>i. w_byte w (addr + of_nat i)) [0..<nat (probe_len s)])]\<rparr>)"

text \<open>The engine library among the loaded ones: its executable range, and its writable segments,
  which are appended to those known already.\<close>

definition PT_LOAD :: "32 word" where "PT_LOAD = 1"
definition PF_X :: "32 word" where "PF_X = 1"
definition PF_W :: "32 word" where "PF_W = 2"

definition phdr_step :: "u64 \<Rightarrow> phdr \<Rightarrow> u64 \<times> u64 \<times> (u64 \<times> u64) list \<Rightarrow> u64 \<times> u64 \<times> (u64 \<times> u64) list" where
  "phdr_step addr ph st = (case st of (lo, hi, rng) \<Rightarrow>
     if p_type ph \<noteq> PT_LOAD then st
     else
       let b = addr + p_vaddr ph; e = b + p_memsz ph in
       if p_flags ph AND PF_X \<noteq> 0 then (if lo = 0 \<or> b < lo then b else lo, if e > hi then e else hi, rng)
       else if p_flags ph AND PF_W \<noteq> 0 \<and> length rng < NWR then (lo, hi, rng @ [(b, e)])
       else st)"

definition phdr_cb :: "loaded \<Rightarrow> (u64 \<times> u64) \<times> (u64 \<times> u64) list \<Rightarrow> (u64 \<times> u64) \<times> (u64 \<times> u64) list" where
  "phdr_cb info st = (case st of (r, rng) \<Rightarrow>
     case dlpi_name info of
       None \<Rightarrow> st
     | Some name \<Rightarrow>
         if \<not> sublist ''libwxhld.so'' name then st
         else
           let (lo, hi, rng1) = fold (phdr_step (dlpi_addr info)) (dlpi_phdr info) (0, 0, rng)
           in (if lo \<noteq> 0 then (lo, hi) else r, rng1))"

definition scan_wx_range :: "world \<Rightarrow> scanner \<Rightarrow> scanner" where
  "scan_wx_range w s =
     (let ((lo, hi), rng) = fold phdr_cb (w_libs w) ((0, 0), wr_rng s)
      in s\<lparr>wx_lo := lo, wx_hi := hi, wr_rng := rng\<rparr>)"

definition need_range :: "world \<Rightarrow> scanner \<Rightarrow> scanner" where
  "need_range w s = (if wx_lo s = 0 then scan_wx_range w s else s)"

definition own_try :: "world \<Rightarrow> u64 \<Rightarrow> nat \<Rightarrow> scanner \<Rightarrow> scanner" where
  "own_try w n i s =
     (if own_target s ! i \<noteq> 0 \<and> n = own_target s ! i \<and> 0 < own_left s ! i
      then ownership_scan w (own_target s ! i)
             (need_range w (s\<lparr>own_left := (own_left s)[i := own_left s ! i - 1]\<rparr>))
      else s)"

definition maybe_ownscan :: "world \<Rightarrow> u64 \<Rightarrow> scanner \<Rightarrow> scanner" where
  "maybe_ownscan w n s = (let s1 = need_range w s in fold (own_try w n) [0..<own_n s1] s1)"

text \<open>The first entry for the size that is not used up; one dump per allocation. Words of the stack
  that lie in the executable range are taken for return addresses.\<close>

definition maybe_stackdump :: "world \<Rightarrow> u64 \<Rightarrow> scanner \<Rightarrow> scanner" where
  "maybe_stackdump w n s =
     (case find (\<lambda>i. hit_size s ! i \<noteq> 0 \<and> n = hit_size s ! i \<and> 0 < hit_left s ! i) [0..<MAXHIT] of
        None \<Rightarrow> s
      | Some i \<Rightarrow>
          let s1 = need_range w (s\<lparr>hit_left := (hit_left s)[i := hit_left s ! i - 1]\<rparr>)
          in s1\<lparr>prints := prints s1 @
               [Stack n (w_caller w)
                 (map (\<lambda>k. (k * 8, w_frame w k)) (filter (\<lambda>k. wx_lo s1 \<le> w_frame w k \<and> w_frame w k < wx_hi s1) [0..<640]))]\<rparr>)"

definition count_new2 :: "world \<Rightarrow> u64 \<Rightarrow> u64 \<Rightarrow> scanner \<Rightarrow> scanner" where
  "count_new2 w n pc s = on_trc (count_new n pc) (maybe_ownscan w n (maybe_stackdump w n s))"

subsection \<open>Numbers and settings\<close>

text \<open>\<open>strtoul\<close> and \<open>strtol\<close> in base 16, or in the base that the prefix tells (\<open>0\<close>): sign, magnitude and
  rest, or \<open>None\<close> without digits, when the rest is the whole string.\<close>

definition digit_val :: "char \<Rightarrow> nat" where
  "digit_val c = (let v = of_char c :: nat in
     if 48 \<le> v \<and> v \<le> 57 then v - 48
     else if 97 \<le> v \<and> v \<le> 122 then v - 87
     else if 65 \<le> v \<and> v \<le> 90 then v - 55
     else 99)"

fun digits_from :: "nat \<Rightarrow> nat \<Rightarrow> string \<Rightarrow> nat \<times> string" where
  "digits_from base m [] = (m, [])"
| "digits_from base m (c # cs) =
     (if digit_val c < base then digits_from base (base * m + digit_val c) cs else (m, c # cs))"

definition hex_prefix :: "string \<Rightarrow> bool" where
  "hex_prefix s \<longleftrightarrow> 2 < length s \<and> s ! 0 = CHR ''0'' \<and> (s ! 1 = CHR ''x'' \<or> s ! 1 = CHR ''X'') \<and> digit_val (s ! 2) < 16"

definition scan_num :: "nat \<Rightarrow> string \<Rightarrow> (bool \<times> nat \<times> string) option" where
  "scan_num base s =
     (let s1 = dropWhile isspace s;
          neg = (s1 \<noteq> [] \<and> hd s1 = CHR ''-'');
          s2 = (if s1 \<noteq> [] \<and> (hd s1 = CHR ''-'' \<or> hd s1 = CHR ''+'') then tl s1 else s1);
          b = (if base = 0 then (if hex_prefix s2 then 16 else if s2 \<noteq> [] \<and> hd s2 = CHR ''0'' then 8 else 10) else base);
          s3 = (if b = 16 \<and> hex_prefix s2 then drop 2 s2 else s2)
      in if s3 \<noteq> [] \<and> digit_val (hd s3) < b then Some (neg, digits_from b 0 s3) else None)"

definition strtoul :: "nat \<Rightarrow> string \<Rightarrow> u64 \<times> string" where
  "strtoul base s = (case scan_num base s of
       None \<Rightarrow> (0, s)
     | Some (neg, m, rest) \<Rightarrow> (if 2 ^ 64 \<le> m then - 1 else if neg then - of_nat m else of_nat m, rest))"

definition strtol2 :: "nat \<Rightarrow> string \<Rightarrow> int \<times> string" where
  "strtol2 base s = (case scan_num base s of
       None \<Rightarrow> (0, s)
     | Some (neg, m, rest) \<Rightarrow> (if neg then max (- (2 ^ 63)) (- int m) else min (2 ^ 63 - 1) (int m), rest))"

definition to_int :: "u64 \<Rightarrow> int" where
  "to_int v = sint (ucast v :: 32 word)"

definition starts :: "string \<Rightarrow> char \<Rightarrow> bool" where
  "starts s c \<longleftrightarrow> s \<noteq> [] \<and> hd s = c"

text \<open>\<open>MTRACE_STACKDUMP\<close>: size, count, size, count, ..., all in base 16. \<open>k\<close> entries are left.\<close>

fun parse_hits :: "nat \<Rightarrow> string \<Rightarrow> (u64 \<times> int) list" where
  "parse_hits 0 p = []"
| "parse_hits (Suc k) p =
     (if p = [] then []
      else
        let (size, p1) = strtoul 16 p;
            (left, p2) = (if starts p1 CHR ''.'' \<or> starts p1 CHR '':''
                          then let (c, r) = strtoul 16 (tl p1) in (to_int c, r) else (0, p1));
            p3 = (if starts p2 CHR ''+'' \<or> starts p2 CHR '','' then tl p2 else p2)
        in (size, left) # parse_hits k p3)"

fun parse_owners :: "nat \<Rightarrow> string \<Rightarrow> (u64 \<times> int) list" where
  "parse_owners 0 p = []"
| "parse_owners (Suc k) p =
     (if p = [] then []
      else
        let (size, q) = strtoul 16 p;
            (left, q1) = (if starts q CHR ''.'' \<or> starts q CHR '':''
                          then let (c, r) = strtoul 16 (tl q) in (to_int c, r) else (1, q))
        in (size, left) # (if starts q1 CHR ''+'' then parse_owners k (tl q1) else []))"

text \<open>\<open>MTRACE_PROBE\<close>: size, offset, length and count, with dots in between.\<close>

definition parse_probe :: "string \<Rightarrow> scanner \<Rightarrow> scanner" where
  "parse_probe pb s =
     (let (size, q) = strtoul 16 pb; s = s\<lparr>probe_size := size\<rparr>;
          (s, q) = (if starts q CHR ''.'' then let (v, r) = strtol2 16 (tl q) in (s\<lparr>probe_off := v\<rparr>, r) else (s, q));
          (s, q) = (if starts q CHR ''.'' then let (v, r) = strtol2 16 (tl q) in (s\<lparr>probe_len := v\<rparr>, r) else (s, q))
      in if starts q CHR ''.'' then s\<lparr>probe_left := to_int (fst (strtoul 16 (tl q)))\<rparr> else s)"

text \<open>An array that a list of settings fills from the front.\<close>

definition fill :: "'a list \<Rightarrow> 'a list \<Rightarrow> 'a list" where
  "fill xs old = xs @ drop (length xs) old"

definition set_hits :: "string option \<Rightarrow> scanner \<Rightarrow> scanner" where
  "set_hits h s = (case h of None \<Rightarrow> s
     | Some p \<Rightarrow> let hs = parse_hits MAXHIT p in s\<lparr>hit_size := fill (map fst hs) (hit_size s), hit_left := fill (map snd hs) (hit_left s)\<rparr>)"

definition set_owners :: "string option \<Rightarrow> scanner \<Rightarrow> scanner" where
  "set_owners ow s = (case ow of None \<Rightarrow> s
     | Some p \<Rightarrow> let os = parse_owners MAXOWN p in
         s\<lparr>own_target := fill (map fst os) (own_target s), own_left := fill (map snd os) (own_left s), 
             own_n := (if os = [] then own_n s else length os)\<rparr>)"

subsection \<open>Allocation\<close>

text \<open>\<open>resolve\<close> in two halves, as in the other tracer; the settings are read in the second.\<close>

definition resolve_begin2 :: "scanner \<Rightarrow> scanner" where
  "resolve_begin2 s = on_trc resolve_begin s"

definition resolve_end2 :: "world \<Rightarrow> string option \<Rightarrow> string option \<Rightarrow> string option \<Rightarrow> string option \<Rightarrow> scanner \<Rightarrow> scanner" where
  "resolve_end2 w every h ow pb s =
     (if tstate (trc s) = Resolving then
        let s1 = set_owners ow (set_hits h (scan_wx_range w s));
            s2 = (case pb of None \<Rightarrow> s1 | Some p \<Rightarrow> parse_probe p s1)
        in on_trc (resolve_end (map_option (\<lambda>e. fst (strtoul 0 e)) every) None) s2
      else s)"

definition tag2 :: "world \<Rightarrow> u64 \<Rightarrow> u64 \<Rightarrow> u64 \<Rightarrow> scanner \<Rightarrow> u64 \<times> scanner" where
  "tag2 w base n pc s =
     (if base = 0 then (0, s)
      else (base + HDRSZ,
            count_new2 w n pc (maybe_probe w n (base + HDRSZ)
              (reg_add2 (base + HDRSZ) n pc (on_trc (put_hdr base n pc base) s)))))"

definition boot_alloc2 :: "u64 \<Rightarrow> u64 \<Rightarrow> scanner \<Rightarrow> u64 \<times> scanner" where
  "boot_alloc2 n align s = (let (b, t) = boot_alloc n align (trc s) in (b, s\<lparr>trc := t\<rparr>))"

definition malloc_pc2 :: "world \<Rightarrow> u64 \<Rightarrow> u64 \<Rightarrow> u64 \<Rightarrow> scanner \<Rightarrow> u64 \<times> scanner" where
  "malloc_pc2 w r n pc s =
     (if \<not> ready (trc s) then
        let (b, s1) = boot_alloc2 (n + HDRSZ) 16 s in if b = 0 then (0, s1) else tag2 w b n pc s1
      else tag2 w r n pc (on_trc (real_malloc (n + HDRSZ) r) s))"

definition calloc_pc2 :: "world \<Rightarrow> u64 \<Rightarrow> u64 \<Rightarrow> u64 \<Rightarrow> scanner \<Rightarrow> u64 \<times> scanner" where
  "calloc_pc2 w r n pc s =
     (if \<not> ready (trc s) then
        let (p, s1) = boot_alloc2 (n + HDRSZ) 16 s in if p = 0 then (0, s1) else tag2 w p n pc s1
      else
        let s1 = on_trc (real_malloc (n + HDRSZ) r) s in
        if r = 0 then (0, s1) else tag2 w r n pc s1)"

text \<open>An aligned block is counted, but not entered in the registry.\<close>

definition memalign_pc2 :: "world \<Rightarrow> u64 \<Rightarrow> u64 \<Rightarrow> u64 \<Rightarrow> u64 \<Rightarrow> scanner \<Rightarrow> u64 \<times> scanner" where
  "memalign_pc2 w r n align pc s =
     (if align \<le> 16 then malloc_pc2 w r n pc s
      else
        let (base, s1) =
          (if \<not> ready (trc s) then boot_alloc2 (n + HDRSZ + align) 16 s
           else (r, on_trc (real_malloc (n + HDRSZ + align) r) s))
        in if base = 0 then (0, s1)
           else
             let p = (base + HDRSZ + align - 1) AND NOT (align - 1)
             in (p, count_new2 w n pc (on_trc (put_hdr (p - HDRSZ) n pc base) s1)))"

definition malloc2 :: "world \<Rightarrow> u64 \<Rightarrow> u64 \<Rightarrow> u64 \<Rightarrow> scanner \<Rightarrow> u64 \<times> scanner" where
  "malloc2 w r n pc s = malloc_pc2 w r n pc s"

definition calloc2 :: "world \<Rightarrow> u64 \<Rightarrow> u64 \<Rightarrow> u64 \<Rightarrow> u64 \<Rightarrow> scanner \<Rightarrow> u64 \<times> scanner" where
  "calloc2 w r a b pc s = calloc_pc2 w r (a * b) pc s"

definition realloc2 :: "world \<Rightarrow> u64 \<Rightarrow> u64 \<Rightarrow> u64 \<Rightarrow> u64 \<Rightarrow> scanner \<Rightarrow> u64 \<times> scanner" where
  "realloc2 w r old n pc s =
     (if old = 0 then malloc2 w r n pc s
      else case has_magic old (trc s) of
          None \<Rightarrow> if \<not> ready (trc s) then boot_alloc2 n 16 s else (r, on_trc (real_realloc old n r) s)
        | Some h \<Rightarrow>
            if \<not> ready (trc s) then (0, s)
            else
              let s1 = on_trc (real_realloc (h_base h) (n + HDRSZ) r) s in
              if r = 0 then (0, s1)
              else tag2 w r n (h_pc h) (reg_del2 old (on_trc (count_del (h_size h) (h_pc h)) s1)))"

definition free2 :: "u64 \<Rightarrow> scanner \<Rightarrow> scanner" where
  "free2 p s =
     (if p = 0 \<or> in_boot p (trc s) then s
      else case has_magic p (trc s) of
          None \<Rightarrow> if ready (trc s) then on_trc (real_free p) s else s
        | Some h \<Rightarrow>
            if \<not> ready (trc s) then s
            else on_trc (real_free (h_base h)) (reg_del2 p (on_trc (count_del (h_size h) (h_pc h)) s)))"

text \<open>Operator \<open>new\<close> with and without an alignment, and operator \<open>delete\<close>.\<close>

definition operator_new2 :: "world \<Rightarrow> u64 \<Rightarrow> u64 \<Rightarrow> u64 option \<Rightarrow> u64 \<Rightarrow> scanner \<Rightarrow> u64 \<times> scanner" where
  "operator_new2 w r n align pc s =
     (case align of None \<Rightarrow> malloc_pc2 w r n pc s | Some a \<Rightarrow> memalign_pc2 w r n a pc s)"

definition operator_delete2 :: "u64 \<Rightarrow> scanner \<Rightarrow> scanner" where
  "operator_delete2 p s = free2 p s"

end
