(* ===== verification/Scan_Props.thy ===== *)
theory Scan_Props
  imports Heap_Scan
begin

unbundle bit_operations_syntax

text \<open>
  Properties of the tracer with the search for owners: what the search prints, compared with a
  reference without counters and bisection; the counting part as a refinement of the other
  tracer; and the registry of live blocks.
\<close>

subsection \<open>Bisection\<close>

lemma bisect_spec:
  assumes "sorted (map g_ptr arr)" and "0 \<le> lo" and "hi < int (length arr)" and "k = lo - 1" and "lo \<le> hi + 1"
    and "\<forall>i. 0 \<le> i \<and> i < lo \<longrightarrow> g_ptr (arr ! nat i) \<le> v"
    and "\<forall>i. hi < i \<and> i < int (length arr) \<longrightarrow> v < g_ptr (arr ! nat i)"
  shows "let m = bisect arr v lo hi k in - 1 \<le> m \<and> m < int (length arr) \<and>
    (\<forall>i. 0 \<le> i \<and> i \<le> m \<longrightarrow> g_ptr (arr ! nat i) \<le> v) \<and>
    (\<forall>i. m < i \<and> i < int (length arr) \<longrightarrow> v < g_ptr (arr ! nat i))"
  using assms
proof (induction arr v lo hi k rule: bisect.induct)
  case (1 arr v lo hi k)
  let ?mid = "(lo + hi) div 2"
  have mono: "g_ptr (arr ! nat i) \<le> g_ptr (arr ! nat j)" if "0 \<le> i" "i \<le> j" "j < int (length arr)" for i j
  proof -
    have "nat i \<le> nat j" "nat j < length arr" using that by linarith+
    then show ?thesis using "1.prems"(1) by (simp add: sorted_iff_nth_mono)
  qed
  show ?case
  proof (cases "lo \<le> hi")
    case True
    then have mid: "lo \<le> ?mid" "?mid \<le> hi" "0 \<le> ?mid" "?mid < int (length arr)" using "1.prems"(2,3) by linarith+
    show ?thesis
    proof (cases "g_ptr (arr ! nat ?mid) \<le> v")
      case c: True
      have "\<forall>i. 0 \<le> i \<and> i < ?mid + 1 \<longrightarrow> g_ptr (arr ! nat i) \<le> v"
      proof (intro allI impI)
        fix i :: int assume "0 \<le> i \<and> i < ?mid + 1"
        then show "g_ptr (arr ! nat i) \<le> v" using order_trans [OF mono [of i ?mid] c] mid(4) by linarith
      qed
      moreover have "0 \<le> ?mid + 1" "?mid = ?mid + 1 - 1" "?mid + 1 \<le> hi + 1" using mid by linarith+
      ultimately have "let m = bisect arr v (?mid + 1) hi ?mid in - 1 \<le> m \<and> m < int (length arr) \<and>
          (\<forall>i. 0 \<le> i \<and> i \<le> m \<longrightarrow> g_ptr (arr ! nat i) \<le> v) \<and>
          (\<forall>i. m < i \<and> i < int (length arr) \<longrightarrow> v < g_ptr (arr ! nat i))"
        using "1.IH"(1) [OF True refl c] "1.prems"(1,3,7) by blast
      moreover have "bisect arr v lo hi k = bisect arr v (?mid + 1) hi ?mid"
        by (subst bisect.simps) (simp only: True c if_True Let_def)
      ultimately show ?thesis by (simp only:)
    next
      case c: False
      have "\<forall>i. ?mid - 1 < i \<and> i < int (length arr) \<longrightarrow> v < g_ptr (arr ! nat i)"
      proof (intro allI impI)
        fix i :: int assume "?mid - 1 < i \<and> i < int (length arr)"
        then show "v < g_ptr (arr ! nat i)" using c mono [of ?mid i] mid(3) by (meson leI order_trans zle_diff1_eq linorder_not_le)
      qed
      moreover have "?mid - 1 < int (length arr)" "lo \<le> ?mid - 1 + 1" using mid by linarith+
      ultimately have "let m = bisect arr v lo (?mid - 1) k in - 1 \<le> m \<and> m < int (length arr) \<and>
          (\<forall>i. 0 \<le> i \<and> i \<le> m \<longrightarrow> g_ptr (arr ! nat i) \<le> v) \<and>
          (\<forall>i. m < i \<and> i < int (length arr) \<longrightarrow> v < g_ptr (arr ! nat i))"
        using "1.IH"(2) [OF True refl c] "1.prems"(1,2,4,6) by blast
      moreover have "bisect arr v lo hi k = bisect arr v lo (?mid - 1) k"
        by (subst bisect.simps) (simp only: True c if_True if_False Let_def)
      ultimately show ?thesis by (simp only:)
    qed
  next
    case False
    then have "bisect arr v lo hi k = k" by (subst bisect.simps) simp
    moreover have "lo = hi + 1" using False "1.prems"(5) by simp
    ultimately show ?thesis using "1.prems" by (auto simp: Let_def)
  qed
qed

text \<open>Blocks in ascending order that do not overlap.\<close>

definition blocks_ok :: "regent list \<Rightarrow> bool" where
  "blocks_ok arr \<longleftrightarrow> sorted_wrt (\<lambda>a b. unat (g_ptr a) < unat (g_ptr b) \<and> unat (g_ptr a) + unat (g_size a) \<le> unat (g_ptr b)) arr \<and>
     (\<forall>a \<in> set arr. unat (g_ptr a) + unat (g_size a) < 2 ^ 64)"

definition points_into :: "regent \<Rightarrow> u64 \<Rightarrow> bool" where
  "points_into t v \<longleftrightarrow> unat (g_ptr t) \<le> unat v \<and> unat v < unat (g_ptr t) + unat (g_size t)"

text \<open>What the search takes for a pointer into a block: it lies between its bounds, and no other block
  starts at a higher address that is not above the pointer.\<close>

definition owned :: "regent list \<Rightarrow> regent \<Rightarrow> u64 \<Rightarrow> bool" where
  "owned arr t v \<longleftrightarrow> g_ptr t \<le> v \<and> v < g_ptr t + g_size t \<and> \<not> (\<exists>b \<in> set arr. g_ptr t < g_ptr b \<and> g_ptr b \<le> v)"

lemma in_target_iff:
  assumes srt: "sorted (map g_ptr arr)" and t: "t \<in> set arr"
  shows "in_target arr t v \<longleftrightarrow> owned arr t v"
proof -
  define m where "m = bisect arr v 0 (int (length arr) - 1) (- 1)"
  have m: "- 1 \<le> m" "m < int (length arr)" "\<forall>i. 0 \<le> i \<and> i \<le> m \<longrightarrow> g_ptr (arr ! nat i) \<le> v"
      "\<forall>i. m < i \<and> i < int (length arr) \<longrightarrow> v < g_ptr (arr ! nat i)"
  proof -
    have "let m = bisect arr v 0 (int (length arr) - 1) (- 1) in - 1 \<le> m \<and> m < int (length arr) \<and>
        (\<forall>i. 0 \<le> i \<and> i \<le> m \<longrightarrow> g_ptr (arr ! nat i) \<le> v) \<and>
        (\<forall>i. m < i \<and> i < int (length arr) \<longrightarrow> v < g_ptr (arr ! nat i))"
      by (rule bisect_spec [OF srt]) auto
    from this [folded m_def, unfolded Let_def]
    show "- 1 \<le> m" "m < int (length arr)" "\<forall>i. 0 \<le> i \<and> i \<le> m \<longrightarrow> g_ptr (arr ! nat i) \<le> v"
      "\<forall>i. m < i \<and> i < int (length arr) \<longrightarrow> v < g_ptr (arr ! nat i)" by blast+
  qed
  have "\<not> (m < 0 \<or> g_ptr (arr ! nat m) \<noteq> g_ptr t) \<longleftrightarrow> \<not> (\<exists>b \<in> set arr. g_ptr t < g_ptr b \<and> g_ptr b \<le> v)" if le: "g_ptr t \<le> v"
  proof -
    obtain j where j: "j < length arr" "arr ! j = t" using t by (auto simp: in_set_conv_nth)
    have jm: "\<not> m < int j" using m(4) [rule_format, of "int j"] j le by (auto simp: leD)
    then have mb: "nat m < length arr" "arr ! nat m \<in> set arr" using m(2) by (auto simp: nat_less_iff)
    have up: "g_ptr (arr ! i) \<le> g_ptr (arr ! nat m)" if i: "i < length arr" "g_ptr (arr ! i) \<le> v" for i
    proof -
      have "\<not> m < int i" using m(4) [rule_format, of "int i"] i by (auto simp: leD)
      then have "i \<le> nat m" by linarith
      then show ?thesis using srt mb(1) by (simp add: sorted_iff_nth_mono)
    qed
    have "g_ptr t \<le> g_ptr (arr ! nat m)" using up [of j] j le by simp
    moreover have "g_ptr (arr ! nat m) \<le> v" using m(3) jm by simp
    moreover have "g_ptr b \<le> g_ptr (arr ! nat m)" if "b \<in> set arr" "g_ptr b \<le> v" for b
      using that up by (auto simp: in_set_conv_nth)
    ultimately have gm: "g_ptr t \<le> g_ptr (arr ! nat m)" "g_ptr (arr ! nat m) \<le> v"
      and last: "\<And>b. b \<in> set arr \<Longrightarrow> g_ptr b \<le> v \<Longrightarrow> g_ptr b \<le> g_ptr (arr ! nat m)" by blast+
    have "0 \<le> m" using jm by linarith
    moreover have "g_ptr (arr ! nat m) = g_ptr t \<longleftrightarrow> \<not> (\<exists>b \<in> set arr. g_ptr t < g_ptr b \<and> g_ptr b \<le> v)"
    proof
      assume "g_ptr (arr ! nat m) = g_ptr t"
      then show "\<not> (\<exists>b \<in> set arr. g_ptr t < g_ptr b \<and> g_ptr b \<le> v)" using last by (metis leD)
    next
      assume "\<not> (\<exists>b \<in> set arr. g_ptr t < g_ptr b \<and> g_ptr b \<le> v)"
      then have "\<not> g_ptr t < g_ptr (arr ! nat m)" using mb(2) gm(2) by blast
      then show "g_ptr (arr ! nat m) = g_ptr t" using gm(1) by (simp add: order_le_less)
    qed
    ultimately show ?thesis by simp
  qed
  then show ?thesis unfolding in_target_def Let_def m_def [symmetric] owned_def by (auto simp: not_less not_le)
qed

text \<open>For blocks that do not overlap, that is to point into the block.\<close>

lemma owned_iff:
  assumes ok: "blocks_ok arr" and t: "t \<in> set arr"
  shows "owned arr t v \<longleftrightarrow> points_into t v"
proof -
  have w: "unat (g_ptr t + g_size t) = unat (g_ptr t) + unat (g_size t)"
    using ok t by (simp add: blocks_ok_def unat_add)
  have "unat (g_ptr t) + unat (g_size t) \<le> unat (g_ptr b)" if b: "b \<in> set arr" "g_ptr t < g_ptr b" for b
  proof -
    obtain i j where ij: "i < length arr" "arr ! i = t" "j < length arr" "arr ! j = b" using t b(1) by (auto simp: in_set_conv_nth)
    have pr: "i' < j' \<Longrightarrow> j' < length arr \<Longrightarrow> unat (g_ptr (arr ! i')) < unat (g_ptr (arr ! j')) \<and>
        unat (g_ptr (arr ! i')) + unat (g_size (arr ! i')) \<le> unat (g_ptr (arr ! j'))" for i' j'
      using ok by (auto simp: blocks_ok_def sorted_wrt_iff_nth_less)
    have lt: "unat (g_ptr t) < unat (g_ptr b)" using b(2) by (simp add: word_less_nat_alt)
    have "i \<noteq> j" using ij lt by auto
    moreover have "\<not> j < i" using pr [of j i] ij lt by auto
    ultimately have "i < j" by simp
    then show ?thesis using pr [of i j] ij by auto
  qed
  then have "g_ptr t < g_ptr b \<Longrightarrow> \<not> g_ptr b \<le> v" if "unat v < unat (g_ptr t) + unat (g_size t)" "b \<in> set arr" for b
    using that by (fastforce simp: word_le_nat_alt)
  moreover have "v < g_ptr t + g_size t \<longleftrightarrow> unat v < unat (g_ptr t) + unat (g_size t)" by (simp add: word_less_nat_alt w)
  moreover have "g_ptr t \<le> v \<longleftrightarrow> unat (g_ptr t) \<le> unat v" by (simp add: word_le_nat_alt)
  ultimately show ?thesis unfolding owned_def points_into_def by blast
qed

subsection \<open>What the search prints\<close>

text \<open>The reference: for a block, the first word in its first 64 KB that points into the target.\<close>

definition edge :: "world \<Rightarrow> regent list \<Rightarrow> regent \<Rightarrow> regent \<Rightarrow> print option" where
  "edge w arr t b =
     (if g_size b < 0x18 then None
      else map_option (\<lambda>i. OwnEdge (g_ptr t) (w_word w (g_ptr b + 8 * of_nat i) - g_ptr t) (g_pc t) (g_pc b)
          (of_nat i * 8) (g_size b))
        (find (\<lambda>i. owned arr t (w_word w (g_ptr b + 8 * of_nat i))) [0..<ref_words b]))"

definition edges :: "world \<Rightarrow> regent list \<Rightarrow> regent \<Rightarrow> print list" where
  "edges w arr t = take 8 (List.map_filter (edge w arr t) arr)"

definition target_report :: "world \<Rightarrow> regent list \<Rightarrow> regent \<Rightarrow> print list" where
  "target_report w arr t = (if edges w arr t = [] then [OwnNone (g_ptr t) (g_pc t)] else edges w arr t)"

definition targets_of :: "u64 \<Rightarrow> regent list \<Rightarrow> regent list" where
  "targets_of target arr = filter (\<lambda>t. g_size t = target) arr"

definition seg_edges :: "world \<Rightarrow> regent list \<Rightarrow> nat \<Rightarrow> u64 \<times> u64 \<Rightarrow> regent \<Rightarrow> print list" where
  "seg_edges w arr g r t =
     map (\<lambda>a. OwnGlob g (a - (fst r AND NOT 7)) (g_ptr t) (w_word w a - g_ptr t) (g_pc t))
       (filter (\<lambda>a. owned arr t (w_word w a)) (seg_words r))"

definition seg_report :: "world \<Rightarrow> regent list \<Rightarrow> u64 \<Rightarrow> nat \<Rightarrow> u64 \<times> u64 \<Rightarrow> print list" where
  "seg_report w arr target g r =
     OwnSeg (fst r AND NOT 7) (snd r) # take 40 (concat (map (seg_edges w arr g r) (targets_of target arr)))"

lemma own_refs_spec:
  assumes "\<And>v. in_target arr t v \<longleftrightarrow> owned arr t v" and "refs \<le> 8" and "nedge + (8 - refs) \<le> 600"
  shows "own_refs w arr t bs refs nedge =
    (let E = take (8 - refs) (List.map_filter (edge w arr t) bs) in (E, refs + length E, nedge + length E))"
  using assms(2,3)
proof (induction bs arbitrary: refs nedge)
  case Nil
  then show ?case by (simp add: List.map_filter_def)
next
  case (Cons b bs)
  have fw: "ref_word w arr t b = find (\<lambda>i. owned arr t (w_word w (g_ptr b + 8 * of_nat i))) [0..<ref_words b]"
    by (simp add: ref_word_def assms(1))
  show ?case
  proof (cases "refs < 8")
    case False
    then show ?thesis by (simp add: Let_def)
  next
    case True
    then have go: "refs < 8 \<and> nedge < 600" using Cons.prems by linarith
    show ?thesis
    proof (cases "edge w arr t b")
      case None
      then have "own_refs w arr t (b # bs) refs nedge = own_refs w arr t bs refs nedge"
        using go by (auto simp: edge_def fw split: if_splits option.splits)
      then show ?thesis using Cons.IH [OF Cons.prems] None by (simp add: List.map_filter_simps)
    next
      case (Some x)
      have "refs + 1 \<le> 8" "nedge + 1 + (8 - (refs + 1)) \<le> 600" using Cons.prems True by linarith+
      note IH = Cons.IH [OF this]
      have "own_refs w arr t (b # bs) refs nedge =
          (let (ps, r, n) = own_refs w arr t bs (refs + 1) (nedge + 1) in (x # ps, r, n))"
        using go Some by (auto simp: edge_def fw Let_def split: if_splits option.splits)
      moreover have "8 - refs = Suc (8 - (refs + 1))" using True by simp
      ultimately show ?thesis using Some unfolding IH by (simp add: List.map_filter_simps Let_def)
    qed
  qed
qed

lemma edges_le: "length (edges w arr t) \<le> 8"
  by (simp add: edges_def)

lemma own_targets_spec:
  assumes "\<And>t v. t \<in> set ts \<Longrightarrow> in_target arr t v \<longleftrightarrow> owned arr t v" and "nedge \<le> 8 * min ntgt 8"
  shows "own_targets w arr target ts ntgt nedge =
    (let T = take (8 - ntgt) (targets_of target ts)
     in (concat (map (target_report w arr) T), ntgt + length (targets_of target ts),
         nedge + sum_list (map (length \<circ> edges w arr) T)))"
  using assms
proof (induction ts arbitrary: ntgt nedge)
  case Nil
  then show ?case by (simp add: targets_of_def)
next
  case (Cons t ts)
  have le: "nedge < 600" using Cons.prems(2) by linarith
  consider "g_size t \<noteq> target" | "g_size t = target" "8 \<le> ntgt" | "g_size t = target" "ntgt < 8" by linarith
  then show ?case
  proof cases
    case 1
    then show ?thesis using Cons le by (simp add: targets_of_def)
  next
    case 2
    then have "nedge \<le> 8 * min (ntgt + 1) 8" using Cons.prems(2) by linarith
    then show ?thesis using Cons 2 le by (simp add: targets_of_def)
  next
    case 3
    have r: "own_refs w arr t arr 0 nedge = (edges w arr t, length (edges w arr t), nedge + length (edges w arr t))"
      using own_refs_spec [of arr t 0 nedge w arr] Cons.prems 3 by (simp add: edges_def Let_def)
    have "nedge + length (edges w arr t) \<le> 8 * min (ntgt + 1) 8" using Cons.prems(2) edges_le [of w arr t] 3 by (simp add: min_def split: if_splits)
    note IH = Cons.IH [OF Cons.prems(1) this]
    have "8 - ntgt = Suc (8 - (ntgt + 1))" using 3 by simp
    then show ?thesis using 3 le IH r
      by (simp add: targets_of_def target_report_def Let_def)
  qed
qed

lemma glob_words_spec:
  assumes "\<And>v. in_target arr t v \<longleftrightarrow> owned arr t v"
  shows "glob_words w arr t g gm as gedge =
    (let E = take (40 - gedge) (map (\<lambda>a. OwnGlob g (a - gm) (g_ptr t) (w_word w a - g_ptr t) (g_pc t))
       (filter (\<lambda>a. owned arr t (w_word w a)) as)) in (E, gedge + length E))"
proof (induction as arbitrary: gedge)
  case Nil
  then show ?case by simp
next
  case (Cons a as)
  show ?case
  proof (cases "gedge < 40 \<and> owned arr t (w_word w a)")
    case True
    then have "40 - gedge = Suc (40 - (gedge + 1))" by arith
    then show ?thesis using True Cons.IH [of "gedge + 1"] by (simp add: assms Let_def)
  next
    case False
    then show ?thesis using Cons.IH [of gedge] by (auto simp: assms Let_def)
  qed
qed

lemma glob_targets_spec:
  assumes "\<And>t v. t \<in> set ts \<Longrightarrow> in_target arr t v \<longleftrightarrow> owned arr t v"
  shows "glob_targets w arr target g r ts gedge =
    (let E = take (40 - gedge) (concat (map (seg_edges w arr g r) (targets_of target ts))) in (E, gedge + length E))"
  using assms
proof (induction ts arbitrary: gedge)
  case Nil
  then show ?case by (simp add: targets_of_def)
next
  case (Cons t ts)
  show ?case
  proof (cases "gedge < 40 \<and> g_size t = target")
    case True
    let ?E = "take (40 - gedge) (seg_edges w arr g r t)"
    have "glob_words w arr t g (fst r AND NOT 7) (seg_words r) gedge = (?E, gedge + length ?E)"
      using glob_words_spec [of arr t] Cons.prems by (simp add: seg_edges_def Let_def)
    then show ?thesis using True Cons.IH [of "gedge + length ?E"] Cons.prems
      by (simp add: targets_of_def Let_def min_def)
  next
    case False
    then show ?thesis using Cons.IH [of gedge] Cons.prems by (auto simp: targets_of_def Let_def)
  qed
qed


subsection \<open>The blocks in the registry\<close>

text \<open>Entries of different slots are blocks that do not overlap, and none reaches the end of the
  address space.\<close>

definition registry_ok :: "(nat \<Rightarrow> regent) \<Rightarrow> bool" where
  "registry_ok reg \<longleftrightarrow>
     (\<forall>i < REG_SLOTS. g_ptr (reg i) \<noteq> 0 \<longrightarrow> unat (g_ptr (reg i)) + unat (g_size (reg i)) < 2 ^ 64 \<and>
       (\<forall>j < REG_SLOTS. j \<noteq> i \<and> g_ptr (reg j) \<noteq> 0 \<longrightarrow> g_ptr (reg j) \<noteq> g_ptr (reg i) \<and>
          (unat (g_ptr (reg i)) + unat (g_size (reg i)) \<le> unat (g_ptr (reg j)) \<or>
           unat (g_ptr (reg j)) + unat (g_size (reg j)) \<le> unat (g_ptr (reg i)))))"

definition entries :: "(nat \<Rightarrow> regent) \<Rightarrow> regent list" where
  "entries reg = filter (\<lambda>e. g_ptr e \<noteq> 0) (map reg [0..<REG_SLOTS])"

lemma set_collect_live:
  "set (collect_live reg) \<subseteq> set (entries reg)"
  "length (entries reg) \<le> REG_SLOTS div 2 \<Longrightarrow> set (collect_live reg) = set (entries reg)"
  by (auto simp: collect_live_def entries_def dest: in_set_takeD)

lemma collect_live_ok:
  assumes ok: "registry_ok reg"
  shows "blocks_ok (collect_live reg)"
proof -
  let ?D = "\<lambda>a b. g_ptr a \<noteq> g_ptr b \<and> (unat (g_ptr a) + unat (g_size a) \<le> unat (g_ptr b) \<or>
    unat (g_ptr b) + unat (g_size b) \<le> unat (g_ptr a))"
  let ?arr = "collect_live reg"
  have fit: "unat (g_ptr a) + unat (g_size a) < 2 ^ 64" if "a \<in> set (entries reg)" for a
    using that ok by (auto simp: entries_def registry_ok_def)
  have two: "?D a b" if ab: "a \<in> set (entries reg)" "b \<in> set (entries reg)" "a \<noteq> b" for a b
  proof -
    obtain i where i: "i < REG_SLOTS" "a = reg i" "g_ptr (reg i) \<noteq> 0" using ab(1) by (auto simp: entries_def)
    obtain j where j: "j < REG_SLOTS" "b = reg j" "g_ptr (reg j) \<noteq> 0" using ab(2) by (auto simp: entries_def)
    have "j \<noteq> i" using i j ab(3) by blast
    then have "g_ptr (reg j) \<noteq> g_ptr (reg i) \<and> (unat (g_ptr (reg i)) + unat (g_size (reg i)) \<le> unat (g_ptr (reg j)) \<or>
        unat (g_ptr (reg j)) + unat (g_size (reg j)) \<le> unat (g_ptr (reg i)))"
      using ok [unfolded registry_ok_def, rule_format, OF i(1) i(3)] j by blast
    then show ?thesis unfolding i(2) j(2) by (blast dest: sym)
  qed
  have "inj_on reg {i. i < REG_SLOTS \<and> g_ptr (reg i) \<noteq> 0}"
    using ok unfolding registry_ok_def by (intro inj_onI) (metis (mono_tags, lifting) mem_Collect_eq)
  moreover have "entries reg = map reg (filter (\<lambda>i. g_ptr (reg i) \<noteq> 0) [0..<REG_SLOTS])"
    by (simp add: entries_def filter_map comp_def)
  ultimately have "distinct (entries reg)" by (simp add: distinct_map inj_on_def)
  then have d: "distinct ?arr" unfolding collect_live_def entries_def [symmetric] by simp
  have srt: "sorted (map g_ptr ?arr)" by (simp add: collect_live_def)
  have "unat (g_ptr (?arr ! i)) < unat (g_ptr (?arr ! j)) \<and>
      unat (g_ptr (?arr ! i)) + unat (g_size (?arr ! i)) \<le> unat (g_ptr (?arr ! j))" if ij: "i < j" "j < length ?arr" for i j
  proof -
    have "?arr ! i \<noteq> ?arr ! j" using d ij by (simp add: nth_eq_iff_index_eq)
    moreover have "?arr ! i \<in> set (entries reg)" "?arr ! j \<in> set (entries reg)"
      using set_collect_live(1) ij by (meson dual_order.strict_trans nth_mem subsetD)+
    ultimately have "?D (?arr ! i) (?arr ! j)" by (intro two)
    moreover have "g_ptr (?arr ! i) \<le> g_ptr (?arr ! j)" using srt ij by (simp add: sorted_iff_nth_mono)
    ultimately show ?thesis by (auto simp: word_le_nat_alt order_le_less word_unat_eq_iff)
  qed
  then show ?thesis
    unfolding blocks_ok_def sorted_wrt_iff_nth_less using fit set_collect_live(1) by blast
qed

text \<open>C11. The search for owners. Whatever is in the registry, what \<open>ownership_scan\<close> prints, with its
  bisection, counters and limits, is this: for each of the eight targets (blocks of the size asked for)
  with the highest addresses, the at most eight blocks with the lowest addresses that hold a pointer
  into the target among their first 64 KB, each with the first such pointer, or a line that says that
  there is none; for each data segment the first forty pointers into any target; the number of all
  targets and of the edges printed. All entries take part, up to half the size of the registry. A
  pointer counts for a block when it lies between its bounds and no other entry starts between the
  address of the block and the pointer. When the entries are blocks that do not overlap this says that
  it points into the block; when a stale entry lies inside a newer block (or the other way round), the
  pointers into the outer one behind the start of the inner one are not reported for it. (Entries with
  the same address are in the order in which the sort leaves them.)\<close>

theorem owners_found:
  shows "let arr = collect_live (live_reg s); T = targets_of target (rev arr) in
    (length (entries (live_reg s)) \<le> REG_SLOTS div 2 \<longrightarrow> set arr = set (entries (live_reg s))) \<and>
    sorted (map g_ptr arr) \<and>
    prints (ownership_scan w target s) = prints s @
      [OwnScan (length arr) target] @
      concat (map (target_report w arr) (take 8 T)) @
      concat (map (\<lambda>(g, r). seg_report w arr target g r) (enumerate 0 (wr_rng s))) @
      [OwnDone (length T) (sum_list (map (length \<circ> edges w arr) (take 8 T)))] \<and>
    (registry_ok (live_reg s) \<longrightarrow> (\<forall>t \<in> set arr. \<forall>v. owned arr t v \<longleftrightarrow> points_into t v))"
proof -
  let ?arr = "collect_live (live_reg s)"
  have srt: "sorted (map g_ptr ?arr)" by (simp add: collect_live_def)
  have it: "in_target ?arr t v \<longleftrightarrow> owned ?arr t v" if "t \<in> set ?arr" for t v using in_target_iff [OF srt that] .
  have T: "own_targets w ?arr target (rev ?arr) 0 0 =
     (concat (map (target_report w ?arr) (take 8 (targets_of target (rev ?arr)))), length (targets_of target (rev ?arr)),
      sum_list (map (length \<circ> edges w ?arr) (take 8 (targets_of target (rev ?arr)))))"
    using own_targets_spec [of "rev ?arr" ?arr 0 0 w target] it by (simp add: Let_def)
  have "fst (glob_targets w ?arr target g r ?arr 0) = take 40 (concat (map (seg_edges w ?arr g r) (targets_of target ?arr)))" for g r
    using glob_targets_spec [of ?arr ?arr w target g r 0] it by (simp add: Let_def)
  then have G: "own_globals w ?arr target (wr_rng s) =
      concat (map (\<lambda>(g, r). seg_report w ?arr target g r) (enumerate 0 (wr_rng s)))"
    by (simp add: own_globals_def seg_report_def)
  have "registry_ok (live_reg s) \<longrightarrow> (\<forall>t \<in> set ?arr. \<forall>v. owned ?arr t v \<longleftrightarrow> points_into t v)"
    using owned_iff collect_live_ok by blast
  then show ?thesis
    using srt set_collect_live(2) [of "live_reg s"] by (simp add: ownership_scan_def Let_def T G)
qed

text \<open>The entries stay blocks that do not overlap as long as the new ones do not overlap the entries that
  are there: adding and deleting keep it. (A deletion that misses its entry, see \<open>stale_block\<close>, leaves an
  entry that a later block may overlap.)\<close>

lemma registry_ok_del: "registry_ok reg \<Longrightarrow> registry_ok (reg_del_from p i k reg)"
  by (induction k arbitrary: i) (auto simp: registry_ok_def Let_def)

lemma reg_slot_range: "reg_slot p i < REG_SLOTS"
proof -
  have "unat (x AND 0x7ffff) < 0x80000" for x :: u64
  proof -
    have "x AND 0x7ffff \<le> 0x7ffff" by (rule word_and_le1)
    then have "unat (x AND 0x7ffff) \<le> unat (0x7ffff :: u64)" by (simp only: word_le_nat_alt)
    then show ?thesis by simp
  qed
  then show ?thesis by (simp add: reg_slot_def REG_SLOTS_def)
qed

lemma registry_ok_add:
  assumes "registry_ok reg" and "unat p + unat n < 2 ^ 64"
    and "\<And>j. j < REG_SLOTS \<Longrightarrow> g_ptr (reg j) \<noteq> 0 \<Longrightarrow> g_ptr (reg j) \<noteq> p \<and>
      (unat p + unat n \<le> unat (g_ptr (reg j)) \<or> unat (g_ptr (reg j)) + unat (g_size (reg j)) \<le> unat p)"
  shows "registry_ok (reg_add_from p n pc i k reg)"
proof (induction k arbitrary: i)
  case (Suc k)
  let ?s = "reg_slot p i"
  have lt: "?s < REG_SLOTS" by (rule reg_slot_range)
  show ?case
  proof (cases "g_ptr (reg ?s) = 0")
    case True
    have "registry_ok (reg(?s := \<lparr>g_ptr = p, g_size = n, g_pc = pc\<rparr>))"
      unfolding registry_ok_def using assms by (auto simp: registry_ok_def)
    then show ?thesis using True by (simp add: Let_def del: fun_upd_apply)
  next
    case False
    then show ?thesis using Suc assms(3) [OF lt] by (simp add: Let_def)
  qed
qed (simp add: assms(1))

lemma entries_sparse:
  assumes "sorted js" and "distinct js" and "\<And>i. i \<in> set js \<longleftrightarrow> i < REG_SLOTS \<and> g_ptr (reg i) \<noteq> 0"
  shows "entries reg = map reg js"
proof -
  let ?is = "filter (\<lambda>i. g_ptr (reg i) \<noteq> 0) [0..<REG_SLOTS]"
  have "set ?is = set js" using assms(3) by auto
  moreover have "sorted ?is" "distinct ?is" by (simp_all add: sorted_wrt_filter)
  ultimately have "?is = js" using assms(1,2) by (intro sorted_distinct_set_unique)
  then show ?thesis by (simp add: entries_def filter_map comp_def)
qed

definition empty_ent :: regent where
  "empty_ent = \<lparr>g_ptr = 0, g_size = 0, g_pc = 0\<rparr>"

definition start_scanner :: "u64 \<Rightarrow> scanner" where
  "start_scanner b =
     \<lparr>trc = start_tracer b, hit_size = replicate MAXHIT 0, hit_left = replicate MAXHIT 0, wx_lo = 0, wx_hi = 0,
      wr_rng = [], live_reg = (\<lambda>_. empty_ent), own_target = replicate MAXOWN 0, own_left = replicate MAXOWN 0,
      own_n = 0, probe_off = 0, probe_len = 0, probe_left = 0, probe_size = 0, prints = []\<rparr>"

definition two_blocks :: scanner where
  "two_blocks = (start_scanner 4096)\<lparr>live_reg := (\<lambda>_. empty_ent)
     (5 := \<lparr>g_ptr = 0x2000, g_size = 0x20, g_pc = 7\<rparr>, 9 := \<lparr>g_ptr = 0x1000, g_size = 0x40, g_pc = 3\<rparr>)\<rparr>"

definition small_world :: world where
  "small_world = \<lparr>w_word = (\<lambda>_. 0)(0x1008 := 0x2010), w_byte = (\<lambda>_. 0), w_frame = (\<lambda>_. 0), w_caller = 0, w_libs = []\<rparr>"

theorem owners_found_witness:
  "prints (ownership_scan small_world 0x20 two_blocks) =
     [OwnScan 2 0x20, OwnEdge 0x2000 0x10 7 3 8 0x40, OwnDone 1 1]"
proof -
  let ?A = "\<lparr>g_ptr = 0x2000, g_size = 0x20, g_pc = 7\<rparr>" and ?B = "\<lparr>g_ptr = 0x1000, g_size = 0x40, g_pc = 3\<rparr>"
  have in_reg: "5 < REG_SLOTS" "9 < REG_SLOTS" by (simp_all add: REG_SLOTS_def)
  have e: "entries (live_reg two_blocks) = [?A, ?B]"
    using in_reg by (subst entries_sparse [of "[5, 9]"]) (auto simp: two_blocks_def empty_ent_def split: if_splits)
  then have arr: "collect_live (live_reg two_blocks) = [?B, ?A]"
    unfolding collect_live_def entries_def [symmetric] by (simp add: REG_SLOTS_def)
  have ok: "registry_ok (live_reg two_blocks)"
    by (auto simp: registry_ok_def two_blocks_def empty_ent_def split: if_splits)
  note found = owners_found [where s = two_blocks and target = "0x20" and w = small_world, unfolded arr Let_def]
  have into: "owned [?B, ?A] t v \<longleftrightarrow> points_into t v" if "t = ?A \<or> t = ?B" for t v
    using found ok that by (elim conjE disjE) simp_all
  show ?thesis using found into
    by (simp add: targets_of_def target_report_def edges_def edge_def List.map_filter_simps ref_words_def points_into_def
        small_world_def two_blocks_def start_scanner_def upt_conv_Cons)
qed

subsection \<open>Refinement of the counting tracer\<close>

text \<open>One call of the program, by its arguments and the answer of the real allocator.\<close>

datatype acall =
    Malloc u64 u64 u64              \<comment> \<open>answer, size, call site\<close>
  | Calloc u64 u64 u64 u64
  | New u64 u64 "u64 option" u64    \<comment> \<open>with an alignment or without\<close>
  | Realloc u64 u64 u64 u64
  | Free u64
  | Delete u64
  | ResolveBegin
  | ResolveEnd "string option" "string option" "string option" "string option"

fun trace_call :: "acall \<Rightarrow> tracer \<Rightarrow> u64 \<times> tracer" where
  "trace_call (Malloc r n pc) t = malloc r n pc t"
| "trace_call (Calloc r a b pc) t = calloc r a b pc t"
| "trace_call (New r n al pc) t = operator_new r n al pc t"
| "trace_call (Realloc r p n pc) t = realloc r p n pc t"
| "trace_call (Free p) t = (0, free p t)"
| "trace_call (Delete p) t = (0, operator_delete p t)"
| "trace_call ResolveBegin t = (0, resolve_begin t)"
| "trace_call (ResolveEnd every h ow pb) t = (0, resolve_end (map_option (\<lambda>e. fst (strtoul 0 e)) every) None t)"

fun scan_call :: "world \<Rightarrow> acall \<Rightarrow> scanner \<Rightarrow> u64 \<times> scanner" where
  "scan_call w (Malloc r n pc) s = malloc2 w r n pc s"
| "scan_call w (Calloc r a b pc) s = calloc2 w r a b pc s"
| "scan_call w (New r n al pc) s = operator_new2 w r n al pc s"
| "scan_call w (Realloc r p n pc) s = realloc2 w r p n pc s"
| "scan_call w (Free p) s = (0, free2 p s)"
| "scan_call w (Delete p) s = (0, operator_delete2 p s)"
| "scan_call w ResolveBegin s = (0, resolve_begin2 s)"
| "scan_call w (ResolveEnd every h ow pb) s = (0, resolve_end2 w every h ow pb s)"

named_theorems trc_simps

lemma trc_on_trc [trc_simps]: "trc (on_trc f s) = f (trc s)"
  by (simp add: on_trc_def)

lemma trc_reg [trc_simps]: "trc (reg_add2 p n pc s) = trc s" "trc (reg_del2 p s) = trc s"
  by (simp_all add: reg_add2_def reg_del2_def)

lemma trc_probe [trc_simps]: "trc (maybe_probe w n p s) = trc s"
  by (simp add: maybe_probe_def Let_def)

lemma trc_range [trc_simps]: "trc (scan_wx_range w s) = trc s" "trc (need_range w s) = trc s"
  by (simp_all add: scan_wx_range_def need_range_def Let_def split: prod.splits)

lemma trc_own_try [trc_simps]: "trc (own_try w n i s) = trc s"
  by (simp add: own_try_def ownership_scan_def trc_simps Let_def split: prod.splits)

lemma trc_ownscan [trc_simps]: "trc (maybe_ownscan w n s) = trc s"
proof -
  have "trc (fold (own_try w n) is t) = trc t" for "is" t
    by (induction "is" arbitrary: t) (simp_all add: trc_simps)
  then show ?thesis by (simp add: maybe_ownscan_def Let_def trc_simps)
qed

lemma trc_stackdump [trc_simps]: "trc (maybe_stackdump w n s) = trc s"
  by (simp add: maybe_stackdump_def Let_def trc_simps split: option.splits)

lemma trc_count_new [trc_simps]: "trc (count_new2 w n pc s) = count_new n pc (trc s)"
  by (simp add: count_new2_def trc_simps)

lemma trc_boot [trc_simps]: "boot_alloc2 n a s = (fst (boot_alloc n a (trc s)), s\<lparr>trc := snd (boot_alloc n a (trc s))\<rparr>)"
  by (simp add: boot_alloc2_def split: prod.splits)

lemma trc_settings [trc_simps]:
  "trc (set_hits h s) = trc s" "trc (set_owners ow s) = trc s" "trc (parse_probe pb s) = trc s"
  by (simp_all add: set_hits_def set_owners_def parse_probe_def Let_def split: option.splits prod.splits)


lemma bt_count [trc_simps]: "bt_min (count_new n pc t) = bt_min t" "bt_min (count_del n pc t) = bt_min t"
  by (simp_all add: count_new_def count_del_def dump_def Let_def)

lemma bt_calls [trc_simps]:
  "bt_min (real_malloc n r t) = bt_min t" "bt_min (real_realloc b n r t) = bt_min t" "bt_min (real_free b t) = bt_min t"
  "bt_min (put_hdr a n pc b t) = bt_min t" "bt_min (resolve_begin t) = bt_min t" "bt_min (resolve_end e None t) = bt_min t"
  by (simp_all add: real_malloc_def real_realloc_def real_free_def put_hdr_def resolve_begin_def resolve_end_def)

lemma bt_boot [trc_simps]: "bt_min (snd (boot_alloc n a t)) = bt_min t"
  by (simp add: boot_alloc_def Let_def)

text \<open>Without the ring of large blocks, a block is entered by its header and the counters.\<close>

lemma tag_plain:
  "bt_min t = 0 \<Longrightarrow> tag b n pc t = (if b = 0 then (0, t) else (b + HDRSZ, count_new n pc (put_hdr b n pc b t)))"
  by (simp add: tag_def Let_def trc_simps)

definition same :: "u64 \<times> tracer \<Rightarrow> u64 \<times> scanner \<Rightarrow> bool" where
  "same x y \<longleftrightarrow> fst x = fst y \<and> snd x = trc (snd y) \<and> bt_min (snd x) = 0"

lemma same_tag: "bt_min (trc s) = 0 \<Longrightarrow> same (tag b n pc (trc s)) (tag2 w b n pc s)"
  by (simp add: same_def tag_plain tag2_def trc_simps)

lemma same_malloc_pc: "bt_min (trc s) = 0 \<Longrightarrow> same (malloc_pc r n pc (trc s)) (malloc_pc2 w r n pc s)"
proof -
  assume b: "bt_min (trc s) = 0"
  obtain p t where a: "boot_alloc (n + HDRSZ) 16 (trc s) = (p, t)" by fastforce
  then have "bt_min t = 0" using b bt_boot [of "n + HDRSZ" 16 "trc s"] by simp
  then show ?thesis
    using b a same_tag [of "s\<lparr>trc := t\<rparr>" p n pc w] same_tag [of "on_trc (real_malloc (n + HDRSZ) r) s" r n pc w]
    by (auto simp: malloc_pc_def malloc_pc2_def trc_simps Let_def same_def)
qed

lemma same_calloc_pc: "bt_min (trc s) = 0 \<Longrightarrow> same (calloc_pc r n pc (trc s)) (calloc_pc2 w r n pc s)"
proof -
  assume b: "bt_min (trc s) = 0"
  have "calloc_pc2 w r n pc s = malloc_pc2 w r n pc s"
    by (simp add: calloc_pc2_def malloc_pc2_def tag2_def Let_def)
  then show ?thesis using same_malloc_pc [OF b] by (simp add: calloc_malloc)
qed

lemma same_memalign_pc: "bt_min (trc s) = 0 \<Longrightarrow> same (memalign_pc r n al pc (trc s)) (memalign_pc2 w r n al pc s)"
proof -
  assume b: "bt_min (trc s) = 0"
  obtain p t where a: "boot_alloc (n + HDRSZ + al) 16 (trc s) = (p, t)" by fastforce
  then have "bt_min t = 0" using b bt_boot [of "n + HDRSZ + al" 16 "trc s"] by simp
  then show ?thesis using b a same_malloc_pc [OF b, of r n pc w]
    by (cases "al \<le> 16"; cases "ready (trc s)") (auto simp: memalign_pc_def memalign_pc2_def same_def trc_simps Let_def)
qed

lemma same_realloc: "bt_min (trc s) = 0 \<Longrightarrow> same (realloc r p n pc (trc s)) (realloc2 w r p n pc s)"
proof -
  assume b: "bt_min (trc s) = 0"
  have t: "same (tag r n (h_pc h) (count_del (h_size h) (h_pc h) (real_realloc (h_base h) (n + HDRSZ) r (trc s))))
      (tag2 w r n (h_pc h) (reg_del2 p (on_trc (count_del (h_size h) (h_pc h)) (on_trc (real_realloc (h_base h) (n + HDRSZ) r) s))))" for h
    using same_tag [of "reg_del2 p (on_trc (count_del (h_size h) (h_pc h)) (on_trc (real_realloc (h_base h) (n + HDRSZ) r) s))" r n "h_pc h" w] b
    by (simp add: trc_simps)
  show ?thesis
  proof (cases "p = 0")
    case True
    then show ?thesis using same_malloc_pc [OF b] by (simp add: realloc_def realloc2_def malloc2_def)
  next
    case False
    then show ?thesis
    proof (cases "has_magic p (trc s)")
      case None
      then show ?thesis using False b by (simp add: realloc_def realloc2_def same_def trc_simps)
    next
      case (Some h)
      then show ?thesis using False b t [of h] by (auto simp: realloc_def realloc2_def same_def trc_simps Let_def)
    qed
  qed
qed

lemma same_free: "bt_min (trc s) = 0 \<Longrightarrow> same (0, free p (trc s)) (0, free2 p s)"
  by (simp add: same_def free_def free2_def trc_simps split: option.splits)

lemma same_call: "bt_min (trc s) = 0 \<Longrightarrow> same (trace_call c (trc s)) (scan_call w c s)"
proof (cases c)
  case (New r n al pc)
  then show "bt_min (trc s) = 0 \<Longrightarrow> ?thesis"
    by (cases al) (simp_all add: operator_new_def operator_new2_def same_malloc_pc same_memalign_pc)
qed (simp_all add: malloc_def malloc2_def calloc_def calloc2_def same_malloc_pc same_calloc_pc same_realloc same_free
    operator_delete_def operator_delete2_def, simp_all add: same_def resolve_begin2_def resolve_end2_def resolve_end_def
    trc_simps Let_def split: option.splits)

text \<open>C30. The search only looks. Over any sequence of calls, whatever is in memory and on the stack and
  whichever libraries are loaded, the tracer with the search gives the program the same addresses,
  calls the real allocator in the same way and keeps the same headers, counters, histogram, call sites
  and reports as the tracer without it (with its ring of large blocks switched off).\<close>

theorem scanner_refines_tracer:
  assumes "bt_min (trc s) = 0"
  shows "run_list trace_call (map snd cs) (trc s) =
    (fst (run_list (\<lambda>(w, c). scan_call w c) cs s), trc (snd (run_list (\<lambda>(w, c). scan_call w c) cs s)))"
  using assms
proof (induction cs arbitrary: s)
  case Nil
  then show ?case by simp
next
  case (Cons x cs)
  obtain w c where x: "x = (w, c)" by (cases x)
  obtain a s1 where sc: "scan_call w c s = (a, s1)" by (cases "scan_call w c s")
  then have "trace_call c (trc s) = (a, trc s1)" "bt_min (trc s1) = 0"
    using same_call [OF Cons.prems, of c w] by (auto simp: same_def prod_eq_iff)
  then show ?case using Cons.IH [of s1] sc by (simp add: x split: prod.splits)
qed

theorem scanner_refines_tracer_witness:
  "run_list trace_call [Malloc 0 24 7] (start_tracer 4096) =
     (fst (scan_call small_world (Malloc 0 24 7) (start_scanner 4096)) # [],
      trc (snd (scan_call small_world (Malloc 0 24 7) (start_scanner 4096))))"
  using scanner_refines_tracer [of "start_scanner 4096" "[(small_world, Malloc 0 24 7)]"]
  by (simp add: start_scanner_def start_tracer_def split: prod.splits)


subsection \<open>The registry\<close>

text \<open>Both walks stop at the first slot of the chain that is empty or holds the address.\<close>

definition walk :: "(nat \<Rightarrow> regent) \<Rightarrow> u64 \<Rightarrow> nat option" where
  "walk reg p = find (\<lambda>i. g_ptr (reg (reg_slot p i)) = 0 \<or> g_ptr (reg (reg_slot p i)) = p) [0..<64]"

lemma reg_add_walk_from:
  "reg_add_from p n pc i k reg =
     (case find (\<lambda>i. g_ptr (reg (reg_slot p i)) = 0 \<or> g_ptr (reg (reg_slot p i)) = p) [i..<i + k] of
        None \<Rightarrow> reg | Some j \<Rightarrow> reg(reg_slot p j := \<lparr>g_ptr = p, g_size = n, g_pc = pc\<rparr>))"
proof (induction k arbitrary: i)
  case 0
  then show ?case by simp
next
  case (Suc k)
  show ?case using Suc.IH [of "Suc i"]
    by (cases "reg (reg_slot p i)") (auto simp: Let_def upt_conv_Cons simp del: upt_Suc)
qed

lemma reg_del_walk_from:
  assumes "p \<noteq> 0"
  shows "reg_del_from p i k reg =
     (case find (\<lambda>i. g_ptr (reg (reg_slot p i)) = 0 \<or> g_ptr (reg (reg_slot p i)) = p) [i..<i + k] of
        None \<Rightarrow> reg
      | Some j \<Rightarrow> if g_ptr (reg (reg_slot p j)) = p then reg(reg_slot p j := (reg (reg_slot p j))\<lparr>g_ptr := 0\<rparr>) else reg)"
proof (induction k arbitrary: i)
  case 0
  then show ?case by simp
next
  case (Suc k)
  show ?case using Suc.IH [of "Suc i"] assms by (auto simp: Let_def upt_conv_Cons simp del: upt_Suc)
qed

lemma reg_add_walk:
  "p \<noteq> 0 \<Longrightarrow> live_reg (reg_add2 p n pc s) = (case walk (live_reg s) p of
     None \<Rightarrow> live_reg s | Some j \<Rightarrow> (live_reg s)(reg_slot p j := \<lparr>g_ptr = p, g_size = n, g_pc = pc\<rparr>))"
  using reg_add_walk_from [of p n pc 0 64 "live_reg s"] by (simp add: reg_add2_def walk_def)

lemma reg_del_walk:
  "p \<noteq> 0 \<Longrightarrow> live_reg (reg_del2 p s) = (case walk (live_reg s) p of
     None \<Rightarrow> live_reg s
   | Some j \<Rightarrow> if g_ptr (live_reg s (reg_slot p j)) = p
               then (live_reg s)(reg_slot p j := (live_reg s (reg_slot p j))\<lparr>g_ptr := 0\<rparr>) else live_reg s)"
  using reg_del_walk_from [of p 0 64 "live_reg s"] by (simp add: reg_del2_def walk_def)

text \<open>Every entry is where the walk for its address finds it.\<close>

definition chains_ok :: "(nat \<Rightarrow> regent) \<Rightarrow> bool" where
  "chains_ok reg \<longleftrightarrow> (\<forall>x. g_ptr (reg x) \<noteq> 0 \<longrightarrow> (\<exists>i. walk reg (g_ptr (reg x)) = Some i \<and> reg_slot (g_ptr (reg x)) i = x))"

lemma chains_unique:
  "chains_ok reg \<Longrightarrow> g_ptr (reg x) = g_ptr (reg y) \<Longrightarrow> g_ptr (reg x) \<noteq> 0 \<Longrightarrow> x = y"
  unfolding chains_ok_def by (metis option.inject)

lemma walk_fill:
  assumes "walk reg q = Some i" and "g_ptr (reg (reg_slot q i)) = q" and "g_ptr (reg x) = 0" and "q \<noteq> 0"
  shows "walk (reg(x := e)) q = Some i"
proof -
  have i: "i \<in> set [0..<64]" "\<forall>j < i. g_ptr (reg (reg_slot q j)) \<noteq> 0 \<and> g_ptr (reg (reg_slot q j)) \<noteq> q"
    using assms(1) by (auto simp: walk_def find_Some_iff)
  have "reg_slot q j = x \<Longrightarrow> False" if "j \<le> i" for j
    using i(2) assms(2,3,4) that by (cases "j = i") auto
  then have "g_ptr ((reg(x := e)) (reg_slot q j)) = g_ptr (reg (reg_slot q j))" if "j \<le> i" for j
    using that by auto
  then show ?thesis using i assms(2) unfolding walk_def find_Some_iff
    by (intro exI [of _ i]) auto
qed

text \<open>Entering a block keeps the chains in order; taking one out of an ordered registry removes exactly
  that block, but may leave a gap in the chains of others.\<close>

lemma chains_add:
  assumes ok: "chains_ok (live_reg s)" and p: "p \<noteq> 0"
  shows "chains_ok (live_reg (reg_add2 p n pc s))"
proof (cases "walk (live_reg s) p")
  case None
  then show ?thesis using ok p by (simp add: reg_add_walk)
next
  case (Some j)
  let ?x = "reg_slot p j" and ?reg = "live_reg s"
  let ?reg' = "?reg(?x := \<lparr>g_ptr = p, g_size = n, g_pc = pc\<rparr>)"
  have j: "j < 64" "g_ptr (?reg ?x) = 0 \<or> g_ptr (?reg ?x) = p"
      "\<forall>i < j. g_ptr (?reg (reg_slot p i)) \<noteq> 0 \<and> g_ptr (?reg (reg_slot p i)) \<noteq> p"
    using Some by (auto simp: walk_def find_Some_iff)
  have own: "walk ?reg' p = Some j"
    unfolding walk_def find_Some_iff using j by (intro exI [of _ j]) auto
  have "\<exists>i. walk ?reg' (g_ptr (?reg' y)) = Some i \<and> reg_slot (g_ptr (?reg' y)) i = y" if y: "g_ptr (?reg' y) \<noteq> 0" for y
  proof (cases "y = ?x")
    case True
    then show ?thesis using own by simp
  next
    case False
    let ?q = "g_ptr (?reg y)"
    obtain i where i: "walk ?reg ?q = Some i" "reg_slot ?q i = y" using ok y False unfolding chains_ok_def by auto
    have "walk ?reg' ?q = Some i"
    proof (cases "g_ptr (?reg ?x) = 0")
      case True
      then show ?thesis using walk_fill [OF i(1) _ True] i(2) y False by simp
    next
      case c: False
      then have "g_ptr (?reg' z) = g_ptr (?reg z)" for z using j(2) by auto
      then show ?thesis using i(1) by (simp only: walk_def)
    qed
    then show ?thesis using i(2) False by auto
  qed
  then show ?thesis using Some p by (simp add: reg_add_walk chains_ok_def)
qed

lemma del_exact:
  assumes ok: "chains_ok (live_reg s)" and p: "p \<noteq> 0"
  shows "g_ptr (live_reg (reg_del2 p s) x) = (if g_ptr (live_reg s x) = p then 0 else g_ptr (live_reg s x))"
proof (cases "\<exists>y. g_ptr (live_reg s y) = p")
  case True
  then obtain y i where y: "g_ptr (live_reg s y) = p" "walk (live_reg s) p = Some i" "reg_slot p i = y"
    using ok p unfolding chains_ok_def by blast
  have "g_ptr (live_reg s x) = p \<longleftrightarrow> x = y" using chains_unique [OF ok, of x y] y(1) p by auto
  then show ?thesis using y p by (auto simp: reg_del_walk)
next
  case False
  then show ?thesis using p by (auto simp: reg_del_walk split: option.splits)
qed

text \<open>The gap: two blocks 8 MB apart share their chain; once the first is freed, the second is not found
  any more and stays in the registry when it is freed.\<close>

lemma stale_block:
  "let s = reg_del2 0x801000 (reg_del2 0x1000 (reg_add2 0x801000 64 7 (reg_add2 0x1000 32 3 (start_scanner 4096))))
   in \<exists>x. live_reg s x = \<lparr>g_ptr = 0x801000, g_size = 64, g_pc = 7\<rparr>"
proof -
  have h: "reg_hash 0x801000 = reg_hash 0x1000" by (simp add: reg_hash_def)
  have sl: "reg_slot 0x801000 i = reg_slot 0x1000 i" for i by (simp add: reg_slot_def h)
  have ne: "reg_slot 0x1000 0 \<noteq> reg_slot 0x1000 1" by (simp add: reg_slot_def reg_hash_def)
  have u: "[0..<64] = 0 # 1 # [2..<64]" by (simp add: upt_conv_Cons)
  show ?thesis using ne
    unfolding Let_def by (intro exI [of _ "reg_slot 0x1000 1"]) (simp add: reg_add_walk reg_del_walk walk_def u sl start_scanner_def empty_ent_def)
qed

text \<open>An aligned block is not registered: the search for owners does not see it.\<close>

lemma aligned_not_registered:
  assumes "16 < align"
  shows "live_reg (snd (memalign_pc2 w r n align pc s)) = live_reg s"
proof -
  have range: "live_reg (need_range w t) = live_reg t" for t
    by (simp add: need_range_def scan_wx_range_def Let_def split: prod.splits)
  have own: "live_reg (own_try w n i t) = live_reg t" for i t
    by (simp add: own_try_def ownership_scan_def range Let_def split: prod.splits)
  have "live_reg (fold (own_try w n) is t) = live_reg t" for "is" t
    by (induction "is" arbitrary: t) (simp_all add: own)
  then have "live_reg (count_new2 w n pc t) = live_reg t" for t
    by (simp add: count_new2_def on_trc_def maybe_ownscan_def maybe_stackdump_def range Let_def split: option.splits)
  then show ?thesis using assms
    by (auto simp: memalign_pc2_def boot_alloc2_def on_trc_def Let_def split: prod.splits)
qed

end
