(* ===== verification/Jni_Canned.thy ===== *)
theory Jni_Canned
  imports Env_Table
begin

text \<open>
  The functions of the two tables that answer without looking at the fake objects
  (\<open>harness/jinterop.c\<close>): logging apart, they change nothing. Arguments that a function ignores are
  left out; \<open>g_env\<close> and \<open>vmptr\<close> are the addresses of the two tables.
\<close>

subsection \<open>The environment\<close>

definition stub_default :: u64 where "stub_default = 0"

definition F_GetVersion :: u64 where "F_GetVersion = 0x00010006"
definition F_EnsureLocalCapacity :: u64 where "F_EnsureLocalCapacity = 0"
definition F_PushLocalFrame :: u64 where "F_PushLocalFrame = 0"
definition F_PopLocalFrame :: "u64 \<Rightarrow> u64" where "F_PopLocalFrame r = r"
definition F_NewLocalRef :: "u64 \<Rightarrow> u64" where "F_NewLocalRef ob = ob"

text \<open>A reference type of 1 is a local reference, also for an object with a global reference.\<close>

definition F_GetObjectRefType :: u64 where "F_GetObjectRefType = 1"

definition F_DeleteLocalRef :: "u64 \<Rightarrow> 'z jenv_scheme \<Rightarrow> 'z jenv_scheme" where
  "F_DeleteLocalRef ob s = s"

definition F_ExceptionOccurred :: u64 where "F_ExceptionOccurred = 0"
definition F_ExceptionCheck :: "8 word" where "F_ExceptionCheck = 0"
definition F_ExceptionClear :: "'z jenv_scheme \<Rightarrow> 'z jenv_scheme" where "F_ExceptionClear s = s"

text \<open>Releasing does nothing: the caller may have kept the pointer.\<close>

definition F_ReleaseStringUTFChars :: "u64 \<Rightarrow> u64 \<Rightarrow> 'z jenv_scheme \<Rightarrow> 'z jenv_scheme" where
  "F_ReleaseStringUTFChars jstr c s = s"

definition F_ReleaseByteArrayElements :: "u64 \<Rightarrow> u64 \<Rightarrow> 'z jenv_scheme \<Rightarrow> 'z jenv_scheme" where
  "F_ReleaseByteArrayElements arr e s = s"

definition F_CallObjectMethod :: "u64 \<Rightarrow> u64 \<Rightarrow> u64" where "F_CallObjectMethod obj tok = 0"
definition F_CallIntMethod :: "u64 \<Rightarrow> u64 \<Rightarrow> u64" where "F_CallIntMethod obj tok = 0"
definition F_CallVoidMethod :: "u64 \<Rightarrow> u64 \<Rightarrow> 'z jenv_scheme \<Rightarrow> 'z jenv_scheme" where "F_CallVoidMethod obj tok s = s"
definition F_GetStaticObjectField :: "nat \<Rightarrow> u64 \<Rightarrow> u64" where "F_GetStaticObjectField c tok = 0"
definition F_GetStaticIntField :: "nat \<Rightarrow> u64 \<Rightarrow> u64" where "F_GetStaticIntField c tok = 0"
definition F_GetDirectBufferAddress :: "u64 \<Rightarrow> u64" where "F_GetDirectBufferAddress buf = 0"

text \<open>\<open>RegisterNatives\<close>: the mapping is logged, name, signature and function by number, and accepted.\<close>

definition F_RegisterNatives :: "(string \<times> string \<times> u64) list \<Rightarrow> (nat \<times> string \<times> string \<times> u64) list \<times> u64" where
  "F_RegisterNatives methods = (enumerate 0 methods, 0)"

subsection \<open>The virtual machine\<close>

text \<open>The out parameter and the result.\<close>

definition F_GetJavaVM :: "u64 \<Rightarrow> u64 \<times> u64" where "F_GetJavaVM vmptr = (vmptr, 0)"
definition V_GetEnv :: "u64 \<Rightarrow> u64 \<times> u64" where "V_GetEnv g_env = (g_env, 0)"
definition V_AttachCurrentThread :: "u64 \<Rightarrow> u64 \<times> u64" where "V_AttachCurrentThread g_env = (g_env, 0)"
definition V_DetachCurrentThread :: u64 where "V_DetachCurrentThread = 0"
definition V_DestroyJavaVM :: u64 where "V_DestroyJavaVM = 0"

subsection \<open>By slot\<close>

text \<open>What a call through a slot of the environment answers, by its first argument behind \<open>env\<close>, when it
  leaves the state alone. The other functions are those of \<open>Jni_Env\<close> and \<open>Cand_Queue\<close>.\<close>

definition canned :: "(string \<times> (u64 \<Rightarrow> u64)) list" where
  "canned =
     [(''stub_default'', \<lambda>x. stub_default), (''F_GetVersion'', \<lambda>x. F_GetVersion),
      (''F_EnsureLocalCapacity'', \<lambda>x. F_EnsureLocalCapacity), (''F_PushLocalFrame'', \<lambda>x. F_PushLocalFrame),
      (''F_PopLocalFrame'', F_PopLocalFrame), (''F_NewLocalRef'', F_NewLocalRef),
      (''F_GetObjectRefType'', \<lambda>x. F_GetObjectRefType), (''F_ExceptionOccurred'', \<lambda>x. F_ExceptionOccurred),
      (''F_ExceptionCheck'', \<lambda>x. ucast F_ExceptionCheck), (''F_CallObjectMethod'', \<lambda>x. F_CallObjectMethod x 0),
      (''F_CallIntMethod'', \<lambda>x. F_CallIntMethod x 0), (''F_GetStaticObjectField'', \<lambda>x. F_GetStaticObjectField (unat x) 0),
      (''F_GetStaticIntField'', \<lambda>x. F_GetStaticIntField (unat x) 0),
      (''F_GetDirectBufferAddress'', F_GetDirectBufferAddress), (''F_RegisterNatives'', \<lambda>x. snd (F_RegisterNatives []))]"

definition slot_answer :: "nat \<Rightarrow> u64 \<Rightarrow> u64 option" where
  "slot_answer i x = map_option (\<lambda>f. f x) (map_of canned (build_env ! i))"

text \<open>Every member of the interface that the harness does not implement answers null, among them all the
  methods with a result that is not an object, an \<open>int\<close> or nothing.\<close>

lemma unimplemented_slots:
  assumes "n \<in> set JNINativeInterface" and "n \<notin> fst ` set env_regs"
  shows "slot_answer (ENV_SLOT n) x = Some 0"
proof -
  obtain i where i: "i < length JNINativeInterface" "JNINativeInterface ! i = n" using assms(1) by (auto simp: in_set_conv_nth)
  have slot: "ENV_SLOT n = i" using slot_of_nth [OF native_slots_distinct i(1)] i(2) by (simp add: ENV_SLOT_def)
  have "i \<notin> (ENV_SLOT \<circ> fst) ` set env_regs"
  proof
    assume "i \<in> (ENV_SLOT \<circ> fst) ` set env_regs"
    then obtain m fn where m: "(m, fn) \<in> set env_regs" "i = ENV_SLOT m" by auto
    then have "JNINativeInterface ! i = m" using jni_tables by blast
    then show False using i(2) assms(2) m(1) by force
  qed
  then have "build_env ! i = ''stub_default''" using jni_tables i(1) by (simp add: native_slots_length)
  then show ?thesis by (simp add: slot_answer_def slot canned_def stub_default_def)
qed

end
