(* ===== verification/Android_Shim.thy ===== *)
theory Android_Shim
  imports Prelude
begin

text \<open>
  The stand-in for \<open>libandroid.so\<close> (\<open>shim/libandroid.c\<close>): a looper on which nothing ever happens, and
  assets as files below three directories. The file system is the sizes of its files by path; open
  streams and assets are two maps. What the C library answers (the address of a block, a
  descriptor) is an argument.
\<close>

subsection \<open>The looper\<close>

definition ALOOPER_POLL_TIMEOUT :: int where "ALOOPER_POLL_TIMEOUT = - 3"

text \<open>\<open>ALooper_pollOnce\<close>: the microseconds slept, in the 32 bits of \<open>useconds_t\<close>, and the result with the
  three out parameters; \<open>None\<close> when it waits for ever.\<close>

definition ALooper_pollOnce :: "int \<Rightarrow> (32 word \<times> int \<times> int \<times> int \<times> u64) option" where
  "ALooper_pollOnce timeoutMs =
     (if timeoutMs < 0 then None else Some (word_of_int timeoutMs * 1000, ALOOPER_POLL_TIMEOUT, - 1, 0, 0))"

definition ALooper_prepare :: "u64 \<Rightarrow> int \<Rightarrow> u64" where
  "ALooper_prepare fake_looper opts = fake_looper"

definition ALooper_addFd :: "u64 \<Rightarrow> int \<Rightarrow> int \<Rightarrow> int \<Rightarrow> int" where
  "ALooper_addFd looper fd ident events = 1"

definition ALooper_removeFd :: "u64 \<Rightarrow> int \<Rightarrow> int" where
  "ALooper_removeFd looper fd = 1"

subsection \<open>Assets\<close>

record wasset =
  a_f :: nat
  a_size :: int

record shim =
  files :: "string \<rightharpoonup> nat"
  streams :: "nat \<rightharpoonup> string"
  assets :: "u64 \<rightharpoonup> wasset"

definition g_asset_roots :: "string list" where
  "g_asset_roots = [''assets/'', ''runtime/assets/'', ''.deps/wechat-ime/assets/'']"

definition sys_fopen :: "nat \<Rightarrow> string \<Rightarrow> shim \<Rightarrow> (nat \<times> nat) option \<times> shim" where
  "sys_fopen h full s = (case files s full of
       None \<Rightarrow> (None, s)
     | Some n \<Rightarrow> (Some (h, n), s\<lparr>streams := (streams s)(h \<mapsto> full)\<rparr>))"

definition sys_fclose :: "nat \<Rightarrow> shim \<Rightarrow> shim" where
  "sys_fclose h s = s\<lparr>streams := (streams s)(h := None)\<rparr>"

text \<open>\<open>AAssetManager_open\<close>: \<open>h\<close> is the stream that \<open>fopen\<close> makes, \<open>a\<close> the answer of \<open>malloc\<close>.\<close>

fun open_from :: "string list \<Rightarrow> nat \<Rightarrow> u64 \<Rightarrow> string \<Rightarrow> shim \<Rightarrow> u64 \<times> shim" where
  "open_from [] h a path s = (0, s)"
| "open_from (root # roots) h a path s =
     (case sys_fopen h (snprintf_s 600 (root @ path)) s of
        (None, s1) \<Rightarrow> open_from roots h a path s1
      | (Some (f, n), s1) \<Rightarrow>
          if a = 0 then (0, sys_fclose f s1)
          else (a, s1\<lparr>assets := (assets s1)(a \<mapsto> \<lparr>a_f = f, a_size = int n\<rparr>)\<rparr>))"

definition AAssetManager_open :: "nat \<Rightarrow> u64 \<Rightarrow> string \<Rightarrow> shim \<Rightarrow> u64 \<times> shim" where
  "AAssetManager_open h a path s = open_from g_asset_roots h a path s"

text \<open>\<open>AAsset_openFileDescriptor\<close>: the descriptor that \<open>dup\<close> answers, start and length; \<open>None\<close> if the
  asset is not open any more.\<close>

definition AAsset_openFileDescriptor :: "int \<Rightarrow> u64 \<Rightarrow> shim \<Rightarrow> (int \<times> int \<times> int) option" where
  "AAsset_openFileDescriptor fd p s =
     (if p = 0 then Some (- 1, 0, 0)
      else do { a \<leftarrow> assets s p; _ \<leftarrow> streams s (a_f a); Some (fd, 0, a_size a) })"

definition AAsset_close :: "u64 \<Rightarrow> shim \<Rightarrow> shim option" where
  "AAsset_close p s =
     (if p = 0 then Some s
      else do { a \<leftarrow> assets s p; _ \<leftarrow> streams s (a_f a);
                Some ((sys_fclose (a_f a) s)\<lparr>assets := (assets s)(p := None)\<rparr>) })"

subsection \<open>Properties\<close>

text \<open>The sleep is what was asked for up to 71 minutes; beyond that it is too short.\<close>

lemma poll_sleeps:
  assumes "0 \<le> timeoutMs"
  shows "\<exists>us. ALooper_pollOnce timeoutMs = Some (us, ALOOPER_POLL_TIMEOUT, - 1, 0, 0) \<and>
    uint us = timeoutMs * 1000 mod 2 ^ 32 \<and> (timeoutMs \<le> 4294967 \<longrightarrow> uint us = timeoutMs * 1000)"
proof -
  have "word_of_int timeoutMs * 1000 = (word_of_int (timeoutMs * 1000) :: 32 word)" by simp
  then have "uint (word_of_int timeoutMs * 1000 :: 32 word) = timeoutMs * 1000 mod 2 ^ 32"
    by (simp only: uint_word_of_int) simp
  then show ?thesis using assms
    by (intro exI [of _ "word_of_int timeoutMs * 1000"]) (simp add: ALooper_pollOnce_def)
qed

lemma poll_too_short: "ALooper_pollOnce 4294968 = Some (704, ALOOPER_POLL_TIMEOUT, - 1, 0, 0)"
  by (simp add: ALooper_pollOnce_def)

text \<open>Every asset has a stream of its own, and every stream belongs to an asset.\<close>

definition shim_ok :: "shim \<Rightarrow> bool" where
  "shim_ok s \<longleftrightarrow> assets s 0 = None \<and> bij_betw (\<lambda>p. a_f (the (assets s p))) (dom (assets s)) (dom (streams s))"

lemma bij_add:
  assumes "bij_betw f A B" and "a \<notin> A" and "b \<notin> B" and "\<And>x. x \<in> A \<Longrightarrow> g x = f x" and "g a = b"
  shows "bij_betw g (insert a A) (insert b B)"
proof -
  have "bij_betw g A B" using assms(1,4) by (simp cong: bij_betw_cong)
  then show ?thesis using assms(2,3,5) notIn_Un_bij_betw3 [of a A g B] by simp
qed

text \<open>Opening finds the first of the three directories that has the file. If the file or memory is
  missing the result is null and nothing stays open; otherwise the new asset has the size of the file
  and its own stream, and closing it restores what was before. So streams and assets stay paired, and
  none is lost.\<close>

theorem asset_lifetime:
  assumes ok: "shim_ok s" and new: "streams s h = None" "assets s a = None"
  shows "case AAssetManager_open h a path s of (p, s1) \<Rightarrow>
    let hits = filter (\<lambda>f. files s f \<noteq> None) (map (\<lambda>r. snprintf_s 600 (r @ path)) g_asset_roots) in
    shim_ok s1 \<and> files s1 = files s \<and>
    (p = 0 \<longleftrightarrow> hits = [] \<or> a = 0) \<and> (p = 0 \<longrightarrow> s1 = s) \<and>
    (p \<noteq> 0 \<longrightarrow> streams s1 h = Some (hd hits) \<and>
       AAsset_openFileDescriptor fd p s1 = Some (fd, 0, int (the (files s (hd hits)))) \<and>
       AAsset_close p s1 = Some s)"
proof -
  have run: "open_from roots h a path s =
      (case filter (\<lambda>f. files s f \<noteq> None) (map (\<lambda>r. snprintf_s 600 (r @ path)) roots) of
         [] \<Rightarrow> (0, s)
       | f # _ \<Rightarrow> if a = 0 then (0, s)
           else (a, s\<lparr>streams := (streams s)(h \<mapsto> f), assets := (assets s)(a \<mapsto> \<lparr>a_f = h, a_size = int (the (files s f))\<rparr>)\<rparr>))" for roots
  proof (induction roots)
    case Nil
    then show ?case by simp
  next
    case (Cons r rs)
    have "(streams s)(h := None) = streams s" using new(1) by (simp add: fun_upd_idem)
    then show ?case using Cons by (cases "files s (snprintf_s 600 (r @ path))") (simp_all add: sys_fopen_def sys_fclose_def)
  qed
  have "shim_ok (s\<lparr>streams := (streams s)(h \<mapsto> f), assets := (assets s)(a \<mapsto> \<lparr>a_f = h, a_size = n\<rparr>)\<rparr>)" if "a \<noteq> 0" for f n
  proof -
    have "a \<notin> dom (assets s)" "h \<notin> dom (streams s)" using new by auto
    then have "bij_betw (\<lambda>p. a_f (the (((assets s)(a \<mapsto> \<lparr>a_f = h, a_size = n\<rparr>)) p)))
        (insert a (dom (assets s))) (insert h (dom (streams s)))"
      using ok by (intro bij_add [of "\<lambda>p. a_f (the (assets s p))"]) (auto simp: shim_ok_def)
    then show ?thesis using ok that by (simp add: shim_ok_def)
  qed
  moreover have "(assets s)(a := None) = assets s" "(streams s)(h := None) = streams s" using new by (simp_all add: fun_upd_idem)
  ultimately show ?thesis
    using ok unfolding AAssetManager_open_def run
    by (auto simp: AAsset_openFileDescriptor_def AAsset_close_def sys_fclose_def Let_def split: list.split)
qed

definition sample_shim :: shim where
  "sample_shim = \<lparr>files = [''runtime/assets/a.bin'' \<mapsto> 10, ''.deps/wechat-ime/assets/a.bin'' \<mapsto> 20], streams = Map.empty,
     assets = Map.empty\<rparr>"

theorem asset_lifetime_witness:
  "\<exists>s. AAssetManager_open 3 0x40 ''a.bin'' sample_shim = (0x40, s) \<and>
     AAsset_openFileDescriptor 9 0x40 s = Some (9, 0, 10) \<and> AAsset_close 0x40 s = Some sample_shim"
proof -
  have "shim_ok sample_shim" by (simp add: shim_ok_def sample_shim_def bij_betw_def)
  note life = asset_lifetime [OF this, of 3 "0x40" "''a.bin''" 9]
  obtain s where o: "AAssetManager_open 3 0x40 ''a.bin'' sample_shim = (0x40, s)"
    by (simp add: AAssetManager_open_def g_asset_roots_def sys_fopen_def snprintf_s_def sample_shim_def)
  show ?thesis using life unfolding o by (intro exI [of _ s])
    (simp add: o, simp add: sample_shim_def g_asset_roots_def snprintf_s_def Let_def)
qed

end
