(* ===== verification/Addon_Launch.thy ===== *)
theory Addon_Launch
  imports Addon_Files Startup
begin

text \<open>
  Launching and stopping the engine process (\<open>resolveDirs\<close>, \<open>prepareHarnessLog\<close>, and the system
  calls of \<open>EngineProc::start\<close> and \<open>EngineProc::stop\<close> in \<open>fcitx5-wetype/src/wetype.cpp\<close>): the
  directories, the descriptors of both processes, the environment and arguments of the harness,
  and how the child is reaped. What the system answers (\<open>access\<close>, \<open>pipe2\<close>, \<open>fork\<close>, \<open>open\<close>,
  \<open>waitpid\<close>) is an argument. The state of the engine process as the addon sees it is in
  \<open>Engine_Proc\<close>.
\<close>

subsection \<open>Directories\<close>

record dirs =
  d_eng :: string
  d_dicts :: string
  d_work :: string
  d_qemu :: string
  d_sysroot :: string

definition existsEngine :: "(string \<Rightarrow> bool) \<Rightarrow> (string \<Rightarrow> bool) \<Rightarrow> string \<Rightarrow> bool" where
  "existsEngine x_ok r_ok p \<longleftrightarrow> x_ok (p @ ''/wetype-harness'') \<and> r_ok (p @ ''/lib/libwxhld_jni.so'')"

definition env_home :: "(string \<Rightarrow> string option) \<Rightarrow> string" where
  "env_home env = (case env ''HOME'' of None \<Rightarrow> ''/root'' | Some h \<Rightarrow> h)"

definition nonempty_env :: "string option \<Rightarrow> string \<Rightarrow> string" where
  "nonempty_env e d = (case e of None \<Rightarrow> d | Some x \<Rightarrow> if x = [] then d else x)"

text \<open>\<open>native\<close>: the addon is built for ARM64.\<close>

definition resolveDirs ::
    "bool \<Rightarrow> (string \<Rightarrow> bool) \<Rightarrow> (string \<Rightarrow> bool) \<Rightarrow> (string \<Rightarrow> string option) \<Rightarrow> dirs" where
  "resolveDirs native x_ok r_ok env =
     (let home = env_home env;
          eng = (case env ''WETYPE_ENGINE_DIR'' of None \<Rightarrow> [] | Some e \<Rightarrow> e);
          eng =
            (if eng = [] \<or> \<not> existsEngine x_ok r_ok eng then
               let eng = home @ ''/.local/lib/wetype-ime/arm64'' in
               if \<not> existsEngine x_ok r_ok eng then
                 let eng = ''/usr/lib/wetype-ime/arm64'' in
                 if \<not> existsEngine x_ok r_ok eng
                 then home @ ''/wetype-ime/squashfs-root/usr/lib/wetype-ime/arm64''
                 else eng
               else eng
             else eng);
          dicts = (case env ''WETYPE_DICT_DIR'' of None \<Rightarrow> eng @ ''/dicts'' | Some d \<Rightarrow> d);
          qemu = (case env ''QEMU_AARCH64'' of None \<Rightarrow> [] | Some q \<Rightarrow> q);
          qemu =
            (if qemu = [] then
               if x_ok (eng @ ''/qemu-aarch64-static'') then eng @ ''/qemu-aarch64-static''
               else if \<not> native then ''qemu-aarch64-static''
               else qemu
             else qemu);
          sysroot = nonempty_env (env ''WETYPE_SYSROOT'') (eng @ ''/sysroot'');
          base = nonempty_env (env ''XDG_DATA_HOME'') (home @ ''/.local/share'');
          work = (case env ''WETYPE_WORK_DIR'' of None \<Rightarrow> base @ ''/wetype-ime/dict'' | Some w \<Rightarrow> w)
      in \<lparr>d_eng = eng, d_dicts = dicts, d_work = work, d_qemu = qemu, d_sysroot = sysroot\<rparr>)"

text \<open>The log: its path, the directories asked for, and the file after rotation.\<close>

definition prepareHarnessLog ::
    "bool \<Rightarrow> (string \<Rightarrow> string option) \<Rightarrow> (string \<rightharpoonup> nat) \<Rightarrow> string \<times> string list \<times> (string \<rightharpoonup> nat)" where
  "prepareHarnessLog rename_ok env fs =
     (let path = harnessLogPath (env ''WETYPE_HARNESS_LOG'') (env ''XDG_STATE_HOME'') (env ''HOME'');
          made = (if CHR ''/'' \<in> set path
                  then mkdirParents (rev (tl (dropWhile (\<lambda>c. c \<noteq> CHR ''/'') (rev path)))) else [])
      in (path, made, snd (capHarnessLog rename_ok path HARNESS_LOG_MAX_BYTES fs)))"

text \<open>Where the constructor looks for the gloss dictionary.\<close>

definition glossary_path :: "(string \<Rightarrow> string option) \<Rightarrow> string" where
  "glossary_path env = nonempty_env (env ''XDG_DATA_HOME'') (env_home env @ ''/.local/share'') @ ''/wetype-ime/glossary-en.tsv''"

subsection \<open>Descriptors\<close>

text \<open>An open file: the ends of the two pipes, the log, or what the process had before. The flag says
  that it is closed on \<open>exec\<close>.\<close>

datatype fdobj = ReadIn | WriteIn | ReadOut | WriteOut | LogFile | Before nat

type_synonym fds = "int \<rightharpoonup> fdobj \<times> bool"

definition sys_close :: "int \<Rightarrow> fds \<Rightarrow> fds" where
  "sys_close d t = t(d := None)"

text \<open>The copy is not closed on \<open>exec\<close>, unless the two descriptors are the same.\<close>

definition sys_dup2 :: "int \<Rightarrow> int \<Rightarrow> fds \<Rightarrow> fds" where
  "sys_dup2 a b t = (case t a of None \<Rightarrow> t | Some (ob, ce) \<Rightarrow> if a = b then t else t(b \<mapsto> (ob, False)))"

definition sys_exec :: "fds \<Rightarrow> fds" where
  "sys_exec t = (\<lambda>d. case t d of Some (ob, False) \<Rightarrow> Some (ob, False) | _ \<Rightarrow> None)"

text \<open>The child, up to \<open>exec\<close>: \<open>None\<close> when it exits before.\<close>

definition child_fds :: "bool \<Rightarrow> int \<times> int \<Rightarrow> int \<times> int \<Rightarrow> int option \<Rightarrow> fds \<Rightarrow> fds option" where
  "child_fds rlimit_ok inP outP logFd t =
     (if \<not> rlimit_ok then None
      else
        let t = sys_dup2 (fst inP) 0 t; t = sys_dup2 (snd outP) 1 t;
            t = sys_close (fst inP) t; t = sys_close (snd inP) t;
            t = sys_close (fst outP) t; t = sys_close (snd outP) t;
            t = (case logFd of None \<Rightarrow> t
                 | Some d \<Rightarrow> sys_close d (sys_dup2 d 2 (t(d \<mapsto> (LogFile, False)))))
        in Some (sys_exec t))"

record launched =
  l_ok :: bool
  l_fds :: fds
  l_in :: int
  l_out :: int
  l_child :: "fds option"

text \<open>\<open>start\<close>: the answers of the two \<open>pipe2\<close> and of \<open>fork\<close>. \<open>l_child\<close> are the descriptors of the harness.\<close>

definition start_fds ::
    "(int \<times> int) option \<Rightarrow> (int \<times> int) option \<Rightarrow> bool \<Rightarrow> bool \<Rightarrow> int option \<Rightarrow> fds \<Rightarrow> launched" where
  "start_fds pin pout forked rlimit_ok logFd t =
     (let failed = (\<lambda>t. \<lparr>l_ok = False, l_fds = t, l_in = - 1, l_out = - 1, l_child = None\<rparr>) in
      case pin of
        None \<Rightarrow> failed t
      | Some inP \<Rightarrow>
          let t = t(fst inP \<mapsto> (ReadIn, True), snd inP \<mapsto> (WriteIn, True)) in
          case pout of
            None \<Rightarrow> failed (sys_close (snd inP) (sys_close (fst inP) t))
          | Some outP \<Rightarrow>
              let t = t(fst outP \<mapsto> (ReadOut, True), snd outP \<mapsto> (WriteOut, True)) in
              if \<not> forked then
                failed (sys_close (snd outP) (sys_close (fst outP) (sys_close (snd inP) (sys_close (fst inP) t))))
              else
                \<lparr>l_ok = True, l_fds = sys_close (snd outP) (sys_close (fst inP) t), l_in = snd inP, l_out = fst outP,
                 l_child = child_fds rlimit_ok inP outP logFd t\<rparr>)"

subsection \<open>The harness\<close>

definition child_environ :: "dirs \<Rightarrow> (string \<Rightarrow> string option) \<Rightarrow> (string \<Rightarrow> string option)" where
  "child_environ d env =
     (let libPath = d_eng d @ ''/lib'' @ (if d_qemu d = [] then '':'' @ d_sysroot d @ ''/system/lib64'' else []);
          e = env(''LD_LIBRARY_PATH'' \<mapsto> libPath, ''WETYPE_DICT_DIR'' \<mapsto> d_dicts d, ''WETYPE_ASSET_DIR'' \<mapsto> d_dicts d,
                  ''WETYPE_WORK_DIR'' \<mapsto> d_work d)
      in if d_qemu d = [] then e
         else if e ''QEMU_CPU'' = None then e(''QEMU_CPU'' \<mapsto> ''cortex-a72'') else e)"

definition child_argv :: "dirs \<Rightarrow> string list" where
  "child_argv d =
     (let harness = d_eng d @ ''/wetype-harness''; lib = d_eng d @ ''/lib/libwxhld_jni.so'' in
      if d_qemu d = [] then [harness, lib, ''--daemon'']
      else [d_qemu d, ''-L'', d_sysroot d, harness, lib, ''--daemon''])"

subsection \<open>Stopping\<close>

datatype wait_answer = Running | Exited | NoChild | Interrupted | Failed

text \<open>At most \<open>n\<close> polls: has the child exited, and the answers left.\<close>

fun poll_exit :: "nat \<Rightarrow> wait_answer list \<Rightarrow> (bool \<times> wait_answer list) option" where
  "poll_exit 0 ws = Some (False, ws)"
| "poll_exit (Suc n) [] = None"
| "poll_exit (Suc n) (w # ws) =
     (case w of Exited \<Rightarrow> Some (True, ws) | NoChild \<Rightarrow> Some (True, ws) | Failed \<Rightarrow> Some (False, ws)
      | Running \<Rightarrow> poll_exit n ws | Interrupted \<Rightarrow> poll_exit n ws)"

text \<open>After the signal: wait until an answer is no interruption.\<close>

fun wait_killed :: "wait_answer list \<Rightarrow> wait_answer option" where
  "wait_killed [] = None"
| "wait_killed (w # ws) = (if w = Interrupted then wait_killed ws else Some w)"

text \<open>\<open>stop\<close>: whether it had to kill, and the descriptors; \<open>None\<close> while it still waits.\<close>

definition stop_child :: "bool \<Rightarrow> int \<Rightarrow> int \<Rightarrow> wait_answer list \<Rightarrow> fds \<Rightarrow> (bool \<times> fds) option" where
  "stop_child running in_fd out_fd ws t =
     (let t1 = (if 0 \<le> in_fd then sys_close in_fd t else t);
          t2 = (if 0 \<le> out_fd then sys_close out_fd t1 else t1)
      in if \<not> running then Some (False, t2)
         else do {
           (exited, rest) \<leftarrow> poll_exit 100 ws;
           if exited then Some (False, t2)
           else do { _ \<leftarrow> wait_killed rest; Some (True, t2) }
         })"

subsection \<open>Properties\<close>

text \<open>The engine directory: the first usable one of the variable, the home and the system directory;
  only when none is usable it is the development directory, which may not be usable either.\<close>

lemma engine_dir:
  "let d = resolveDirs native x_ok r_ok env;
       usable = filter (\<lambda>p. p \<noteq> [] \<and> existsEngine x_ok r_ok p)
         [case env ''WETYPE_ENGINE_DIR'' of None \<Rightarrow> [] | Some e \<Rightarrow> e,
          env_home env @ ''/.local/lib/wetype-ime/arm64'', ''/usr/lib/wetype-ime/arm64'']
   in d_eng d = (if usable = [] then env_home env @ ''/wetype-ime/squashfs-root/usr/lib/wetype-ime/arm64'' else hd usable)"
  by (auto simp: resolveDirs_def Let_def split: option.split)

text \<open>The emulator is used unless the addon is native, no variable names one and none is installed.\<close>

lemma runs_native:
  "d_qemu (resolveDirs native x_ok r_ok env) = [] \<Longrightarrow>
     native \<and> (env ''QEMU_AARCH64'' = None \<or> env ''QEMU_AARCH64'' = Some [])"
  by (auto simp: resolveDirs_def Let_def split: option.split_asm if_split_asm)

text \<open>Descriptors that a process had before, none of them a pipe of ours.\<close>

definition old_fds :: "fds \<Rightarrow> bool" where
  "old_fds t \<longleftrightarrow> (\<forall>d ob ce. t d = Some (ob, ce) \<longrightarrow> (\<exists>n. ob = Before n))"

lemma kept: "(case x of Some (ob, False) \<Rightarrow> Some (ob, False) | _ \<Rightarrow> None) = Some (ob', ce) \<Longrightarrow> x = Some (ob', False)"
  by (auto split: option.splits prod.splits bool.splits)

text \<open>C40. Starting leaks nothing and wires the pipes right. The system hands out descriptors that are not in
  use. Whichever of the two \<open>pipe2\<close> and \<open>fork\<close> fails, the addon has the descriptors it had before; if none
  fails it has two more, the writing end of the first pipe and the reading end of the second. When the addon's own
  descriptors 0, 1 and 2 are open, the harness has the other ends as its standard input and output and no
  further descriptor of a pipe, so that it sees the end of its input as soon as the addon closes its end; its
  standard error is the log, or what the addon's was; and of its other descriptors it has exactly those that the
  addon had and that are not closed on \<open>exec\<close>, which it inherits. (With one of the three closed in the addon this
  fails: lemma \<open>low_descriptor\<close>.)\<close>

theorem launch_descriptors:
  assumes old: "old_fds t"
    and pin: "\<And>r w. pin = Some (r, w) \<Longrightarrow> 0 \<le> r \<and> 0 \<le> w \<and> r \<noteq> w \<and> t r = None \<and> t w = None"
    and pout: "\<And>r w. pout = Some (r, w) \<Longrightarrow> 0 \<le> r \<and> 0 \<le> w \<and> r \<noteq> w \<and> t r = None \<and> t w = None \<and>
      (\<forall>r' w'. pin = Some (r', w') \<longrightarrow> {r, w} \<inter> {r', w'} = {})"
    and log: "\<And>d. logFd = Some d \<Longrightarrow> 0 \<le> d \<and> t d = None"
  shows "let l = start_fds pin pout forked rlimit_ok logFd t in
    (l_ok l \<longleftrightarrow> pin \<noteq> None \<and> pout \<noteq> None \<and> forked) \<and>
    (\<not> l_ok l \<longrightarrow> l_fds l = t \<and> l_child l = None) \<and>
    (l_ok l \<longrightarrow> l_fds l = t(l_in l \<mapsto> (WriteIn, True), l_out l \<mapsto> (ReadOut, True)) \<and> l_in l \<noteq> l_out l \<and>
       t (l_in l) = None \<and> t (l_out l) = None) \<and>
    ((\<forall>d \<in> {0, 1, 2}. t d \<noteq> None) \<longrightarrow>
       (\<forall>c. l_child l = Some c \<longrightarrow>
          c 0 = Some (ReadIn, False) \<and> c 1 = Some (WriteOut, False) \<and>
          c 2 = (if logFd = None then (case t 2 of Some (ob, False) \<Rightarrow> Some (ob, False) | _ \<Rightarrow> None) else Some (LogFile, False)) \<and>
          (\<forall>d. 2 < d \<or> d < 0 \<longrightarrow> c d = (case t d of Some (ob, False) \<Rightarrow> Some (ob, False) | _ \<Rightarrow> None)) \<and>
          (\<forall>d ob ce. c d = Some (ob, ce) \<and> ob \<in> {ReadIn, WriteIn, ReadOut, WriteOut} \<longrightarrow> d = 0 \<or> d = 1)))"
proof (cases "pin \<noteq> None \<and> pout \<noteq> None")
  case False
  then show ?thesis using pin by (cases pin; cases pout) (auto simp: start_fds_def sys_close_def Let_def fun_upd_idem_iff)
next
  case True
  then obtain i0 i1 o0 o1 where p: "pin = Some (i0, i1)" "pout = Some (o0, o1)" by auto
  note f = pin [OF p(1)] pout [OF p(2)]
  have ne: "i0 \<noteq> i1" "o0 \<noteq> o1" "o0 \<noteq> i0" "o0 \<noteq> i1" "o1 \<noteq> i0" "o1 \<noteq> i1" using f p by auto
  have free: "t i0 = None" "t i1 = None" "t o0 = None" "t o1 = None" using f by auto
  let ?t = "t(i0 \<mapsto> (ReadIn, True), i1 \<mapsto> (WriteIn, True), o0 \<mapsto> (ReadOut, True), o1 \<mapsto> (WriteOut, True))"
  have child: "c 0 = Some (ReadIn, False) \<and> c 1 = Some (WriteOut, False) \<and>
          c 2 = (if logFd = None then (case t 2 of Some (ob, False) \<Rightarrow> Some (ob, False) | _ \<Rightarrow> None) else Some (LogFile, False)) \<and>
          (\<forall>d. 2 < d \<or> d < 0 \<longrightarrow> c d = (case t d of Some (ob, False) \<Rightarrow> Some (ob, False) | _ \<Rightarrow> None))"
    if c: "child_fds rlimit_ok (i0, i1) (o0, o1) logFd ?t = Some c" and std: "\<forall>d \<in> {0, 1, 2}. t d \<noteq> None" for c
  proof -
    have above: "2 < d" if "0 \<le> d \<and> t d = None" for d
    proof (rule ccontr)
      assume "\<not> 2 < d"
      then have "d \<in> {0, 1, 2}" using that by auto
      then show False using that std by blast
    qed
    then have big: "2 < i0" "2 < i1" "2 < o0" "2 < o1" using f by blast+
    let ?u = "t(0 \<mapsto> (ReadIn, False), 1 \<mapsto> (WriteOut, False))"
    have u: "sys_close o1 (sys_close o0 (sys_close i1 (sys_close i0 (sys_dup2 o1 1 (sys_dup2 i0 0 ?t))))) = ?u"
    proof -
      have "sys_dup2 i0 0 ?t = ?t(0 \<mapsto> (ReadIn, False))" using ne big by (simp add: sys_dup2_def)
      moreover have "sys_dup2 o1 1 (?t(0 \<mapsto> (ReadIn, False))) = ?t(0 \<mapsto> (ReadIn, False), 1 \<mapsto> (WriteOut, False))"
        using big by (simp add: sys_dup2_def)
      moreover have "sys_close o1 (sys_close o0 (sys_close i1 (sys_close i0 (?t(0 \<mapsto> (ReadIn, False), 1 \<mapsto> (WriteOut, False)))))) = ?u"
        using free big by (intro ext) (simp add: sys_close_def)
      ultimately show ?thesis by simp
    qed
    show ?thesis
    proof (cases logFd)
      case None
      then have "c = sys_exec ?u" using c u by (simp add: child_fds_def Let_def split: if_split_asm)
      then show ?thesis using None by (simp add: sys_exec_def)
    next
      case (Some d)
      have "sys_close d (sys_dup2 d 2 (?u(d \<mapsto> (LogFile, False)))) = ?u(2 \<mapsto> (LogFile, False))"
        using above [OF log [OF Some]] log [OF Some] by (intro ext) (simp add: sys_close_def sys_dup2_def)
      then have "c = sys_exec (?u(2 \<mapsto> (LogFile, False)))"
        using c u Some by (simp add: child_fds_def Let_def split: if_split_asm)
      then show ?thesis using Some by (simp add: sys_exec_def)
    qed
  qed
  have parent: "sys_close o1 (sys_close i0 ?t) = t(i1 \<mapsto> (WriteIn, True), o0 \<mapsto> (ReadOut, True))"
    using ne free by (intro ext) (simp add: sys_close_def)
  have none: "sys_close o1 (sys_close o0 (sys_close i1 (sys_close i0 ?t))) = t"
    using free by (intro ext) (simp add: sys_close_def)
  have only: "d = 0 \<or> d = 1"
    if c: "child_fds rlimit_ok (i0, i1) (o0, o1) logFd ?t = Some c" and std: "\<forall>d \<in> {0, 1, 2}. t d \<noteq> None" and d: "c d = Some (ob, ce)"
      and ob: "ob \<in> {ReadIn, WriteIn, ReadOut, WriteOut}" for c d ob ce
  proof (rule ccontr)
    assume "\<not> (d = 0 \<or> d = 1)"
    then consider "d = 2" "logFd \<noteq> None" | "d = 2" "logFd = None" | "2 < d \<or> d < 0" by fastforce
    then show False
    proof cases
      case 1
      then obtain y where "logFd = Some y" by blast
      then have "c 2 = Some (LogFile, False)" using child [OF c std] by simp
      then show False using 1 d ob by simp
    next
      case 2
      then have "c 2 = (case t 2 of Some (ob, False) \<Rightarrow> Some (ob, False) | _ \<Rightarrow> None)" using child [OF c std] by simp
      then have "t 2 = Some (ob, False)" using 2 d kept [of "t 2" ob ce] by simp
      then show False using ob old by (auto simp: old_fds_def)
    next
      case 3
      have "c d = (case t d of Some (ob, False) \<Rightarrow> Some (ob, False) | _ \<Rightarrow> None)" using child [OF c std] 3 by blast
      then have "t d = Some (ob, False)" using d kept [of "t d" ob ce] by simp
      then show False using ob old by (auto simp: old_fds_def)
    qed
  qed
  show ?thesis
  proof (cases forked)
    case True
    have both: "(\<forall>d \<in> {0, 1, 2}. t d \<noteq> None) \<longrightarrow> (\<forall>c. child_fds rlimit_ok (i0, i1) (o0, o1) logFd ?t = Some c \<longrightarrow>
          c 0 = Some (ReadIn, False) \<and> c 1 = Some (WriteOut, False) \<and>
          c 2 = (if logFd = None then (case t 2 of Some (ob, False) \<Rightarrow> Some (ob, False) | _ \<Rightarrow> None) else Some (LogFile, False)) \<and>
          (\<forall>d. 2 < d \<or> d < 0 \<longrightarrow> c d = (case t d of Some (ob, False) \<Rightarrow> Some (ob, False) | _ \<Rightarrow> None)) \<and>
          (\<forall>d ob ce. c d = Some (ob, ce) \<and> ob \<in> {ReadIn, WriteIn, ReadOut, WriteOut} \<longrightarrow> d = 0 \<or> d = 1))"
      (is "_ \<longrightarrow> (\<forall>c. _ \<longrightarrow> ?wired c)")
    proof (intro impI allI)
      fix c assume std: "\<forall>d \<in> {0, 1, 2}. t d \<noteq> None" and c: "child_fds rlimit_ok (i0, i1) (o0, o1) logFd ?t = Some c"
      note wired = child [OF c std] and ends = only [OF c std]
      have "\<forall>d ob ce. c d = Some (ob, ce) \<and> ob \<in> {ReadIn, WriteIn, ReadOut, WriteOut} \<longrightarrow> d = 0 \<or> d = 1"
        using ends by fast
      then show "?wired c" using wired by (intro conjI) (elim conjE; assumption)+
    qed
    have L: "start_fds pin pout forked rlimit_ok logFd t =
        \<lparr>l_ok = True, l_fds = t(i1 \<mapsto> (WriteIn, True), o0 \<mapsto> (ReadOut, True)), l_in = i1, l_out = o0,
         l_child = child_fds rlimit_ok (i0, i1) (o0, o1) logFd ?t\<rparr>"
      using parent by (simp add: start_fds_def Let_def p True)
    show ?thesis unfolding L Let_def launched.select_convs
      by (intro conjI, simp add: p True, simp, simp add: ne(4) [symmetric] free, rule both)
  next
    case False
    then show ?thesis using none p by (simp add: start_fds_def Let_def)
  qed
qed

theorem launch_descriptors_witness:
  "\<exists>c. l_child (start_fds (Some (3, 4)) (Some (5, 6)) True True (Some 7) [0 \<mapsto> (Before 0, False), 1 \<mapsto> (Before 1, True), 2 \<mapsto> (Before 2, False)]) = Some c \<and>
     c 0 = Some (ReadIn, False) \<and> c 1 = Some (WriteOut, False) \<and> c 2 = Some (LogFile, False)"
proof -
  let ?t = "[0 \<mapsto> (Before 0, False), 1 \<mapsto> (Before 1, True), 2 \<mapsto> (Before 2, False)] :: fds"
  define l where "l = start_fds (Some (3, 4)) (Some (5, 6)) True True (Some 7) ?t"
  have old: "old_fds ?t" by (simp add: old_fds_def)
  have p1: "0 \<le> r \<and> 0 \<le> w \<and> r \<noteq> w \<and> ?t r = None \<and> ?t w = None" if "Some (3, 4) = Some (r, w)" for r w :: int
    using that by auto
  have p2: "0 \<le> r \<and> 0 \<le> w \<and> r \<noteq> w \<and> ?t r = None \<and> ?t w = None \<and>
      (\<forall>r' w'. Some (3, 4) = Some (r', w') \<longrightarrow> {r, w} \<inter> {r', w'} = {})" if "Some (5, 6) = Some (r, w)" for r w :: int
    using that by auto
  have p3: "0 \<le> d \<and> ?t d = None" if "Some 7 = Some d" for d :: int using that by auto
  have std: "\<forall>d \<in> {0, 1, 2}. ?t d \<noteq> None" by (simp del: not_None_eq)
  have "\<forall>c. l_child l = Some c \<longrightarrow> c 0 = Some (ReadIn, False) \<and> c 1 = Some (WriteOut, False) \<and>
      c 2 = (if Some (7 :: int) = None then (case ?t 2 of Some (ob, False) \<Rightarrow> Some (ob, False) | _ \<Rightarrow> None) else Some (LogFile, False))"
    using launch_descriptors [of ?t "Some (3, 4)" "Some (5, 6)" "Some 7" True True, OF old p1 p2 p3] std
    unfolding l_def Let_def by blast
  note ok = this
  have "l_child l \<noteq> None" by (simp_all add: l_def start_fds_def child_fds_def Let_def)
  then obtain c where c: "l_child l = Some c" by blast
  have "c 0 = Some (ReadIn, False) \<and> c 1 = Some (WriteOut, False) \<and>
      c 2 = (if Some (7 :: int) = None then (case ?t 2 of Some (ob, False) \<Rightarrow> Some (ob, False) | _ \<Rightarrow> None) else Some (LogFile, False))"
    using ok c by blast
  then show ?thesis using c unfolding l_def by (intro exI [of _ c]) simp
qed

text \<open>With descriptor 0 free, the pipe gets it, and the child closes its own standard input.\<close>

lemma low_descriptor:
  "l_child (start_fds (Some (0, 3)) (Some (4, 5)) True True None [1 \<mapsto> (Before 1, False), 2 \<mapsto> (Before 2, False)]) = Some c
   \<Longrightarrow> c 0 = None"
  by (auto simp: start_fds_def child_fds_def sys_dup2_def sys_close_def sys_exec_def Let_def)

text \<open>\<open>stop\<close> closes both descriptors, and returns only with the child gone: it was seen to exit within
  100 polls, or it was killed and waited for. It needs no more than 100 answers and the first that is
  no interruption.\<close>

lemma poll_exit_returns: "n \<le> length ws \<Longrightarrow> \<exists>e rest. poll_exit n ws = Some (e, rest) \<and> length ws \<le> length rest + n"
proof (induction n ws rule: poll_exit.induct)
  case (3 n w ws)
  then show ?case by (cases w) auto
qed auto

lemma wait_killed_returns: "\<exists>w \<in> set ws. w \<noteq> Interrupted \<Longrightarrow> \<exists>w. wait_killed ws = Some w"
  by (induction ws) auto

lemma poll_exit_seen: "poll_exit n ws = Some (True, rest) \<Longrightarrow> \<exists>w \<in> set (take n ws). w = Exited \<or> w = NoChild"
proof (induction n ws rule: poll_exit.induct)
  case (3 n w ws)
  then show ?case by (cases w) auto
qed auto

lemma stop_reaps:
  assumes "100 \<le> length ws" and "\<forall>k \<le> 100. \<exists>w \<in> set (drop k ws). w \<noteq> Interrupted"
  shows "\<exists>killed t'. stop_child True i j ws t = Some (killed, t') \<and>
    (\<not> killed \<longrightarrow> (\<exists>w \<in> set (take 100 ws). w = Exited \<or> w = NoChild)) \<and>
    (0 \<le> i \<longrightarrow> t' i = None) \<and> (0 \<le> j \<longrightarrow> t' j = None) \<and> (\<forall>d. d \<noteq> i \<and> d \<noteq> j \<longrightarrow> t' d = t d)"
proof -
  have suffix: "\<exists>k \<le> n. rest = drop k ws" if "poll_exit n ws = Some (e, rest)" for n e rest ws
    using that
  proof (induction n ws rule: poll_exit.induct)
    case (3 n w ws)
    show ?case
    proof (cases w)
      case Running
      then obtain k where "k \<le> n" "rest = drop k ws" using 3 by auto
      then show ?thesis by (intro exI [of _ "Suc k"]) simp
    next
      case Interrupted
      then obtain k where "k \<le> n" "rest = drop k ws" using 3 by auto
      then show ?thesis by (intro exI [of _ "Suc k"]) simp
    qed (use 3 in \<open>auto intro: exI [of _ "Suc 0"]\<close>)
  qed auto
  obtain e rest where p: "poll_exit 100 ws = Some (e, rest)" using poll_exit_returns [OF assms(1)] by blast
  obtain k where k: "k \<le> 100" "rest = drop k ws" using suffix [OF p] by blast
  then obtain w where "wait_killed rest = Some w" using wait_killed_returns assms(2) by blast
  then show ?thesis using p poll_exit_seen [of 100 ws rest]
    by (cases e) (auto simp: stop_child_def Let_def sys_close_def)
qed

text \<open>The directories of the addon are those the harness uses, if they are not empty.\<close>

lemma dirs_reach_harness:
  "d_dicts d \<noteq> [] \<Longrightarrow> env_text def (child_environ d env ''WETYPE_DICT_DIR'') = d_dicts d"
  "d_work d \<noteq> [] \<Longrightarrow> env_text def (child_environ d env ''WETYPE_WORK_DIR'') = d_work d"
  by (simp_all add: env_text_def child_environ_def Let_def)

end
