(* ===== verification/Addon_Sync.thy ===== *)
theory Addon_Sync
  imports Addon_Props "HOL-Library.Sublist"
begin

text \<open>
  The composition on both sides of the pipe. The addon never asks the engine which letters it
  holds: it only writes commands, restarts the process when a write fails, and replays the
  composition. \<open>engine_texts\<close> is what the other side can hold after a list of command lines; the
  addon's composition is always one of these texts (\<open>reached_sync\<close>), whatever writes fail. The
  argument: every way a write can fail ends with the process down, or restarted with the whole
  composition written to it once (\<open>settled_pipe\<close>).
\<close>

subsection \<open>The letters the engine can hold\<close>

text \<open>The letters a line types: all of a \<open>B\<close> line, the first of an \<open>L\<close> line.\<close>

definition line_letters :: "string \<Rightarrow> string" where
  "line_letters l = (if take 2 l = ''B '' then drop 2 l else if take 2 l = ''L '' then take 1 (drop 2 l) else [])"

definition selects :: "string \<Rightarrow> bool" where
  "selects l \<longleftrightarrow> take 1 l = ''S'' \<and> l \<noteq> ''SAVE''"

text \<open>The effect of a command line on the set of texts the engine may hold: letters are appended,
  \<open>C\<close> clears, a selection leaves some suffix, which one depends on the candidate; all other lines
  leave the letters alone.\<close>

definition edit_texts :: "string \<Rightarrow> string set \<Rightarrow> string set" where
  "edit_texts l E =
     (if l = ''C'' then {[]}
      else if selects l then (\<Union>t \<in> E. set (suffixes t))
      else (\<lambda>t. t @ line_letters l) ` E)"

definition engine_texts :: "string list \<Rightarrow> string set" where
  "engine_texts ls = fold edit_texts ls {[]}"

lemma engine_texts_simps [simp]:
  "engine_texts [] = {[]}" "engine_texts (ls @ [l]) = edit_texts l (engine_texts ls)"
  by (simp_all add: engine_texts_def)

lemma edit_texts_simps [simp]:
  "edit_texts (CHR ''B'' # CHR '' '' # ks) E = (\<lambda>t. t @ ks) ` E" "edit_texts ''C'' E = {[]}"
  "edit_texts (select_line i) E = (\<Union>t \<in> E. set (suffixes t))" "edit_texts ''SAVE'' E = E"
  "edit_texts ''OPT spans'' E = E"
  by (simp_all add: edit_texts_def select_line_def selects_def line_letters_def)

text \<open>Without a selection the text is determined: the letters written since the last \<open>C\<close>.\<close>

definition since_clear :: "string list \<Rightarrow> string list" where
  "since_clear ls = rev (takeWhile (\<lambda>l. l \<noteq> ''C'') (rev ls))"

definition typed :: "string list \<Rightarrow> string" where
  "typed ls = concat (map line_letters (since_clear ls))"

definition no_selection :: "string list \<Rightarrow> bool" where
  "no_selection ls \<longleftrightarrow> list_all (\<lambda>l. \<not> selects l) (since_clear ls)"

lemma since_clear_snoc:
  "since_clear (ls @ [l]) = (if l = ''C'' then [] else since_clear ls @ [l])"
  by (simp add: since_clear_def)

lemma engine_texts_exact: "no_selection ls \<Longrightarrow> engine_texts ls = {typed ls}"
proof (induction ls rule: rev_induct)
  case Nil
  then show ?case by (simp add: typed_def since_clear_def)
next
  case (snoc l ls)
  show ?case
  proof (cases "l = ''C''")
    case True
    then show ?thesis by (simp add: typed_def since_clear_snoc)
  next
    case False
    then have n: "no_selection ls" "\<not> selects l"
      using snoc.prems by (simp_all add: no_selection_def since_clear_snoc)
    then show ?thesis using False snoc.IH by (simp add: edit_texts_def typed_def since_clear_snoc)
  qed
qed

subsection \<open>States of the pipe\<close>

abbreviation lines :: "addon \<Rightarrow> string list" where "lines s \<equiv> map fst (wire s)"

text \<open>The handler for the letters as they are.\<close>

definition current :: "addon \<Rightarrow> handler \<Rightarrow> bool" where
  "current s h \<longleftrightarrow> (\<exists>r ep. h = CandHandler r ep (buf s) (revision s))"

text \<open>No handler is newer than the composition.\<close>

definition dated :: "addon \<Rightarrow> bool" where
  "dated s \<longleftrightarrow> (\<forall>r ep b n. CandHandler r ep b n \<in> set (pending s) \<longrightarrow> n \<le> revision s)"

text \<open>Losing the waiting handlers does not restart the engine.\<close>

definition quiet :: "addon \<Rightarrow> bool" where
  "quiet s \<longleftrightarrow> recoveryTried s \<or> buf s = [] \<or> (\<forall>h \<in> set (pending s). \<not> current s h)"

definition in_sync :: "addon \<Rightarrow> bool" where
  "in_sync s \<longleftrightarrow> dated s \<and> (palive s \<longrightarrow> buf s \<in> engine_texts (lines s))"

text \<open>The process is down; it has just been started; the composition has been replayed to it.\<close>

definition down :: "addon \<Rightarrow> bool" where
  "down s \<longleftrightarrow> \<not> palive s \<and> pending s = []"

definition opened :: "addon \<Rightarrow> bool" where
  "opened s \<longleftrightarrow> palive s \<and> in_open s \<and> lines s = [''OPT spans''] \<and> pending s = [SpansHandler]"

definition replayed :: "addon \<Rightarrow> bool" where
  "replayed s \<longleftrightarrow> palive s \<and> lines s = [''OPT spans'', ''B '' @ buf s] \<and> dated s"

text \<open>Where a lost write can lead.\<close>

definition settled_pipe :: "addon \<Rightarrow> bool" where
  "settled_pipe s \<longleftrightarrow> down s \<or> replayed s"

lemma sync_states:
  "down s \<Longrightarrow> in_sync s" "replayed s \<Longrightarrow> in_sync s" "opened s \<Longrightarrow> buf s = [] \<Longrightarrow> in_sync s" "settled_pipe s \<Longrightarrow> in_sync s"
  by (auto simp: down_def replayed_def opened_def in_sync_def dated_def settled_pipe_def engine_texts_def)

text \<open>A step that leaves the pipe and the composition alone.\<close>

definition still :: "addon \<Rightarrow> addon \<Rightarrow> bool" where
  "still s s' \<longleftrightarrow> palive s' = palive s \<and> in_open s' = in_open s \<and> pending s' = pending s \<and> wire s' = wire s \<and>
     buf s' = buf s \<and> revision s' = revision s \<and> recoveryTried s' = recoveryTried s"

lemma still_refl [simp]: "still s s"
  by (simp add: still_def)

lemma still_trans: "still s s1 \<Longrightarrow> still s1 s2 \<Longrightarrow> still s s2"
  by (simp add: still_def)

lemma still_sel:
  assumes "still s s'"
  shows "palive s' = palive s" "in_open s' = in_open s" "pending s' = pending s" "wire s' = wire s"
    "buf s' = buf s" "revision s' = revision s" "recoveryTried s' = recoveryTried s"
  using assms by (simp_all add: still_def)

lemma still_keeps:
  assumes "still s s'"
  shows "down s' = down s" "opened s' = opened s" "replayed s' = replayed s" "settled_pipe s' = settled_pipe s"
    "in_sync s' = in_sync s" "current s' = current s" "quiet s' = quiet s" "dated s' = dated s"
  by (simp_all add: down_def opened_def replayed_def settled_pipe_def in_sync_def current_def quiet_def dated_def fun_eq_iff
      still_sel [OF assms])

lemma still_basic:
  "still s (updateUI cf ic s)" "still s (s\<lparr>spansEnabled := b\<rparr>)" "still s (scheduleRestart s)"
  "still s (s\<lparr>gaveUp := b\<rparr>)" "take_env s = (ok, s') \<Longrightarrow> still s s'"
  by (auto simp: still_def scheduleRestart_def dest: take_env_frame)

subsection \<open>Losing commands\<close>

declare run_lost.simps(2) [simp del]

lemma lost_still:
  assumes "recoveryTried s \<or> buf s = [] \<or> \<not> current s h"
  shows "still s (run_lost cf (Suc n) h s)"
proof (cases h)
  case (CandHandler ref ep eb er)
  show ?thesis
  proof (cases "deref ref s")
    case None
    then show ?thesis by (simp add: CandHandler run_lost.simps)
  next
    case (Some ic)
    show ?thesis
    proof (cases "er = revision s \<and> eb = buf s")
      case False
      then show ?thesis using Some by (simp add: CandHandler run_lost.simps)
    next
      case True
      then have "recoveryTried s \<or> buf s = []" using assms by (auto simp: current_def CandHandler)
      then show ?thesis using Some still_basic(1) by (auto simp: CandHandler run_lost.simps Let_def)
    qed
  qed
qed (simp_all add: still_basic run_lost.simps)

text \<open>Failing handlers one after the other when none of them calls back.\<close>

lemma fold_still:
  assumes "recoveryTried s \<or> buf s = [] \<or> (\<forall>h \<in> set hs. \<not> current s h)"
  shows "still s (fold (run_lost cf (Suc n)) hs s)"
  using assms
proof (induction hs arbitrary: s)
  case Nil
  then show ?case by simp
next
  case (Cons h hs)
  let ?a = "run_lost cf (Suc n) h s"
  have a: "still s ?a" using Cons.prems by (intro lost_still) auto
  have "still ?a (fold (run_lost cf (Suc n)) hs ?a)"
    using Cons.prems by (intro Cons.IH) (auto simp: still_sel [OF a] still_keeps(6) [OF a])
  then show ?case using still_trans [OF a] by simp
qed

lemma close_sel [simp]:
  "down (close_proc s)" "buf (close_proc s) = buf s" "revision (close_proc s) = revision s"
  "recoveryTried (close_proc s) = recoveryTried s" "current (close_proc s) = current s"
  by (simp_all add: close_proc_def down_def current_def fun_eq_iff)

lemma stop_quiet:
  assumes "quiet s"
  shows "still (close_proc s) (stop_with (run_lost cf (Suc n)) s)"
  unfolding stop_with_def using assms by (intro fold_still) (simp add: quiet_def)

lemma die_quiet:
  assumes "quiet s"
  shows "still (close_proc s) (die_with (run_lost cf (Suc n)) s)"
  unfolding die_with_def using still_trans [OF stop_quiet [OF assms] still_basic(3)] .

text \<open>What a write does when it cannot lead to a restart: the line is written, or the process is down.\<close>

definition pushed :: "string \<Rightarrow> handler \<Rightarrow> addon \<Rightarrow> addon \<Rightarrow> bool" where
  "pushed l h s s' \<longleftrightarrow> palive s \<and> palive s' \<and> in_open s' \<and> pending s' = pending s @ [h] \<and> wire s' = wire s @ [(l, h)] \<and>
     buf s' = buf s \<and> revision s' = revision s \<and> recoveryTried s' = recoveryTried s"

definition same_text :: "addon \<Rightarrow> addon \<Rightarrow> bool" where
  "same_text s s' \<longleftrightarrow> buf s' = buf s \<and> revision s' = revision s \<and> recoveryTried s' = recoveryTried s"

lemma still_same: "still s s' \<Longrightarrow> same_text s s'"
  by (simp add: still_def same_text_def)

lemma push_cases:
  assumes "palive s" and "in_open s" and "take_env s = (True, s1)"
  shows "pushed l h s (s1\<lparr>pending := pending s1 @ [h], wire := wire s1 @ [(l, h)]\<rparr>)"
  using assms take_env_frame [OF assms(3)] by (auto simp: pushed_def)

lemma send_quiet:
  assumes q: "quiet s" and h: "recoveryTried s \<or> buf s = [] \<or> \<not> current s h"
    and p: "palive s \<Longrightarrow> in_open s" "\<not> palive s \<Longrightarrow> down s"
  shows "pushed l h s (send_with (run_lost cf (Suc n)) l h s) \<or>
    down (send_with (run_lost cf (Suc n)) l h s) \<and> same_text s (send_with (run_lost cf (Suc n)) l h s)"
proof (cases "palive s")
  case False
  have a: "still s (run_lost cf (Suc n) h s)" by (rule lost_still [OF h])
  then show ?thesis using False p(2) still_same [OF a] by (simp add: send_with_def still_keeps [OF a])
next
  case True
  obtain ok s1 where t: "take_env s = (ok, s1)" by fastforce
  note c = still_basic(5) [OF t]
  show ?thesis
  proof (cases ok)
    case ok: True
    then show ?thesis using True p(1) t push_cases [of s s1 l h] by (simp add: send_with_def)
  next
    case False
    let ?d = "die_with (run_lost cf (Suc n)) s1"
    have d: "still (close_proc s1) ?d" using q by (intro die_quiet) (simp add: still_keeps [OF c])
    have e: "still ?d (run_lost cf (Suc n) h ?d)"
      using h by (intro lost_still) (simp add: still_sel [OF d] still_keeps [OF d] still_sel [OF c] still_keeps [OF c])
    have "down (run_lost cf (Suc n) h ?d)" "same_text s (run_lost cf (Suc n) h ?d)"
      using still_sel [OF e] still_keeps [OF e] still_sel [OF d] still_keeps [OF d] still_sel [OF c]
      by (simp_all add: same_text_def)
    then show ?thesis using True False p(1) t by (simp add: send_with_def)
  qed
qed

text \<open>Starting the engine when it is down.\<close>

lemma start_cases:
  assumes "down s" and "start_proc s = (ok, s')"
  shows "same_text s s' \<and> (if ok then palive s' \<and> in_open s' \<and> pending s' = [] \<and> wire s' = [] else down s')"
proof -
  obtain r s1 where t: "take_env s = (r, s1)" by fastforce
  obtain e where "s1 = s\<lparr>env := e\<rparr>" using take_env_frame [OF t] by blast
  then show ?thesis using assms t
    by (auto simp: start_proc_def down_def proc_running_def same_text_def split: if_split_asm)
qed

lemma ensure_cases:
  assumes d: "down s"
  shows "(down (ensureEngine_with (run_lost cf (Suc n)) s) \<or> opened (ensureEngine_with (run_lost cf (Suc n)) s)) \<and>
    same_text s (ensureEngine_with (run_lost cf (Suc n)) s)"
proof (cases "gaveUp s")
  case True
  then show ?thesis using d by (simp add: ensureEngine_with_def same_text_def)
next
  case False
  obtain ok s1 where t: "start_proc (s\<lparr>spansEnabled := False\<rparr>) = (ok, s1)" by fastforce
  have c: "same_text s s1 \<and> (if ok then palive s1 \<and> in_open s1 \<and> pending s1 = [] \<and> wire s1 = [] else down s1)"
    using start_cases [OF _ t] d by (auto simp: down_def same_text_def)
  have np: "\<not> palive s" using d by (simp add: down_def)
  show ?thesis
  proof (cases ok)
    case fl: False
    then show ?thesis using False np t c by (simp add: ensureEngine_with_def)
  next
    case True
    let ?x = "send_with (run_lost cf (Suc n)) ''OPT spans'' SpansHandler s1"
    have "pushed ''OPT spans'' SpansHandler s1 ?x \<or> down ?x \<and> same_text s1 ?x"
      using c True by (intro send_quiet) (simp_all add: quiet_def current_def)
    then have "(down ?x \<or> opened ?x) \<and> same_text s ?x"
      using c True by (auto simp: pushed_def opened_def same_text_def)
    then show ?thesis using False np t True by (simp add: ensureEngine_with_def)
  qed
qed


text \<open>Replaying the composition to an engine that is down or has just been started.\<close>

lemma opened_push:
  assumes "opened s" and "pushed (''B '' @ buf s) (candidateHandler s) s s'"
  shows "replayed s'"
  using assms by (auto simp: opened_def pushed_def replayed_def dated_def candidateHandler_def)

lemma inner_request:
  assumes r: "recoveryTried s" and o: "down s \<or> opened s"
  shows "let s' = requestCandidates_with (run_lost cf (Suc n)) (buf s) s in
    (if buf s = [] then down s' \<or> opened s' else settled_pipe s') \<and> same_text s s'"
proof (cases "buf s = []")
  case True
  then show ?thesis using o by (simp add: requestCandidates_with_def same_text_def)
next
  case False
  let ?e = "ensureEngine_with (run_lost cf (Suc n)) s"
  have e: "(down ?e \<or> opened ?e) \<and> same_text s ?e"
  proof (cases "palive s")
    case True
    then show ?thesis using o by (simp add: ensureEngine_with_def same_text_def)
  next
    case False
    then show ?thesis using o by (intro ensure_cases) (auto simp: opened_def)
  qed
  let ?x = "send_with (run_lost cf (Suc n)) (''B '' @ buf s) (candidateHandler ?e) ?e"
  have "pushed (''B '' @ buf s) (candidateHandler ?e) ?e ?x \<or> down ?x \<and> same_text ?e ?x"
    using e r by (intro send_quiet) (auto simp: quiet_def same_text_def opened_def down_def)
  moreover have "buf ?e = buf s" using e by (simp add: same_text_def)
  ultimately have "settled_pipe ?x \<and> same_text s ?x"
    using e opened_push [of ?e ?x] by (auto simp: settled_pipe_def same_text_def pushed_def down_def)
  then show ?thesis using False by (simp add: requestCandidates_with_def Let_def)
qed

text \<open>A lost handler keeps the process down, or restarts it and replays the composition; after that
  no other handler does so.\<close>

definition recovered :: "addon \<Rightarrow> bool" where
  "recovered s \<longleftrightarrow> down s \<or> recoveryTried s \<and> replayed s"

lemma recovered_settled: "recovered s \<Longrightarrow> settled_pipe s"
  by (auto simp: recovered_def settled_pipe_def)

lemma still_recovered: "still s s' \<Longrightarrow> recovered s' = recovered s"
  by (simp add: recovered_def still_keeps still_sel)

lemma lost_recovers:
  assumes "recovered s"
  shows "recovered (lost cf h s)"
proof (cases "recoveryTried s \<or> buf s = [] \<or> \<not> current s h")
  case True
  have "still s (lost cf h s)" unfolding lost_def numeral_2_eq_2 by (rule lost_still [OF True])
  then show ?thesis using assms by (simp add: still_recovered)
next
  case False
  then have d: "down s" and b: "buf s \<noteq> []" and r: "\<not> recoveryTried s" using assms by (auto simp: recovered_def)
  obtain ref ep where h: "h = CandHandler ref ep (buf s) (revision s)" using False by (auto simp: current_def)
  have rec: "recovered (let s2 = ensureEngine_with (run_lost cf (Suc 0)) ((updateUI cf ic s)\<lparr>recoveryTried := True\<rparr>)
      in requestCandidates_with (run_lost cf (Suc 0)) (buf s2) s2)" for ic
  proof -
    let ?u = "(updateUI cf ic s)\<lparr>recoveryTried := True\<rparr>"
    let ?e = "ensureEngine_with (run_lost cf (Suc 0)) ?u"
    have "down ?u" using d by (simp add: down_def)
    then have e: "down ?e \<or> opened ?e" "same_text ?u ?e" using ensure_cases by blast+
    let ?x = "requestCandidates_with (run_lost cf (Suc 0)) (buf ?e) ?e"
    have be: "buf ?e \<noteq> []" and re: "recoveryTried ?e" using e(2) b by (simp_all add: same_text_def)
    have "settled_pipe ?x" "same_text ?e ?x" using inner_request [OF re e(1), of cf 0] be by (simp_all add: Let_def)
    then have "recovered ?x" using re by (auto simp: recovered_def settled_pipe_def same_text_def)
    then show ?thesis by (simp add: Let_def)
  qed
  show ?thesis
  proof (cases "deref ref s")
    case None
    then show ?thesis using assms by (simp add: h lost_def numeral_2_eq_2 run_lost.simps)
  next
    case (Some ic)
    then show ?thesis using assms rec [of ic] b r
      by (simp add: h lost_def numeral_2_eq_2 run_lost.simps(2) [of cf "Suc 0"] Let_def)
  qed
qed

lemma fold_recovers: "recovered s \<Longrightarrow> recovered (fold (lost cf) hs s)"
  by (induction hs arbitrary: s) (simp_all add: lost_recovers)

lemma die_recovers: "recovered (die cf s)"
proof -
  have "recovered (stop_with (lost cf) s)"
    unfolding stop_with_def by (rule fold_recovers) (simp add: recovered_def)
  then show ?thesis using still_recovered [OF still_basic(3)] by (simp add: die_def die_with_def)
qed

subsection \<open>Writing to the engine\<close>

text \<open>Facts the invariant gives about the pipe.\<close>

lemma pipe_states:
  assumes "pipe_inv s"
  shows "palive s \<Longrightarrow> in_open s" "\<not> palive s \<Longrightarrow> down s"
  using assms by (simp_all add: pipe_inv_def down_def)

lemma send_outcome:
  assumes p: "pipe_inv s"
  shows "pushed l h s (send cf l h s) \<or> settled_pipe (send cf l h s)"
proof (cases "palive s")
  case False
  then have "recovered s" using pipe_states(2) [OF p] by (simp add: recovered_def)
  then show ?thesis using False recovered_settled [OF lost_recovers] by (simp add: send_def send_with_def)
next
  case True
  obtain ok s1 where t: "take_env s = (ok, s1)" by fastforce
  show ?thesis
  proof (cases ok)
    case ok: True
    then show ?thesis using True t pipe_states(1) [OF p] push_cases [of s s1 l h] by (simp add: send_def send_with_def)
  next
    case False
    have "settled_pipe (lost cf h (die cf s1))" by (rule recovered_settled [OF lost_recovers [OF die_recovers]])
    then show ?thesis using True False t pipe_states(1) [OF p] by (simp add: send_def send_with_def die_def)
  qed
qed

lemma send_quiet_outcome:
  assumes p: "pipe_inv s" and q: "quiet s" and h: "recoveryTried s \<or> buf s = [] \<or> \<not> current s h"
  shows "pushed l h s (send cf l h s) \<or> down (send cf l h s) \<and> same_text s (send cf l h s)"
  unfolding send_def lost_def numeral_2_eq_2 by (rule send_quiet [OF q h pipe_states [OF p]])

lemma pushed_sync:
  assumes "pushed l h s s'" and "dated s" and "\<And>r ep b n. h = CandHandler r ep b n \<Longrightarrow> n \<le> revision s"
    and "buf s \<in> edit_texts l (engine_texts (lines s))"
  shows "in_sync s'"
  using assms by (auto simp: pushed_def in_sync_def dated_def)

text \<open>A line that keeps the composition possible keeps the two sides in agreement.\<close>

lemma send_sync:
  assumes "pipe_inv s" and "dated s" and "\<And>r ep b n. h = CandHandler r ep b n \<Longrightarrow> n \<le> revision s"
    and "palive s \<Longrightarrow> buf s \<in> edit_texts l (engine_texts (lines s))"
  shows "in_sync (send cf l h s)"
  using send_outcome [OF assms(1), of l h cf] pushed_sync [OF _ assms(2,3)] assms(4) sync_states(4)
  by (auto simp: pushed_def)

lemma handler_dated: "candidateHandler s = CandHandler r ep b n \<Longrightarrow> n \<le> revision s"
  by (simp add: candidateHandler_def)

text \<open>The engine holds nothing.\<close>

definition cleared :: "addon \<Rightarrow> bool" where
  "cleared s \<longleftrightarrow> dated s \<and> (palive s \<longrightarrow> [] \<in> engine_texts (lines s))"

lemma cleared_sync: "cleared s \<Longrightarrow> buf s = [] \<Longrightarrow> in_sync s"
  by (simp add: cleared_def in_sync_def)

lemma clear_cleared:
  assumes p: "pipe_inv s" and q: "quiet s" and d: "dated s"
  shows "cleared (send cf ''C'' NoHandler s)"
proof -
  have "pushed ''C'' NoHandler s (send cf ''C'' NoHandler s) \<or> down (send cf ''C'' NoHandler s)"
    using send_quiet_outcome [OF p q, of NoHandler] by (auto simp: current_def)
  then show ?thesis using d by (auto simp: cleared_def pushed_def down_def dated_def)
qed

lemma ensure_outcome:
  assumes "\<not> palive s" and "pipe_inv s"
  shows "(down (ensureEngine cf s) \<or> opened (ensureEngine cf s)) \<and> same_text s (ensureEngine cf s)"
  unfolding ensureEngine_def lost_def numeral_2_eq_2
  by (rule ensure_cases [OF pipe_states(2) [OF assms(2,1)]])

lemma opened_cleared: "down s \<or> opened s \<Longrightarrow> cleared s"
  by (auto simp: down_def opened_def cleared_def dated_def engine_texts_def)

text \<open>Asking for candidates: the keys complete what the engine holds to the composition, or the
  engine holds nothing yet and the whole composition is written.\<close>

lemma request_sync:
  assumes p: "pipe_inv s" and l: "letters (buf s)" and d: "dated s" and b: "buf s \<noteq> []" and k: "keys \<noteq> []"
    and alive: "palive s \<Longrightarrow> buf s \<in> (\<lambda>t. t @ keys) ` engine_texts (lines s)"
    and dead: "\<not> palive s \<Longrightarrow> keys = buf s"
  shows "in_sync (requestCandidates cf keys s)"
proof (cases "palive s")
  case True
  then have e: "ensureEngine cf s = s" by (rule ensure_alive)
  have "in_sync (send cf (''B '' @ keys) (candidateHandler s) s)"
    using alive True by (intro send_sync [OF p d]) (auto dest: handler_dated)
  then show ?thesis using b k e by (simp add: requestCandidates_def requestCandidates_with_def ensureEngine_def send_def Let_def)
next
  case False
  let ?e = "ensureEngine cf s"
  have e: "down ?e \<or> opened ?e" "same_text s ?e" using ensure_outcome [OF False p] by auto
  have pe: "pipe_inv ?e" using calm_inv(2) [OF ensureEngine_calm [OF l] p] .
  have ke: "keys = buf ?e" using dead [OF False] e(2) by (simp add: same_text_def)
  have "cleared ?e" by (rule opened_cleared [OF e(1)])
  then have "in_sync (send cf (''B '' @ keys) (candidateHandler ?e) ?e)"
    using ke by (intro send_sync [OF pe]) (auto simp: cleared_def dest: handler_dated)
  then show ?thesis using b k by (simp add: requestCandidates_def requestCandidates_with_def ensureEngine_def send_def Let_def)
qed

lemma request_all:
  assumes "pipe_inv s" and "letters (buf s)" and "cleared s"
  shows "in_sync (requestCandidates cf (buf s) s)"
proof (cases "buf s = []")
  case True
  then show ?thesis using cleared_sync [OF assms(3)] by (simp add: requestCandidates_def requestCandidates_with_def)
next
  case False
  then show ?thesis using assms by (intro request_sync) (auto simp: cleared_def)
qed


subsection \<open>Committing\<close>

text \<open>A state that differs in nothing that matters for the agreement.\<close>

lemma sync_same:
  assumes "palive s' = palive s" and "pending s' = pending s" and "wire s' = wire s" and "buf s' = buf s" and "revision s' = revision s"
  shows "in_sync s' = in_sync s" and "dated s' = dated s"
  using assms by (simp_all add: in_sync_def dated_def)

lemma sync_dated: "in_sync s \<Longrightarrow> dated s"
  by (simp add: in_sync_def)

lemma sync_UI [simp]: "in_sync (updateUI cf ic s) = in_sync s"
  by (rule sync_same) simp_all

lemma sync_no_cands [simp]: "in_sync (no_cands s) = in_sync s"
  by (rule sync_same) (simp_all add: no_cands_def)

text \<open>With a new revision all waiting handlers are old.\<close>

lemma newer:
  assumes "dated s" and "pending s' = pending s" and "revision s < revision s'"
  shows "dated s'" and "quiet s'"
proof -
  show "dated s'" using assms by (fastforce simp: dated_def)
  show "quiet s'" using assms by (fastforce simp: quiet_def dated_def current_def)
qed

lemma core_pipe: "core_inv s \<Longrightarrow> pipe_inv s"
  by (simp add: core_inv_def)

lemma clear_sync:
  assumes "pipe_inv s" and "dated s" and "buf s = []"
  shows "in_sync (send cf ''C'' NoHandler s)"
proof -
  have l: "letters (buf s)" using assms(3) by simp
  have "buf (send cf ''C'' NoHandler s) = []" using calm_sel(1) [OF send_calm [OF l good_C(1)]] assms(3) by simp
  moreover have "quiet s" using assms(3) by (simp add: quiet_def)
  ultimately show ?thesis using cleared_sync [OF clear_cleared] assms(1,2) by blast
qed

lemma commitText_sync:
  assumes "pipe_inv s" and "dated s"
  shows "in_sync (commitText cf ic text s)"
  unfolding commitText_def Let_def sync_UI
proof (rule clear_sync)
  let ?a = "commitString ic text (remember cf ic text s)"
  let ?b = "(no_cands (?a\<lparr>revision := revision ?a + 1, buf := []\<rparr>))\<lparr>recoveryTried := False\<rparr>"
  show "pipe_inv ?b" using assms(1) by (simp add: pipe_inv_def commitString_def remember_def no_cands_def)
  show "dated ?b" using assms(2) by (rule newer(1)) (simp_all add: commitString_def remember_def no_cands_def)
  show "buf ?b = []" by (simp add: no_cands_def)
qed

lemma clearAll_sync:
  assumes "pipe_inv s" and "dated s"
  shows "in_sync (clearAll cf ico s)"
proof -
  let ?a = "cancelPending s"
  let ?b = "(no_cands (?a\<lparr>epoch := epoch ?a + 1, revision := revision ?a + 1, buf := []\<rparr>))\<lparr>recoveryTried := False\<rparr>"
  have "in_sync (send cf ''C'' NoHandler ?b)"
  proof (rule clear_sync)
    show "pipe_inv ?b" using assms(1) by (simp add: pipe_inv_def cancelPending_def disarmPending_def no_cands_def)
    show "dated ?b" using assms(2) by (rule newer(1)) (simp_all add: cancelPending_def disarmPending_def no_cands_def)
  qed (simp add: no_cands_def)
  then show ?thesis by (cases ico) (simp_all add: clearAll_def Let_def)
qed

lemma fallback_sync:
  assumes "pipe_inv s" and "dated s"
  shows "in_sync (fallbackPending cf ic s)"
proof -
  have "pipe_inv (cancelPending s)" "dated (cancelPending s)"
    using assms by (simp_all add: pipe_inv_def dated_def cancelPending_def disarmPending_def)
  then have "in_sync (commitText cf ic (pendingRaw s) (cancelPending s))" by (rule commitText_sync)
  then show ?thesis by (simp add: fallbackPending_def forward_releases_def Let_def in_sync_def dated_def)
qed

lemma select_sync:
  assumes "core_inv s" and "in_sync s"
  shows "in_sync (send cf (select_line i) NoHandler s)"
  using assms by (intro send_sync) (auto simp: core_pipe in_sync_def)

lemma select_rest_sync:
  assumes y: "in_sync s" and "pipe_inv b" and b: "palive b = palive s" "wire b = wire s" "pending b = pending s"
    "revision s < revision b" "buf b = drop n (buf s)"
  shows "in_sync (send cf (select_line i) (candidateHandler b) b)"
proof (rule send_sync [OF assms(2)])
  show "dated b" by (rule newer(1) [OF sync_dated [OF y] b(3,4)])
  assume "palive b"
  then have "buf s \<in> engine_texts (lines s)" using y b by (simp add: in_sync_def)
  then show "buf b \<in> edit_texts (select_line i) (engine_texts (lines b))"
    by (auto simp: b intro!: bexI [of _ "buf s"] suffix_drop)
qed (rule handler_dated)

lemma commitCandidate_sync:
  assumes c: "core_inv s" and y: "in_sync s"
  shows "in_sync (commitCandidate cf ic index s)"
proof (cases "\<not> candidatesCurrent s \<or> index < 0 \<or> int (length (cands s)) \<le> index")
  case True
  then show ?thesis using y by (auto simp: commitCandidate_def)
next
  case False
  let ?cover = "if index < int (length (covers s)) then covers s ! nat index else 0"
  let ?text = "cands s ! nat index"
  let ?sd = "send cf (select_line index) NoHandler s"
  have "pipe_inv ?sd" using after_send [OF c good_select] by (simp add: after_def core_pipe)
  then have full: "in_sync (commitText cf ic ?text ?sd)"
    using commitText_sync sync_dated [OF select_sync [OF c y]] by blast
  let ?a = "commitString ic ?text (remember cf ic ?text s)"
  let ?b = "no_cands (?a\<lparr>revision := revision ?a + 1, buf := drop (nat ?cover) (buf ?a)\<rparr>)"
  have "in_sync (send cf (select_line index) (candidateHandler ?b) ?b)"
    by (rule select_rest_sync [OF y]) (use core_pipe [OF c] in \<open>simp_all add: pipe_inv_def no_cands_def commitString_def remember_def\<close>)
  with full show ?thesis unfolding commitCandidate_def Let_def by (simp only: if_split sync_UI) (use False in blast)
qed

subsection \<open>Keys\<close>

lemma armPending_sync:
  assumes "core_inv s" and "in_sync s"
  shows "in_sync (armPending cf ic s)"
proof -
  let ?u = "updateUI cf ic (s\<lparr>pendingSpace := True, pendingTimer := Some (ic, epoch s)\<rparr>)"
  have "pipe_inv ?u" using core_pipe [OF assms(1)] by (simp add: pipe_inv_def)
  moreover have u: "in_sync ?u" using assms(2) by (simp add: in_sync_def dated_def)
  ultimately have "in_sync (fallbackPending cf ic ?u)" by (intro fallback_sync sync_dated)
  with u show ?thesis unfolding armPending_def Let_def by (simp only: if_split) blast
qed

text \<open>Deleting a letter: the engine is cleared and the rest is written again.\<close>

lemma retype_sync:
  assumes "pipe_inv s" and "letters (buf s)" and "dated s" and "quiet s"
  shows "let s2 = send cf ''C'' NoHandler s in
    pipe_inv s2 \<and> cleared s2 \<and> in_sync (requestCandidates cf (buf s2) s2) \<and> (buf s2 = [] \<longrightarrow> in_sync s2)"
proof -
  let ?b = "send cf ''C'' NoHandler s"
  have cb: "calm s ?b" by (rule send_calm [OF assms(2) good_C(1)])
  have p: "pipe_inv ?b" by (rule calm_inv(2) [OF cb assms(1)])
  moreover have c: "cleared ?b" by (rule clear_cleared [OF assms(1,4,3)])
  moreover have "letters (buf ?b)" using assms(2) calm_sel(1) [OF cb] by simp
  ultimately show ?thesis using request_all cleared_sync [OF c] by (simp add: Let_def)
qed

lemma pending_key_sync:
  assumes c: "core_inv s" and y: "in_sync s"
  shows "in_sync (snd (pending_key cf ic k s))"
proof -
  note d = sync_dated [OF y]
  have fb: "in_sync (fallbackPending cf ic (s\<lparr>queued := q\<rparr>))" for q
    using core_pipe [OF c] d by (intro fallback_sync) (simp_all add: pipe_inv_def dated_def)
  have ui: "in_sync (updateUI cf ic (s\<lparr>queued := q\<rparr>))" for q using y by (simp add: in_sync_def dated_def)
  have bksp: "in_sync (let s1 = s\<lparr>buf := butlast (buf s), revision := revision s + 1, candidatesCurrent := False,
                       cands := [], covers := []\<rparr>;
                s2 = send cf ''C'' NoHandler s1
            in if buf s2 = [] then fallbackPending cf ic s2 else updateUI cf ic (requestCandidates cf (buf s2) s2))"
  proof -
    let ?a = "s\<lparr>buf := butlast (buf s), revision := revision s + 1, candidatesCurrent := False, cands := [], covers := []\<rparr>"
    have "pipe_inv ?a" using core_pipe [OF c] by (simp add: pipe_inv_def)
    moreover have "letters (buf ?a)" using letters_part(1) [OF core_letters [OF c]] by simp
    moreover have "dated ?a" "quiet ?a" by (rule newer [OF d]; simp)+
    ultimately show ?thesis using retype_sync [of ?a cf] fallback_sync by (simp add: Let_def cleared_def)
  qed
  show ?thesis
    unfolding pending_key_def using bksp ui fb fallback_sync [OF core_pipe [OF c] d] clearAll_sync [OF core_pipe [OF c] d]
    by (simp add: Let_def split: option.split)
qed

lemma letter_key_sync:
  assumes c: "core_inv s" and y: "in_sync s" and k: "is_lower k \<or> is_upper k"
  shows "in_sync (letter_key cf ic k s)"
proof -
  let ?z = "if buf s = [] then s\<lparr>recoveryTried := False\<rparr> else s"
  let ?a = "ensureEngine cf ?z"
  let ?b = "?a\<lparr>revision := revision ?a + 1, buf := buf ?a @ [lower_of k], candidatesCurrent := False\<rparr>"
  let ?d = "updateUI cf ic ?b"
  let ?r = "\<not> palive ?z \<and> buf ?z \<noteq> []"
  have z: "core_inv ?z" "buf ?z = buf s" "palive ?z = palive s" "wire ?z = wire s"
    using after_flag [OF c, of False] c by (simp_all add: after_def)
  have yz: "in_sync ?z" using y by (auto simp: in_sync_def dated_def)
  have a: "core_inv ?a" using after_ensure [OF z(1)] by (simp add: after_def)
  have ba: "buf ?a = buf s" using calm_sel(1) [OF ensureEngine_calm [OF core_letters [OF z(1)]], of cf] z(2) by simp
  have ca: "?a = ?z \<and> palive s \<or> \<not> palive s \<and> cleared ?a"
    using ensure_alive [of ?z cf] opened_cleared ensure_outcome [OF _ core_pipe [OF z(1)], of cf] z(3) by blast
  have da: "dated ?a" using ca yz by (auto simp: cleared_def sync_dated)
  have "in_sync (requestCandidates cf (if ?r then buf ?d else [lower_of k]) ?d)"
  proof (rule request_sync)
    show "pipe_inv ?d" using core_pipe [OF a] by (simp add: pipe_inv_def)
    show "letters (buf ?d)" using core_letters [OF a] lower_of_letters [OF k] by simp
    show "dated ?d" using da by (rule newer(1)) simp_all
    assume al: "palive ?d"
    show "buf ?d \<in> (\<lambda>t. t @ (if ?r then buf ?d else [lower_of k])) ` engine_texts (lines ?d)"
    proof (cases "palive s")
      case True
      then have "buf s \<in> engine_texts (lines s)" using y by (simp add: in_sync_def)
      then show ?thesis using True ca z ba by auto
    next
      case False
      then have "[] \<in> engine_texts (lines ?a)" using ca al by (auto simp: cleared_def)
      then show ?thesis using False z ba by (auto intro: rev_image_eqI)
    qed
  next
    assume "\<not> palive ?d"
    then have "\<not> palive s" using ca z(3) by auto
    then show "(if ?r then buf ?d else [lower_of k]) = buf ?d" using z ba by auto
  qed (simp_all)
  then show ?thesis by (simp only: letter_key_def Let_def)
qed

lemma punct_key_sync:
  assumes c: "core_inv s" and y: "in_sync s"
  shows "in_sync (snd (punct_key cf ic key s))"
proof (cases "buf s = []")
  case True
  obtain t s1 where t: "punct_for ic key True s = (t, s1)" by fastforce
  have "in_sync s1" using t y by (auto simp: punct_for_def in_sync_def dated_def split: prod.split_asm)
  then show ?thesis using True t y
    by (simp add: punct_key_def Let_def commitString_def remember_def in_sync_def dated_def)
next
  case False
  let ?text = "if \<not> candidatesCurrent s \<or> cands s = [] then buf s else cands s ! nat (selected s)"
  let ?w = "fullwidthPunctuation (valid cf) (structured cf ic) (history s ic) key ?text"
  obtain t s1 where t: "punct_for ic key ?w s = (t, s1)" by fastforce
  have y1: "in_sync s1" using t y by (auto simp: punct_for_def in_sync_def dated_def split: prod.split_asm)
  have c1: "core_inv s1" using punct_for_after [OF c t] by (simp add: after_def)
  let ?s2 = "if candidatesCurrent s1 \<and> cands s1 \<noteq> [] then send cf (select_line (selected s1)) NoHandler s1 else s1"
  have "pipe_inv ?s2" using after_send [OF c1 good_select] c1 by (simp add: after_def core_pipe)
  moreover have "in_sync ?s2" using select_sync [OF c1 y1] y1 by simp
  ultimately have "in_sync (commitText cf ic x ?s2)" for x by (intro commitText_sync sync_dated)
  then show ?thesis using False t y1 by (simp add: punct_key_def Let_def)
qed

lemma backspace_sync:
  assumes c: "core_inv s" and y: "in_sync s"
  shows "in_sync (backspace_key cf ic s)"
proof -
  let ?a = "s\<lparr>buf := butlast (buf s), revision := revision s + 1, candidatesCurrent := False\<rparr>"
  have "pipe_inv ?a" using core_pipe [OF c] by (simp add: pipe_inv_def)
  moreover have "letters (buf ?a)" using letters_part(1) [OF core_letters [OF c]] by simp
  moreover have "dated ?a" "quiet ?a" by (rule newer [OF sync_dated [OF y]]; simp)+
  ultimately show ?thesis using retype_sync [of ?a cf]
    by (simp add: backspace_key_def Let_def)
qed

lemma page_keys_sync:
  assumes "in_sync s"
  shows "in_sync (arrow_key cf ic k s)" and "in_sync (page_back cf ic s)" and "in_sync (page_forward cf ic s)"
  using assms by (auto simp: arrow_key_def page_back_def page_forward_def Let_def in_sync_def dated_def)

lemma idle_prepare_sync: "in_sync s \<Longrightarrow> in_sync (idle_prepare cf ic y s)"
proof -
  assume y: "in_sync s"
  obtain ch n where n: "normalizePage s = (ch, n)" by fastforce
  then obtain ws sel where e: "n = s\<lparr>windowStart := ws, selected := sel\<rparr>" using normalizePage_frame [of s] by auto
  then have "in_sync n" using y by (auto simp: in_sync_def dated_def)
  then show ?thesis by (auto simp: idle_prepare_def n Let_def in_sync_def dated_def)
qed

lemma sync_if: "(c \<Longrightarrow> in_sync (snd a)) \<Longrightarrow> (\<not> c \<Longrightarrow> in_sync (snd b)) \<Longrightarrow> in_sync (snd (if c then a else b))"
  by simp

lemma idle_dispatch_sync:
  assumes c: "core_inv x" and y: "in_sync x"
  shows "in_sync (snd (idle_dispatch cf ic k sh x))"
proof -
  have lit: "in_sync (commitString ic t (remember cf ic t x))" for t
    using y by (simp add: commitString_def remember_def in_sync_def dated_def)
  show ?thesis
    unfolding idle_dispatch_def
    by (intro sync_if)
      (simp_all add: lit letter_key_sync [OF c y] page_keys_sync [OF y] punct_key_sync [OF c y] digit_key_def Let_def
        commitCandidate_sync [OF c y] armPending_sync [OF c y] commitText_sync [OF core_pipe [OF c] sync_dated [OF y]]
        backspace_sync [OF c y] clearAll_sync [OF core_pipe [OF c] sync_dated [OF y]] y)
qed

lemma idle_key_sync:
  assumes "core_inv s" and "\<not> pendingSpace s" and "in_sync s"
  shows "in_sync (snd (idle_key cf ic k s))"
  unfolding idle_key_def
  using idle_prepare_after [OF assms(1,2), of cf ic "sym k"] idle_prepare_sync [OF assms(3)]
  by (intro idle_dispatch_sync) (simp_all add: after_def)

lemma processKey_sync:
  assumes c: "core_inv s" and y: "in_sync s"
  shows "in_sync (snd (processKey cf ic k s))"
proof -
  let ?a = "if deref (icRef s) s \<noteq> Some ic then clearAll cf None s else s"
  let ?b = "?a\<lparr>icRef := Some ic\<rparr>"
  have cl: "core_inv (clearAll cf None s)" "pendingSpace (clearAll cf None s) = False"
    using clearAll_core [OF core_weak [OF c], of cf None] by auto
  have upd: "core_inv (x\<lparr>icRef := Some ic\<rparr>)" if "core_inv x" "\<not> pendingSpace x \<or> icRef x = Some ic" for x
    using that by (auto simp: core_inv_def pipe_inv_def wire_inv_def index_inv_def)
  have b: "core_inv ?b" using cl upd [of "clearAll cf None s"] upd [of s] c deref_some [of "icRef s" s ic] by auto
  have "in_sync ?a" using y clearAll_sync [OF core_pipe [OF c] sync_dated [OF y]] by simp
  then have yb: "in_sync ?b" by (simp add: in_sync_def dated_def)
  obtain b where eq: "?b = b" by blast
  have "snd (processKey cf ic k s) =
      (if pendingSpace b then snd (pending_key cf ic k b)
       else if shortcut k then b else if release k then b else snd (idle_key cf ic k b))"
    unfolding processKey_def Let_def eq by (simp split: if_split)
  then show ?thesis using b yb pending_key_sync [of b] idle_key_sync [of b] by (simp add: eq)
qed


subsection \<open>Replies and events\<close>

lemma drain_loop_sync:
  assumes "core_inv s" and "deref (icRef s) s = Some ic" and "in_sync s"
  shows "in_sync (drain_loop cf ic k s)"
  using assms
proof (induction k arbitrary: s)
  case 0
  then show ?case by simp
next
  case (Suc k)
  show ?case
  proof (cases "pendingSpace s \<or> queued s = []")
    case True
    then show ?thesis using Suc.prems by (cases "queued s") auto
  next
    case False
    then obtain q qs where q: "queued s = q # qs" and p: "\<not> pendingSpace s" by (cases "queued s") auto
    let ?a = "s\<lparr>queued := qs\<rparr>"
    obtain f s1 where k: "processKey cf ic q ?a = (f, s1)" by fastforce
    have ca: "core_inv ?a" using Suc.prems(1) by (simp add: core_inv_def pipe_inv_def wire_inv_def index_inv_def)
    have af: "after ?a s1"
      using processKey_after [OF ca, of ic cf q] p deref_some [OF Suc.prems(2)] k by (simp add: deref_def)
    have "in_sync ?a" using Suc.prems(3) by (simp add: in_sync_def dated_def)
    then have y1: "in_sync s1" using processKey_sync [OF ca, of cf ic q] k by simp
    obtain b where eq: "(if f then s1 else s1\<lparr>outp := outp s1 @ [Forward ic q]\<rparr>) = b" by blast
    have "core_inv b" using af by (auto simp: after_def core_inv_def pipe_inv_def wire_inv_def index_inv_def simp flip: eq)
    moreover have "in_sync b" using y1 by (simp add: in_sync_def dated_def flip: eq)
    moreover have "ic_live b = ic_live s" "icRef b = icRef s" using af by (simp_all add: after_def flip: eq)
    ultimately have "core_inv b" "in_sync b" "ic_live b = ic_live s" "icRef b = icRef s" by blast+
    then have "in_sync (drain_loop cf ic k b)" using Suc.prems(2) by (intro Suc.IH) (simp_all add: deref_def cong: option.case_cong)
    moreover have "drain_loop cf ic (Suc k) s = drain_loop cf ic k b"
      using p q k Suc.prems(2) by (simp add: Let_def flip: eq)
    ultimately show ?thesis by simp
  qed
qed

lemma drainQueued_sync:
  assumes "core_inv s" and "deref (icRef s) s = Some ic" and "in_sync s"
  shows "in_sync (drainQueued cf ic s)"
proof -
  let ?a = "s\<lparr>draining := True\<rparr>"
  have "core_inv ?a" using assms(1) by (simp add: core_inv_def pipe_inv_def wire_inv_def index_inv_def)
  then have "in_sync (drain_loop cf ic (length (queued s)) ?a)"
    using assms(2,3) by (intro drain_loop_sync) (simp_all add: deref_def in_sync_def dated_def cong: option.case_cong)
  then show ?thesis using assms(3) by (simp add: drainQueued_def in_sync_def dated_def)
qed

lemma cand_reply_sync:
  assumes c: "core_inv s" and y: "in_sync s"
  shows "in_sync (cand_reply cf ref ep eb er resp s)"
proof -
  note l = core_letters [OF c] and p = core_pipe [OF c] and d = sync_dated [OF y]
  have replay: "in_sync (let s1 = send cf ''C'' NoHandler (s\<lparr>recoveryTried := True\<rparr>) in requestCandidates cf (buf s1) s1)"
  proof -
    let ?a = "s\<lparr>recoveryTried := True\<rparr>"
    have "pipe_inv ?a" "letters (buf ?a)" "dated ?a" "quiet ?a" using p l d by (simp_all add: pipe_inv_def dated_def quiet_def)
    from retype_sync [OF this, of cf] show ?thesis by (simp add: Let_def)
  qed
  have take: "in_sync (let s1 = updateUI cf ic (s\<lparr>cands := map snd items, covers := map fst items,
                        candidatesCurrent := cur, windowStart := 0, selected := 0\<rparr>)
             in if cur \<and> pendingSpace s1 then
                  (if cands s1 = [] then fallbackPending cf ic s1
                   else let s2 = disarmPending s1
                        in drainQueued cf ic (commitCandidate cf ic (selected s2) s2))
                else s1)"
    if r: "deref (icRef s) s = Some ic" for ic cur and items :: "(int \<times> string) list"
  proof -
    let ?a = "s\<lparr>cands := map snd items, covers := map fst items, candidatesCurrent := cur, windowStart := 0, selected := 0\<rparr>"
    let ?u = "updateUI cf ic ?a"
    have wa: "weak_inv ?a" using core_weak [OF c] by (auto simp: weak_inv_def pipe_inv_def wire_inv_def index_inv_def)
    have wu: "weak_inv ?u" by (rule weak_calm [OF wa calm_updateUI])
    have yu: "in_sync ?u" using y by (simp add: in_sync_def dated_def)
    let ?d = "disarmPending ?u"
    have cd: "core_inv ?d" by (rule disarm_core [OF wu])
    have yd: "in_sync ?d" using yu by (simp add: disarmPending_def in_sync_def dated_def)
    obtain x where x: "commitCandidate cf ic (selected ?d) ?d = x" by blast
    have "after ?d x" using commitCandidate_after [OF cd, of cf ic "selected ?d"] by (simp only: x)
    then have dx: "core_inv x" "ic_live x = ic_live s" "icRef x = icRef s" by (simp_all add: after_def disarmPending_def)
    then have "deref (icRef x) x = Some ic" using deref_some [OF r] by (simp add: deref_def)
    moreover have "in_sync x" using commitCandidate_sync [OF cd yd, of cf ic "selected ?d"] by (simp only: x)
    ultimately have dr: "in_sync (drainQueued cf ic x)" using drainQueued_sync [OF dx(1)] by blast
    have fb: "in_sync (fallbackPending cf ic ?u)"
      using wu by (intro fallback_sync sync_dated [OF yu]) (simp add: weak_inv_def)
    show ?thesis unfolding Let_def x using dr fb yu by (simp only: if_split) blast
  qed
  show ?thesis
  proof (cases "deref ref s = None \<or> deref (icRef s) s \<noteq> deref ref s")
    case True
    then show ?thesis using y by (auto simp: cand_reply_def split: option.split)
  next
    case False
    then obtain ic where i: "deref ref s = Some ic" "deref (icRef s) s = Some ic" by auto
    show ?thesis
      unfolding cand_reply_def i(1) option.case
      using y replay take [OF i(2)] fallback_sync [OF p d, of cf ic] by (simp only: Let_def split: if_split) simp
  qed
qed

lemma onLine_sync:
  assumes i: "addon_inv s" and y: "in_sync s"
  shows "in_sync (onLine cf line s)"
proof (cases "pstate s = Ready \<and> line \<noteq> [] \<and> pending s \<noteq> []")
  case False
  then show ?thesis using y by (auto simp: onLine_def in_sync_def dated_def split: list.split)
next
  case True
  then obtain h hs where h: "pending s = h # hs" by (cases "pending s") auto
  let ?a = "s\<lparr>pending := hs, answered := answered s + 1\<rparr>"
  have p: "pipe_inv s" using i by (simp add: addon_inv_def core_inv_def)
  then have al: "palive s" using True by (auto simp: pipe_inv_def split: if_split_asm)
  have d: "h # hs = map snd (drop (answered s) (wire s))" and le: "answered s \<le> length (wire s)"
    using p al h by (auto simp: pipe_inv_def)
  have "answered s < length (wire s)" using d le by (cases "answered s = length (wire s)") auto
  moreover have "hs = map snd (drop (Suc (answered s)) (wire s))"
    using arg_cong [OF d, of tl] by (metis drop_Suc list.sel(3) map_tl tl_drop)
  ultimately have "pipe_inv ?a" using p al True by (simp add: pipe_inv_def)
  then have "core_inv ?a" using i by (simp add: addon_inv_def core_inv_def wire_inv_def index_inv_def)
  moreover have "in_sync ?a" using y h by (auto simp: in_sync_def dated_def)
  ultimately have "in_sync (run_reply cf h line ?a)"
    using cand_reply_sync by (auto simp: run_reply_def in_sync_def dated_def split: handler.split)
  then show ?thesis using True h by (simp add: onLine_def)
qed

lemma line_loop_sync: "addon_inv s \<Longrightarrow> in_sync s \<Longrightarrow> in_sync (line_loop cf k s)"
proof (induction k arbitrary: s)
  case 0
  then show ?case by simp
next
  case (Suc k)
  have "addon_inv (s\<lparr>rbuf := r\<rparr>) \<and> in_sync (s\<lparr>rbuf := r\<rparr>)" for r
    using inv_simple(2) [OF Suc.prems(1)] Suc.prems(2) by (simp add: in_sync_def dated_def)
  then show ?case using Suc onLine_inv onLine_sync by (simp add: Let_def)
qed

lemma die_sync: "in_sync (die cf s)"
  by (rule sync_states(4) [OF recovered_settled [OF die_recovers]])

lemma event_sync:
  assumes i: "addon_inv s" and y: "in_sync s"
  shows "in_sync (on_event cf e s)"
proof (cases e)
  case (KeyEvent ic k)
  then show ?thesis using processKey_sync [OF inv_core [OF i] y] by (simp add: on_event_def)
next
  case (FromEngine chunk)
  have "in_sync (s\<lparr>rbuf := r\<rparr>)" for r using y by (simp add: in_sync_def dated_def)
  then show ?thesis using FromEngine y die_sync line_loop_sync [OF inv_simple(2) [OF i]]
    by (simp add: on_event_def onReadable_def Let_def)
next
  case StartTimeout
  then show ?thesis using y die_sync by (simp add: on_event_def)
next
  case RestartTimer
  let ?a = "s\<lparr>restartSource := False\<rparr>"
  have a: "addon_inv ?a" "in_sync ?a" using inv_simple(6) [OF i] y by (simp_all add: in_sync_def dated_def)
  note l = core_letters [OF inv_core [OF a(1)]] and p = core_pipe [OF inv_core [OF a(1)]]
  have "in_sync (let s2 = ensureEngine cf ?a in requestCandidates cf (buf s2) s2)" if "\<not> palive ?a"
  proof -
    let ?e = "ensureEngine cf ?a"
    have ca: "calm ?a ?e" by (rule ensureEngine_calm [OF l])
    have "cleared ?e" using ensure_outcome [OF that p] opened_cleared by blast
    moreover have "letters (buf ?e)" using calm_sel(1) [OF ca] l by simp
    ultimately show ?thesis using request_all [OF calm_inv(2) [OF ca p]] by (simp add: Let_def)
  qed
  then show ?thesis using y a(2) by (simp add: RestartTimer on_event_def restart_timer_def Let_def)
next
  case PendingTimer
  then show ?thesis using y fallback_sync [OF core_pipe [OF inv_core [OF i]] sync_dated [OF y]]
    by (auto simp: on_event_def pending_timer_def split: option.split)
next
  case (ResetIM ic)
  let ?a = "send cf ''SAVE'' NoHandler s"
  have c: "core_inv ?a" using after_send [OF inv_core [OF i] good_C(2)] by (simp add: after_def)
  have "in_sync ?a" using y by (intro send_sync [OF core_pipe [OF inv_core [OF i]]]) (auto simp: in_sync_def)
  then have "in_sync (clearAll cf None ?a)" by (intro clearAll_sync core_pipe [OF c] sync_dated)
  then show ?thesis by (simp add: ResetIM on_event_def reset_im_def Let_def)
next
  case (Deactivate ic sw)
  obtain a where a: "(if sw \<and> buf s \<noteq> [] then commitString ic (pendingRaw s) (remember cf ic (pendingRaw s) s)
       else if sw then s\<lparr>history := (history s)(ic := (history s ic)\<lparr>afterDigit := False\<rparr>)\<rparr> else s) = a" by blast
  have "pipe_inv a" "dated a" using core_pipe [OF inv_core [OF i]] sync_dated [OF y]
    by (auto simp: commitString_def remember_def pipe_inv_def dated_def simp flip: a)
  then have "in_sync (clearAll cf None a)" by (rule clearAll_sync)
  then show ?thesis unfolding Deactivate on_event_def event.case deactivate_def Let_def a by simp
next
  case (SurroundingText ic b)
  then show ?thesis using y by (simp add: on_event_def surrounding_def in_sync_def dated_def)
next
  case (Click ic n)
  then show ?thesis using commitCandidate_sync [OF inv_core [OF i] y] by (simp add: on_event_def)
next
  case (PageConfig n)
  then show ?thesis using y by (simp add: on_event_def in_sync_def dated_def)
next
  case (ContextGone ic)
  then show ?thesis using y by (simp add: on_event_def in_sync_def dated_def)
qed

lemma events_sync: "addon_inv s \<Longrightarrow> in_sync s \<Longrightarrow> in_sync (on_events cf es s)"
  by (induction es arbitrary: s) (simp_all add: event_inv event_sync)

lemma new_addon_sync: "in_sync (new_addon cf results live page)"
proof -
  let ?b = "blank_addon results live page"
  have p: "pipe_inv ?b" "\<not> palive ?b" by (simp_all add: blank_addon_def pipe_inv_def)
  have "cleared (ensureEngine cf ?b)" "buf (ensureEngine cf ?b) = []"
    using ensure_outcome [OF p(2,1), of cf] opened_cleared by (simp_all add: same_text_def blank_addon_def)
  then show ?thesis by (simp add: new_addon_def cleared_sync)
qed

lemma reached_sync: "in_sync (reached cf results live page es)"
  by (rule events_sync [OF new_addon_inv new_addon_sync])

end
