(* ===== verification/Pipe_Sync.thy ===== *)
theory Pipe_Sync
  imports Protocol Addon_Sync
begin

text \<open>
  Addon and daemon joined: what the daemon records of the composition after reading the commands
  of the addon is what the addon shows.
\<close>

subsection \<open>The daemon reading command lines\<close>

lemma coalesced_keys:
  assumes "length (join_keys ks ls) < 511" and "list_all (\<lambda>l. c_string l = l) ls"
  shows "join_keys ks ls = ks @ concat (map (drop 2) ls)"
  using assms
proof (induction ls rule: rev_induct)
  case Nil
  then show ?case by (simp add: join_keys_def)
next
  case (snoc l ls)
  have j: "join_keys ks (ls @ [l]) = take 511 (join_keys ks ls @ drop 2 l)"
    using snoc.prems(2) by (simp add: join_keys_def)
  then have "length (join_keys ks ls @ drop 2 l) < 511" using snoc.prems(1) by simp
  then show ?case using j snoc by simp
qed

lemma good_c_string: "good_line l \<Longrightarrow> c_string l = l"
proof -
  assume "good_line l"
  then have "\<forall>c \<in> set l. 32 \<le> (of_char c :: nat)" by (auto simp: good_line_def)
  then have "CHR 0x00 \<notin> set l" by force
  then show ?thesis by (auto intro: c_string_id)
qed

text \<open>A line never makes the record something the line does not allow.\<close>

definition holds :: "'z dstate_scheme \<Rightarrow> string set \<Rightarrow> bool" where
  "holds s E \<longleftrightarrow> (\<forall>t. comp s = Some t \<longrightarrow> t \<in> E)"

lemma batches_texts:
  assumes "list_all (\<lambda>l. take 2 l = ''B '') ls"
  shows "fold edit_texts ls E = (\<lambda>t. t @ concat (map (drop 2) ls)) ` E"
  using assms
proof (induction ls arbitrary: E)
  case Nil
  then show ?case by simp
next
  case (Cons l ls)
  then obtain z where "l = CHR ''B'' # CHR '' '' # z" by (cases l; cases "tl l") auto
  then have "l \<noteq> ''C''" "\<not> selects l" "line_letters l = drop 2 l" by (simp_all add: selects_def line_letters_def)
  then have "edit_texts l E = (\<lambda>t. t @ drop 2 l) ` E" by (simp add: edit_texts_def)
  then show ?case using Cons by (simp add: image_image)
qed

lemma type_texts:
  assumes "apply_edit (Type ks) c = Some t'"
  obtains t where "c = Some t" "t' = t @ ks" "ks = [] \<or> length ks < 256"
  using assms by (cases c) (auto split: if_split_asm)

lemma select_texts:
  assumes "apply_edit (sel_edit arg s) c = Some t'" and "c = comp s" and "holds s E"
  shows "\<exists>t \<in> E. suffix t' t"
proof -
  have "\<exists>t. c = Some t \<and> suffix t' t"
    using assms(1) by (cases c) (auto simp: sel_edit_def Let_def suffix_drop split: if_split_asm)
  then show ?thesis using assms(2,3) by (auto simp: holds_def)
qed

lemma line_sid:
  assumes e: "engine_ok eng" and ok: "its_ok s" and d: "daemon_line eng cfg line inp s = Some (Next inp' s')"
  shows "sid s' = sid s \<or> (\<exists>x. sid s' = fst (create_session eng x))"
proof -
  have batch: "sid s' = sid s" if b: "cmd_batch eng cfg b ks k s = Some s'" for b ks k
  proof (cases "ks = [] \<or> sid s = 0")
    case True
    then show ?thesis using b by (auto simp: cmd_batch_def reply_def)
  next
    case False
    let ?ks = "if b then take 1 ks else ks"
    obtain s1 s3 ex where s1: "reg_sweep (drop_events s) = Some s1"
      and s3: "fetch_and_reply eng cfg k ex (send_keys eng ?ks s1) = Some s3"
      and s': "s' = (case gc_sessions eng of
            Some gc \<Rightarrow>
              if gc_every cfg \<noteq> 0 then
                (let n = since_gc s3 + 1
                 in if gc_every cfg \<le> int n then (gc s3)\<lparr>since_gc := 0\<rparr> else s3\<lparr>since_gc := n\<rparr>)
              else s3
          | None \<Rightarrow> s3)"
      using b False unfolding cmd_batch_def Let_def by (auto simp del: send_keys.simps)
    note dr = sweep_drop [OF ok s1] and k = send_keys_effect [OF e, of s1 ?ks]
    have "sid s3 = sid s"
      using fetch_and_reply_effect(3) [OF e _ s3] its_grow_ok dr(2,3) k by (auto simp: same_comp_def)
    moreover have "sid s' = sid s3"
    proof (cases "gc_sessions eng")
      case None
      then show ?thesis by (simp add: s')
    next
      case (Some gc)
      then have "engine_call {} s3 (gc s3)" using e by (simp add: engine_ok_def)
      then show ?thesis using Some engine_call_sel(5) by (auto simp: s' Let_def)
    qed
    ultimately show ?thesis by simp
  qed
  have sel: "sid s' = sid s" if b: "cmd_select eng cfg arg s = Some s'" for arg
  proof (cases "atoi arg < 0 \<or> int (length (g_ct s)) \<le> atoi arg \<or> dc_id (g_ct s ! nat (atoi arg)) = None")
    case True
    then show ?thesis using b by (auto simp: cmd_select_def reply_def Let_def split: if_split_asm)
  next
    case False
    let ?c = "g_ct s ! nat (atoi arg)"
    obtain i where i: "dc_id ?c = Some i" using False by auto
    obtain s1 where s1: "reg_sweep (drop_events s) = Some s1"
      using b False i by (auto simp: cmd_select_def Let_def)
    let ?s2 = "select_candidate eng (sid s) (dc_text ?c) i s1"
    have c: "engine_call {} s1 ?s2" using e by (simp add: engine_ok_def)
    note dr = sweep_drop [OF ok s1]
    have s2: "sid ?s2 = sid s" "its_ok ?s2"
      using engine_call_sel(5) [OF c] dr(3) its_grow_ok [OF engine_call_grow [OF c] dr(2)] by (simp_all add: same_comp_def)
    show ?thesis
    proof (cases "spans s \<and> sent_known s \<and> 0 < dc_cover ?c \<and> dc_cover ?c < int (length (sent s))")
      case False
      then show ?thesis using b \<open>\<not> (atoi arg < 0 \<or> _ \<or> _)\<close> i s1 s2(1)
        by (auto simp: cmd_select_def Let_def reply_def)
    next
      case True
      let ?s3 = "?s2\<lparr>sent := drop (nat (dc_cover ?c)) (sent ?s2)\<rparr>"
      have f: "fetch_and_reply eng cfg 0 (sent ?s3) ?s3 = Some s'"
        using b False i s1 True by (simp add: cmd_select_def Let_def)
      have "its_ok ?s3" using s2(2) by (simp add: its_ok_def)
      then show ?thesis using fetch_and_reply_effect(3) [OF e _ f] s2(1) by simp
    qed
  qed
  have clr: "\<exists>x. sid s' = fst (create_session eng x)" if cl: "cmd_clear eng s = Some s'"
  proof -
    obtain s1 where s1: "reg_sweep (drop_events s) = Some s1" using cl by (auto simp: cmd_clear_def)
    let ?s2 = "(cid_copies_clear s1)\<lparr>g_ct := []\<rparr>"
    let ?s3 = "?s2\<lparr>dels := dels ?s2 @ (if g_cur_it ?s2 \<noteq> 0 then [g_cur_it ?s2] else []), g_cur_it := 0\<rparr>"
    obtain x where x: "destroy_session eng (sid ?s3) ?s3 = x" by blast
    obtain sd s4 where s4: "create_session eng x = (sd, s4)" by fastforce
    have "s' = reply OK (s4\<lparr>sid := sd, g_ct := [], last_iterator := 0, sent := [], sent_known := True, since_gc := 0\<rparr>)"
      using cl s1 s4 x by (simp add: cmd_clear_def Let_def)
    then show ?thesis using s4 by (intro exI [of _ x]) (simp add: reply_def)
  qed
  have xp: "sid (cmd_export eng n s) = sid s" for n
  proof -
    have "engine_call {} s (snd (call_export eng n (sid s) s))" using e by (simp add: engine_ok_def)
    then show ?thesis using engine_call_sel(5) by (auto simp: cmd_export_def reply_def split: prod.split)
  qed
  show ?thesis
    using d batch sel clr xp
    by (auto simp: daemon_line_def reply_def Let_def split: if_split_asm prod.split_asm)
qed


text \<open>The documented contract of \<open>create_session\<close>: a session that is made has an identifier that is not
  zero.\<close>

definition sessions_ok :: "'z dstate_scheme engine \<Rightarrow> bool" where
  "sessions_ok eng \<longleftrightarrow> has_sessions eng \<and> (\<forall>x. fst (create_session eng x) \<noteq> 0)"

lemma line_holds:
  assumes e: "engine_ok eng" "sessions_ok eng" and ok: "its_ok s" "sid s \<noteq> 0" and g: "good_line l" and h: "holds s E"
    and ls: "in_ok inp" "stream inp = input_lines ls" "lines_ok ls" "list_all good_line ls"
    and d: "daemon_line eng cfg l inp s = Some (Next inp' s')"
  shows "\<exists>m. in_ok inp' \<and> stream inp' = input_lines (drop m ls) \<and> holds s' (fold edit_texts (l # take m ls) E) \<and>
    its_ok s' \<and> sid s' \<noteq> 0"
proof -
  have ne: "l \<noteq> []" using good_line_cmd [OF g] by simp
  obtain rs where i: "inp' = line_rest l inp" and ef: "effect rs (line_edit eng l inp s) s s'"
    using line_effect [OF e(1) ok(1) ne d] by blast
  have c: "comp s' = apply_edit (line_edit eng l inp s) (comp s)" and "its_ok s'"
    using ef its_grow_ok ok(1) by (auto simp: effect_def)
  moreover have sd: "sid s' \<noteq> 0" using line_sid [OF e(1) ok(1) d] ok(2) e(2) by (auto simp: sessions_ok_def)
  moreover have "\<exists>m. in_ok inp' \<and> stream inp' = input_lines (drop m ls) \<and> holds s' (fold edit_texts (l # take m ls) E)"
  proof (cases "take 2 l = ''B ''")
    case True
    then obtain z where z: "l = CHR ''B'' # CHR '' '' # z" by (cases l; cases "tl l") auto
    obtain m inp2 where m: "coalesce z 0 inp = (join_keys z (take m ls), m, inp2)" "m \<le> length ls"
      "\<forall>l \<in> set (take m ls). take 2 l = ''B ''" "in_ok inp2" "stream inp2 = input_lines (drop m ls)"
      using coalesce_lines [OF ls(1-3), of z 0] by auto
    let ?ks = "join_keys z (take m ls)"
    have "inp' = inp2" using i m(1) z by (simp add: line_rest_def)
    moreover have "holds s' (fold edit_texts (l # take m ls) E)"
      unfolding holds_def
    proof (intro allI impI)
      fix t' assume "comp s' = Some t'"
      then have "apply_edit (Type ?ks) (comp s) = Some t'" using c z m(1) ok(2) by (simp add: line_edit_def)
      then obtain t where t: "comp s = Some t" "t' = t @ ?ks" "?ks = [] \<or> length ?ks < 256" by (rule type_texts)
      have "list_all good_line (take m ls)" using ls(4) by (auto simp: list_all_iff dest: in_set_takeD)
      then have "list_all (\<lambda>l. c_string l = l) (take m ls)" using good_c_string by (auto simp: list_all_iff)
      moreover have "length ?ks < 511" using t(3) by auto
      ultimately have "?ks = z @ concat (map (drop 2) (take m ls))" by (intro coalesced_keys)
      moreover have "t \<in> E" using h t(1) by (simp add: holds_def)
      moreover have "list_all (\<lambda>l. take 2 l = ''B '') (l # take m ls)" using m(3) z by (auto simp: list_all_iff)
      then have bt: "fold edit_texts (l # take m ls) E = (\<lambda>t. t @ concat (map (drop 2) (l # take m ls))) ` E"
        by (rule batches_texts)
      ultimately show "t' \<in> fold edit_texts (l # take m ls) E"
        unfolding bt t(2) by (intro image_eqI [of _ _ t]) (simp_all add: z)
    qed
    ultimately show ?thesis using m(4,5) by blast
  next
    case False
    have "holds s' (edit_texts l E)"
      unfolding holds_def
    proof (intro allI impI)
      fix t' assume t': "comp s' = Some t'"
      show "t' \<in> edit_texts l E"
      proof (cases "l = ''C''")
        case True
        then show ?thesis using c t' e(2) by (simp add: edit_texts_def line_edit_def sessions_ok_def)
      next
        case nc: False
        show ?thesis
        proof (cases "selects l")
          case True
          then have "hd l = CHR ''S''" "l \<noteq> ''SAVE''" by (cases l; simp add: selects_def)+
          moreover from this ne have "take 2 l \<noteq> ''L ''" by (cases l) auto
          ultimately have "line_edit eng l inp s = sel_edit (tl l) s" using False by (simp add: line_edit_def)
          then show ?thesis using select_texts [of "tl l" s "comp s" t' E] c t' h True nc by (auto simp: edit_texts_def)
        next
          case ns: False
          have "line_edit eng l inp s = (if take 2 l = ''L '' then Type (take 1 (drop 2 l)) else Keep)"
            using False ns nc ne ok(2) by (cases l) (auto simp: line_edit_def selects_def)
          then have ed: "apply_edit (if take 2 l = ''L '' then Type (take 1 (drop 2 l)) else Keep) (comp s) = Some t'"
            using c t' by simp
          have "\<exists>t. comp s = Some t \<and> t' = t @ line_letters l"
          proof (cases "take 2 l = ''L ''")
            case True
            have "apply_edit (Type (take 1 (drop 2 l))) (comp s) = Some t'" using ed True by (simp del: apply_edit.simps)
            then obtain t where "comp s = Some t" "t' = t @ take 1 (drop 2 l)" by (rule type_texts)
            then show ?thesis using True by (simp add: line_letters_def)
          next
            case nl: False
            then show ?thesis using ed False by (simp add: line_letters_def)
          qed
          then show ?thesis using ns nc h by (auto simp: edit_texts_def holds_def)
        qed
      qed
    qed
    moreover have "inp' = inp" using i False by (simp add: line_rest_def)
    ultimately show ?thesis using ls by (intro exI [of _ 0]) simp
  qed
  ultimately show ?thesis by blast
qed

lemma exit_comp:
  assumes "engine_ok eng"
  shows "comp (daemon_exit eng s) = comp s"
proof -
  let ?s2 = "cid_copies_clear (s\<lparr>dels := dels s @ (if g_cur_it s \<noteq> 0 then [g_cur_it s] else [])\<rparr>)"
  let ?s3 = "if 0 < sint (sid ?s2) \<and> has_sessions eng then destroy_session eng (sid ?s2) ?s2 else ?s2"
  have x: "daemon_exit eng s = reply BYE ?s3" by (simp add: daemon_exit_def Let_def)
  have c: "engine_call {} ?s2 ?s3" using assms by (simp add: engine_ok_def)
  show ?thesis unfolding x using engine_call_sel(2,3) [OF c] by (simp add: comp_def reply_def cid_copies_clear_def)
qed

lemma loop_holds:
  assumes e: "engine_ok eng" "sessions_ok eng" and "its_ok s" and "sid s \<noteq> 0" and "holds s E"
    and "in_ok inp" and "stream inp = input_lines ls" and "lines_ok ls" and "list_all good_line ls"
    and "daemon_loop k eng cfg inp s = Some s'"
  shows "holds s' (fold edit_texts ls E)"
  using assms(3-)
proof (induction k arbitrary: inp s ls E)
  case 0
  then show ?case by simp
next
  case (Suc k)
  show ?case
  proof (cases ls)
    case Nil
    obtain i where "cmd_read 512 True inp = (None, i)"
      using cmd_read_end [OF Suc.prems(4), of 512] Suc.prems(5) Nil by auto
    then have "s' = daemon_exit eng s" using Suc.prems(8) by simp
    then show ?thesis using Suc.prems(3) exit_comp [OF e(1)] Nil by (simp add: holds_def)
  next
    case (Cons l ls1)
    have l: "NL \<notin> set l" "length l < 512" "lines_ok ls1" "good_line l" "list_all good_line ls1"
      using Suc.prems(6,7) Cons by simp_all
    have "stream inp = l @ NL # input_lines ls1" using Suc.prems(5) Cons by simp
    moreover have "take (512 - 1) (line_tail l) = l" using l(2) by (simp add: line_tail_short IN_CAP_def)
    ultimately obtain inp1 where rd: "cmd_read 512 True inp = (Some l, inp1)" "in_ok inp1" "stream inp1 = input_lines ls1"
      using cmd_read_line [OF Suc.prems(4) _ l(1), of "input_lines ls1" 512] by auto
    note c = good_line_cmd [OF l(4)]
    obtain o1 where o1: "daemon_line eng cfg l inp1 s = Some o1"
      using Suc.prems(8) rd(1) c by (auto simp: cmd_of_def Let_def split: option.split_asm)
    show ?thesis
    proof (cases o1)
      case (Quit s1)
      then show ?thesis using line_quit o1 c(4) by blast
    next
      case (Next inp2 s1)
      have lp: "daemon_loop k eng cfg inp2 s1 = Some s'"
        using Suc.prems(8) rd(1) c o1 Next by (simp add: cmd_of_def)
      obtain m where m: "in_ok inp2" "stream inp2 = input_lines (drop m ls1)"
        "holds s1 (fold edit_texts (l # take m ls1) E)" "its_ok s1" "sid s1 \<noteq> 0"
        using line_holds [OF e Suc.prems(1,2) l(4) Suc.prems(3) rd(2,3) l(3,5)] o1 Next by blast
      have "list_all good_line (drop m ls1)" using l(5) by (auto simp: list_all_iff dest: in_set_dropD)
      from Suc.IH [OF m(4,5,3,1,2) lines_ok_drop [OF l(3)] this lp]
      have "holds s' (fold edit_texts (l # take m ls1 @ drop m ls1) E)" by (simp del: append_take_drop_id)
      then show ?thesis by (simp add: Cons)
    qed
  qed
qed


subsection \<open>The composition end to end\<close>

text \<open>C17. The composition end to end. Take any state the addon can reach with a running engine process
  (after any keys, replies, failed writes, deaths and restarts), and the daemon reading exactly the
  commands written to that process, in any pieces and however it merges queued batches. If no
  candidate has been selected since the last \<open>C\<close> and the daemon still keeps its record of the typed
  letters (it gives up at 256), this record is the composition the addon shows: no letter is lost,
  doubled or typed into an old composition.\<close>

theorem composition_agrees:
  assumes "a = on_events cf es (new_addon cf results live page)" and "palive a"
    and "list_all (\<lambda>(l, h). length l < 512) (wire a)"
    and "engine_ok eng" and "sessions_ok eng" and "its_ok d" and "sid d \<noteq> 0"
    and "in_ok inp" and "stream inp = input_lines (map fst (wire a))"
    and "run_daemon eng dcf inp d = Some d'"
    and "no_selection (map fst (wire a))" and "sent_known d'"
  shows "sent d' = buf a"
proof -
  let ?ls = "map fst (wire a)"
  have i: "core_inv a" using reached_inv [of cf es results live page] assms(1) by (simp add: addon_inv_def)
  then have good: "list_all good_line ?ls" by (auto simp: core_inv_def wire_inv_def list_all_iff)
  then have "lines_ok ?ls" using assms(3) good_line_cmd(2) by (auto simp: lines_ok_def list_all_iff)
  moreover have "its_ok (start d)" using assms(6) by simp
  moreover have "sid (start d) \<noteq> 0" using assms(7) by (simp add: start_def reply_def)
  moreover have "holds (start d) {[]}" by (simp add: holds_def)
  ultimately have "holds d' (engine_texts ?ls)"
    unfolding engine_texts_def
    using loop_holds [OF assms(4,5) _ _ _ assms(8,9) _ good assms(10) [unfolded run_daemon_start]] by blast
  moreover have "buf a \<in> engine_texts ?ls" using reached_sync [of cf es results live page] assms(1,2) by (simp add: in_sync_def)
  ultimately show ?thesis using assms(12) engine_texts_exact [OF assms(11)] by (simp add: holds_def comp_def)
qed


text \<open>The user types \<open>n\<close>: the addon starts the engine, clears it for the new context and writes the key.\<close>

lemma sample_wire:
  "\<exists>a. on_events plain_conf [KeyEvent 0 (press (CHR ''n''))] (new_addon plain_conf [] (\<lambda>_. True) 5) = a \<and>
     palive a \<and> buf a = ''n'' \<and> map fst (wire a) = [''OPT spans'', ''C'', ''B n'']"
proof -
  obtain a where a: "new_addon plain_conf [] (\<lambda>_. True) 5 = a" "palive a" "in_open a" "env a = []" "icRef a = None"
    "\<not> gaveUp a"
    using new_addon_sel [of plain_conf "\<lambda>_. True" 5] by (auto simp: Let_def)
  have w: "map fst (wire a) = [''OPT spans'']" using sample_pipe a(1) by simp
  have k: "is_lower (Ascii (CHR ''n''))" "\<not> is_upper (Ascii (CHR ''n''))" "lower_of (Ascii (CHR ''n'')) = CHR ''n''"
    by (simp_all add: is_lower_def is_upper_def code_in_def lower_of_def the_char_def)
  let ?b = "(clearAll plain_conf None a)\<lparr>icRef := Some 0\<rparr>"
  have b: "palive ?b" "in_open ?b" "env ?b = []" "buf ?b = []" "\<not> pendingSpace ?b" "cands ?b = []" "windowStart ?b = 0"
    "selected ?b = 0" "map fst (wire ?b) = [''OPT spans'', ''C'']"
    using a w by (simp_all add: clearAll_def cancelPending_def disarmPending_def no_cands_def send_push)
  obtain c where c: "?b = c" by blast
  note b = b [unfolded c]
  have "normalizePage c = (False, c)" using b by (simp add: normalizePage_def)
  then have "idle_prepare plain_conf 0 (Ascii (CHR ''n'')) c = c" by (simp add: idle_prepare_def code_in_def is_kp_def)
  then have r: "snd (processKey plain_conf 0 (press (CHR ''n'')) a) = snd (idle_dispatch plain_conf 0 (Ascii (CHR ''n'')) False c)"
    using b a(5) unfolding processKey_def Let_def by (simp add: deref_def press_def idle_key_def c)
  let ?d = "snd (idle_dispatch plain_conf 0 (Ascii (CHR ''n'')) False c)"
  have "palive ?d \<and> buf ?d = ''n'' \<and> map fst (wire ?d) = [''OPT spans'', ''C'', ''B n'']"
    using b k by (simp add: idle_dispatch_def letter_key_def ensure_alive request_push Let_def)
  then show ?thesis using r a(1) by (simp add: on_event_def)
qed

text \<open>C28. Agreement of the two sides. After any events, while the engine process runs, the composition
  of the addon is one of the texts the engine can hold given the commands written to this process,
  where a selection may leave any suffix; and if no candidate has been selected since the last \<open>C\<close>,
  it is exactly the letters written since then. This holds whatever writes fail: a lost write ends
  with the process down, or with a new process that got the whole composition once.\<close>

theorem composition_in_sync:
  assumes "s = on_events cf es (new_addon cf results live page)" and "palive s"
  shows "buf s \<in> engine_texts (map fst (wire s)) \<and>
    (no_selection (map fst (wire s)) \<longrightarrow> buf s = typed (map fst (wire s)))"
proof -
  have "buf s \<in> engine_texts (map fst (wire s))" using reached_sync [of cf es results live page] assms by (simp add: in_sync_def)
  then show ?thesis using engine_texts_exact by auto
qed

theorem composition_in_sync_witness:
  "\<exists>a. on_events plain_conf [KeyEvent 0 (press (CHR ''n''))] (new_addon plain_conf [] (\<lambda>_. True) 5) = a \<and>
     buf a = ''n'' \<and> typed (map fst (wire a)) = ''n''"
proof -
  obtain a where s: "on_events plain_conf [KeyEvent 0 (press (CHR ''n''))] (new_addon plain_conf [] (\<lambda>_. True) 5) = a \<and>
      palive a \<and> buf a = ''n'' \<and> map fst (wire a) = [''OPT spans'', ''C'', ''B n'']"
    using sample_wire by (rule exE)
  note a = conjunct1 [OF s] conjunct1 [OF conjunct2 [OF s]] conjunct1 [OF conjunct2 [OF conjunct2 [OF s]]]
    and w = conjunct2 [OF conjunct2 [OF conjunct2 [OF s]]]
  have "no_selection (map fst (wire a))" unfolding w by (simp add: no_selection_def since_clear_def selects_def)
  then have "typed (map fst (wire a)) = ''n''" using composition_in_sync [OF a(1) [symmetric] a(2)] a(3) by simp
  then show ?thesis using a(1,3) by (intro exI [of _ a]) (simp only: simp_thms)
qed

definition sample_reader :: dstate where
  "sample_reader = sample_daemon\<lparr>obs := [([\<lparr>ev_it = 0x2, ev_known = True, ev_input = ''n''\<rparr>], 10)]\<rparr>"

lemma sample_commands:
  "\<exists>s2 s3. cmd_clear mute_engine (reply OK ((start sample_reader)\<lparr>spans := True\<rparr>)) = Some s2 \<and>
     cmd_batch mute_engine sample_config False ''n'' 0 s2 = Some s3 \<and> sent_known s3"
  by (simp add: cmd_clear_def cid_copies_clear_def cmd_batch_def start_def reply_def sample_reader_def sample_daemon_def
      drop_events_def daemon_drop_events_def reg_sweep_def malloc_tmp_def daemon_key_def mute_engine_def push_sent_def
      fetch_and_reply_def wait_cand_def daemon_wait_cand_def daemon_free_it_def daemon_fetch_cands_def sample_config_def
      fetch_batches_null daemon_reply_cands_def Let_def)

lemma sample_reading:
  "\<exists>d'. run_daemon mute_engine sample_config (sample_input [''OPT spans'', ''C'', ''B n'']) sample_reader = Some d' \<and> sent_known d'"
proof -
  let ?in = sample_input
  obtain s2 s3 where s: "cmd_clear mute_engine (reply OK ((start sample_reader)\<lparr>spans := True\<rparr>)) = Some s2"
    "cmd_batch mute_engine sample_config False ''n'' 0 s2 = Some s3" "sent_known s3"
    using sample_commands by blast
  have rd: "cmd_read 512 True (?in (l # ls)) = (Some l, ?in ls)" if "NL \<notin> set l" "length l < 511" for l ls
    using cmd_read_buffered [of "?in (l # ls)" l "input_lines ls" 512 True] that by (simp add: sample_input_def)
  have r1: "cmd_read 512 True (?in [''OPT spans'', ''C'', ''B n'']) = (Some ''OPT spans'', ?in [''C'', ''B n''])"
    and r2: "cmd_read 512 True (?in [''C'', ''B n'']) = (Some ''C'', ?in [''B n''])"
    and r3: "cmd_read 512 True (?in [''B n'']) = (Some ''B n'', ?in [])"
    by (rule rd; simp add: NL_def)+
  obtain j where e: "cmd_next_is_batch (?in []) = (False, j)" "in_ok j" "stream j = []"
    using next_is_batch_end [of "?in []"] by (cases "cmd_next_is_batch (?in [])") (auto simp: sample_input_def in_ok_def stream_def)
  obtain j2 where r4: "cmd_read 512 True j = (None, j2)" using cmd_read_end [OF e(2), of 512] e(3) by auto
  have c: "coalesce ''n'' 0 (?in []) = (''n'', 0, j)" by (simp add: coalesce.simps e(1))
  have t: "strip_cr (c_string ''OPT spans'') = ''OPT spans''" "strip_cr (c_string ''C'') = ''C''" "strip_cr (c_string ''B n'') = ''B n''"
    by (simp_all add: c_string_def strip_cr_rev NL_def)
  have l1: "daemon_line mute_engine sample_config ''OPT spans'' i x = Some (Next i (reply OK (x\<lparr>spans := True\<rparr>)))" for i x
    by (simp add: daemon_line_def)
  have l2: "daemon_line mute_engine sample_config ''C'' i (reply OK ((start sample_reader)\<lparr>spans := True\<rparr>)) = Some (Next i s2)" for i
    using s(1) by (simp add: daemon_line_def mute_engine_def)
  have l3: "daemon_line mute_engine sample_config ''B n'' (?in []) s2 = Some (Next j s3)"
    using s(2) by (simp add: daemon_line_def c)
  have lp: "daemon_loop (Suc (Suc (Suc (Suc k)))) mute_engine sample_config (?in [''OPT spans'', ''C'', ''B n'']) (start sample_reader) =
      Some (daemon_exit mute_engine s3)" for k
    by (simp add: r1 r2 r3 r4 t l1 l2 l3 Let_def)
  have len: "Suc (length (stream (?in [''OPT spans'', ''C'', ''B n'']))) = Suc (Suc (Suc (Suc 13)))"
    by (simp add: sample_input_def stream_def)
  have "comp (daemon_exit mute_engine s3) = comp s3" by (rule exit_comp [OF mute_engine_ok])
  then have "sent_known (daemon_exit mute_engine s3)" using s(3) by (simp add: comp_def split: if_split_asm)
  then show ?thesis unfolding run_daemon_start len lp by simp
qed

theorem composition_agrees_witness:
  "\<exists>a d'. on_events plain_conf [KeyEvent 0 (press (CHR ''n''))] (new_addon plain_conf [] (\<lambda>_. True) 5) = a \<and>
     run_daemon mute_engine sample_config (sample_input (map fst (wire a))) sample_reader = Some d' \<and> sent d' = ''n'' \<and> buf a = ''n''"
proof -
  obtain a where s: "on_events plain_conf [KeyEvent 0 (press (CHR ''n''))] (new_addon plain_conf [] (\<lambda>_. True) 5) = a \<and>
      palive a \<and> buf a = ''n'' \<and> map fst (wire a) = [''OPT spans'', ''C'', ''B n'']"
    using sample_wire by (rule exE)
  note a = conjunct1 [OF s] conjunct1 [OF conjunct2 [OF s]] conjunct1 [OF conjunct2 [OF conjunct2 [OF s]]]
    and w = conjunct2 [OF conjunct2 [OF conjunct2 [OF s]]]
  obtain d' where d: "run_daemon mute_engine sample_config (sample_input (map fst (wire a))) sample_reader = Some d'" "sent_known d'"
    using sample_reading unfolding w by blast
  have "\<forall>l \<in> set (map fst (wire a)). length l < 512" unfolding w by simp
  then have len: "list_all (\<lambda>(l, h). length l < 512) (wire a)" by (auto simp: list_all_iff)
  have se: "sessions_ok mute_engine" by (simp add: sessions_ok_def mute_engine_def)
  have ok: "its_ok sample_reader" "sid sample_reader \<noteq> 0"
    by (simp_all add: sample_reader_def sample_daemon_def its_ok_def its_def handed_def)
  have i: "in_ok (sample_input (map fst (wire a)))" "stream (sample_input (map fst (wire a))) = input_lines (map fst (wire a))"
    unfolding w by (simp_all add: sample_input_def in_ok_def IN_CAP_def stream_def)
  have n: "no_selection (map fst (wire a))" unfolding w by (simp add: no_selection_def since_clear_def selects_def)
  have "sent d' = ''n''" using composition_agrees [OF a(1) [symmetric] a(2) len mute_engine_ok se ok i d(1) n d(2)] a(3) by simp
  then show ?thesis using a(1,3) d(1) by (intro exI [of _ a] exI [of _ d']) (simp only: simp_thms)
qed

end
