(* ===== verification/Proto_Out.thy ===== *)
theory Proto_Out
  imports Protocol
begin

text \<open>
  How replies get onto the pipe: \<open>proto_printf\<close> in \<open>harness/jinterop.c\<close> formats into a buffer of 8192 bytes
  and writes as many bytes as the whole text has, so a longer text would be read past the end of the
  buffer (\<open>None\<close> here). The replies of the daemon are written in pieces that fit.
\<close>

definition proto_printf :: "string \<Rightarrow> bytes option" where
  "proto_printf text =
     (if length text < 8192 then Some text
      else if length text = 8192 then Some (take 8191 text @ [CHR 0x00])
      else None)"

text \<open>The calls of \<open>proto_printf\<close> that make up a reply: a candidate line goes out item by item.\<close>

definition reply_pieces :: "reply \<Rightarrow> string list" where
  "reply_pieces r = (case r of
       CAND sp items \<Rightarrow> ''CAND'' # map (render_item sp) items @ [[NL]]
     | _ \<Rightarrow> [render_reply r @ [NL]])"

fun write_pieces :: "string list \<Rightarrow> bytes option" where
  "write_pieces [] = Some []"
| "write_pieces (p # ps) = do { b \<leftarrow> proto_printf p; bs \<leftarrow> write_pieces ps; Some (b @ bs) }"

subsection \<open>Everything fits\<close>

lemma dec_string_length: "n < 10 ^ Suc k \<Longrightarrow> length (dec_string n) \<le> Suc k"
proof (induction n arbitrary: k rule: dec_string.induct)
  case (1 n)
  show ?case
  proof (cases "n < 10")
    case True
    then show ?thesis by (subst dec_string.simps) simp
  next
    case False
    then obtain j where j: "k = Suc j" using 1(2) by (cases k) auto
    then have "n div 10 < 10 ^ Suc j" using 1(2) by (simp add: less_mult_imp_div_less)
    then have "length (dec_string (n div 10)) \<le> Suc j" using 1(1) False by auto
    then show ?thesis using False j by (subst dec_string.simps) simp
  qed
qed

lemma show_int_length: "\<bar>i\<bar> < 10 ^ Suc k \<Longrightarrow> length (show_int i) \<le> Suc (Suc k)"
proof -
  assume i: "\<bar>i\<bar> < 10 ^ Suc k"
  then have "\<bar>i\<bar> < int (10 ^ Suc k)" by simp
  then have "nat i < 10 ^ Suc k" "nat (- i) < 10 ^ Suc k" by linarith+
  then show ?thesis using dec_string_length [of "nat i" k] dec_string_length [of "nat (- i)" k] by (auto simp: show_int_def)
qed

text \<open>The numbers are C integers and the texts are rows of the table of 256 bytes.\<close>

fun reply_ok :: "reply \<Rightarrow> bool" where
  "reply_ok (OKX r) = (\<bar>r\<bar> \<le> 2 ^ 63)"
| "reply_ok (CAND sp items) = list_all (\<lambda>it. \<bar>fst it\<bar> \<le> 2 ^ 31 \<and> length (snd it) < 256) items"
| "reply_ok _ = True"

lemma write_fits: "list_all (\<lambda>p. length p < 8192) ps \<Longrightarrow> write_pieces ps = Some (concat ps)"
  by (induction ps) (simp_all add: proto_printf_def)

lemma item_fits: "\<bar>fst it\<bar> \<le> 2 ^ 31 \<Longrightarrow> length (snd it) < 256 \<Longrightarrow> length (render_item sp it) < 8192"
  using show_int_length [of "fst it" 9] by (simp add: render_item_def)

text \<open>A reply is written completely, as its line.\<close>

lemma reply_written:
  assumes "reply_ok r"
  shows "write_pieces (reply_pieces r) = Some (render_reply r @ [NL])"
proof -
  have num: "length (show_int i) < 8180" if "\<bar>i\<bar> \<le> 2 ^ 63" for i
    using show_int_length [of i 18] that by simp
  have "list_all (\<lambda>p. length p < 8192) (reply_pieces r)"
    using assms num item_fits by (cases r) (fastforce simp: reply_pieces_def list_all_iff)+
  moreover have "concat (reply_pieces r) = render_reply r @ [NL]" by (cases r) (simp_all add: reply_pieces_def)
  ultimately show ?thesis by (simp add: write_fits)
qed

text \<open>A longer text than the buffer is not cut: the call reads beyond it.\<close>

lemma long_text_overreads: "8192 < length text \<Longrightarrow> proto_printf text = None"
  by (simp add: proto_printf_def)

subsection \<open>The candidate line\<close>

definition cand_fits :: "dcand \<Rightarrow> bool" where
  "cand_fits c \<longleftrightarrow> length (dc_text c) < 256 \<and> \<bar>dc_cover c\<bar> \<le> 2 ^ 31"

lemma cand_one_fits: "cand_one c s = Some (Some d, s1) \<Longrightarrow> cand_fits d"
proof -
  assume c: "cand_one c s = Some (Some d, s1)"
  obtain ob t i where d: "d = \<lparr>dc_text = snprintf_s 256 t, dc_id = i, dc_cover = cand_cover ob\<rparr>"
    using c by (auto simp: cand_one_def split: option.split_asm if_split_asm bind_splits)
  have "\<bar>sint (w :: 32 word)\<bar> \<le> 2 ^ 31" for w using sint_range_size [of w] by (auto simp: word_size)
  then have "\<bar>cand_cover ob\<bar> \<le> 2 ^ 31" by (simp add: cand_cover_def split: option.split)
  then show ?thesis using length_snprintf_s [of 256 t] by (simp add: cand_fits_def d)
qed

lemma scan_elems_fits:
  "scan_elems mc es acc s = Some (acc', s') \<Longrightarrow> list_all cand_fits acc \<Longrightarrow> list_all cand_fits acc'"
proof (induction es arbitrary: acc s)
  case Nil
  then show ?case by simp
next
  case (Cons c cs)
  show ?case
  proof (cases "mc \<le> length acc")
    case True
    then show ?thesis using Cons.prems by simp
  next
    case False
    then obtain r s1 where r: "cand_one c s = Some (r, s1)"
      "scan_elems mc cs (case r of None \<Rightarrow> acc | Some d \<Rightarrow> acc @ [d]) s1 = Some (acc', s')"
      using Cons.prems(1) by (auto split: bind_splits)
    have "list_all cand_fits (case r of None \<Rightarrow> acc | Some d \<Rightarrow> acc @ [d])"
      using r(1) cand_one_fits Cons.prems(2) by (cases r) auto
    then show ?thesis using Cons.IH r(2) by blast
  qed
qed

lemma scan_arrays_fits:
  "scan_arrays mc as acc s = Some (cs, s') \<Longrightarrow> list_all cand_fits acc \<Longrightarrow> list_all cand_fits cs"
proof (induction as arbitrary: acc s)
  case Nil
  then show ?case by simp
next
  case (Cons a as)
  obtain es acc1 s1 where "scan_elems mc es acc s = Some (acc1, s1)" "scan_arrays mc as acc1 s1 = Some (cs, s')"
    using Cons.prems(1) by (auto split: bind_splits)
  then show ?case using Cons.IH scan_elems_fits Cons.prems(2) by blast
qed

text \<open>The line for the candidates that were fetched is written completely.\<close>

lemma fetched_line_written:
  assumes "it \<noteq> 0" and "daemon_fetch_cands (Some get_n) mc it s = Some (n, s')"
    and r_def: "r = CAND sp (map (\<lambda>c. (dc_cover c, dc_text c)) (g_ct s'))"
  shows "write_pieces (reply_pieces r) = Some (render_reply r @ [NL])"
proof (rule reply_written)
  obtain as cs s1 s2 ps s4 where sc: "scan_arrays mc as [] s1 = Some (cs, s2)"
    and r: "(if dup_scan [] ps then Some (s2\<lparr>g_ct := cs\<rparr>) else release_pages as (s2\<lparr>g_ct := cs\<rparr>)) = Some s4"
    and s': "s' = s4\<lparr>dels := dels s4 @ (if g_cur_it s4 \<noteq> 0 \<and> g_cur_it s4 \<noteq> it then [g_cur_it s4] else []), g_cur_it := it\<rparr>"
    using assms(1,2) unfolding daemon_fetch_cands_def Let_def by auto
  have "reg_frame (s2\<lparr>g_ct := cs\<rparr>) s4" using r release_pages_frame by (auto split: if_split_asm)
  then have "g_ct s4 = cs" by (auto simp: reg_frame_def)
  then have "list_all cand_fits (g_ct s')" using scan_arrays_fits [OF sc] s' by simp
  then show "reply_ok r" by (auto simp: r_def list_all_iff cand_fits_def)
qed

end
