(* ===== verification/Harness_Main.thy ===== *)
theory Harness_Main
  imports Startup Daemon_Fetch
begin

text \<open>
  \<open>main\<close> of the harness (\<open>harness/jinterop.c\<close>): its arguments, the order of the start-up, and what it does
  without the daemon once the session is made: the keys of \<open>WETYPE_INPUT\<close>, the dump of the fake
  objects, the candidates, and the test of learning, which types a word, selects a certain
  candidate, and types the word again in a new session.
  What is printed is kept as values (\<open>line\<close>), without the fixed texts around them.
\<close>

subsection \<open>Arguments\<close>

text \<open>Daemon mode, path of the library, verbosity. \<open>argv\<close> is without the name of the program.\<close>

definition daemon_arg :: "string list \<Rightarrow> bool" where
  "daemon_arg argv \<longleftrightarrow> ''--daemon'' \<in> set argv"

definition jni_lib :: "string list \<Rightarrow> string" where
  "jni_lib argv = (case argv of [] \<Rightarrow> ''runtime/libwxhld_jni.so'' | a # _ \<Rightarrow> a)"

definition g_verbose :: "string list \<Rightarrow> int" where
  "g_verbose argv =
     (if daemon_arg argv then 0
      else case argv of _ # v # _ \<Rightarrow> atoi v | _ \<Rightarrow> 1)"

subsection \<open>Output\<close>

text \<open>A printed value; a null string prints as \<open>Text None\<close>, and of a nested object its fields.\<close>

datatype shown =
    Text "string option"
  | Num int
  | Real u32
  | Ptr u64
  | Inner u64 string "(string \<times> char \<times> u64) list"

datatype line =
    InputResult string int
  | ObjLine nat string "(string \<times> shown) list"
  | Candidates int
  | NullObj
  | ObjDump string "(string \<times> shown) list"
  | NullList
  | NoIterator string
  | Rank string nat "string option"

subsection \<open>Dumps\<close>

text \<open>The float whose bits were stored by \<open>f2bits\<close>: the low half of the slot.\<close>

definition shown_number :: "jfield \<Rightarrow> shown option" where
  "shown_number f =
     (if ftype f \<in> {CHR ''i'', CHR ''l'', CHR ''z''} then Some (Num (sint (fval f)))
      else if ftype f = CHR ''f'' then Some (Real (ucast (fval f)))
      else None)"

text \<open>A field in the list of all objects; a field of another type prints nothing.\<close>

definition brief_field :: "jfield \<Rightarrow> 'z hmem_scheme \<Rightarrow> (string \<times> shown) list option" where
  "brief_field f s =
     (if ftype f = CHR ''s'' then do { t \<leftarrow> str_at (fval f) s; Some [(fname f, Text t)] }
      else case shown_number f of
          Some v \<Rightarrow> Some [(fname f, v)]
        | None \<Rightarrow> Some (if ftype f = CHR ''o'' then [(fname f, Ptr (fval f))] else []))"

fun collect :: "('a \<Rightarrow> 'b list option) \<Rightarrow> 'a list \<Rightarrow> 'b list option" where
  "collect f [] = Some []"
| "collect f (x # xs) = do { y \<leftarrow> f x; ys \<leftarrow> collect f xs; Some (y @ ys) }"

text \<open>One slot of the registry.\<close>

definition dump_slot :: "'z hreg_scheme \<Rightarrow> nat \<Rightarrow> line list option" where
  "dump_slot s i =
     (let e = slots s ! i in
      if rk e \<noteq> R_JOBJ \<or> rp e = 0 then Some []
      else do {
        ob \<leftarrow> get_obj (rp e) s;
        if jfields ob = [] then Some []
        else do { fs \<leftarrow> collect (\<lambda>f. brief_field f s) (jfields ob); Some [ObjLine i (jcls ob) fs] }
      })"

definition dump_all_objs :: "'z hreg_scheme \<Rightarrow> line list option" where
  "dump_all_objs s = collect (dump_slot s) [0..<regn s]"

text \<open>A field of a candidate; fields whose name starts with a dot are left out.\<close>

definition full_field :: "jfield \<Rightarrow> 'z hmem_scheme \<Rightarrow> (string \<times> shown) list option" where
  "full_field f s =
     (if take 1 (fname f) = ''.'' then Some []
      else if ftype f = CHR ''s'' then do { t \<leftarrow> str_at (fval f) s; Some [(fname f, Text t)] }
      else case shown_number f of
          Some v \<Rightarrow> Some [(fname f, v)]
        | None \<Rightarrow> do {
            j \<leftarrow> is_jobj (fval f) s;
            if \<not> j then Some [(fname f, Ptr (fval f))]
            else do {
              ob \<leftarrow> get_obj (fval f) s;
              case obj_get ob ''.str'' of
                Some sf \<Rightarrow> do { t \<leftarrow> str_at (fval sf) s; Some [(fname f, Text t)] }
              | None \<Rightarrow> Some [(fname f, Inner (fval f) (jcls ob) (map (\<lambda>g. (fname g, ftype g, fval g)) (jfields ob)))]
            }
          })"

definition dump_obj :: "u64 \<Rightarrow> 'z hmem_scheme \<Rightarrow> line option" where
  "dump_obj p s =
     (if p = 0 then Some NullObj
      else do {
        ob \<leftarrow> get_obj p s;
        fs \<leftarrow> collect (\<lambda>f. full_field f s) (jfields ob);
        Some (ObjDump (jcls ob) fs)
      })"

text \<open>The texts of an array of candidates, ranked from \<open>i\<close>.\<close>

fun rank_lines :: "string \<Rightarrow> nat \<Rightarrow> u64 list \<Rightarrow> 'z hmem_scheme \<Rightarrow> line list option" where
  "rank_lines tag i [] s = Some []"
| "rank_lines tag i (c # cs) s = do {
     t \<leftarrow> cand_text c s;
     ls \<leftarrow> rank_lines tag (Suc i) cs s;
     Some (Rank tag i t # ls)
   }"

subsection \<open>The library\<close>

text \<open>The functions \<open>main\<close> looks up in the library; each may be missing.\<close>

record 's lib =
  l_listen :: "(u64 \<Rightarrow> 's \<Rightarrow> 's) option"
  l_input :: "(u64 \<Rightarrow> string \<Rightarrow> 's \<Rightarrow> int \<times> 's) option"
  l_get_n :: "(u64 \<Rightarrow> nat \<Rightarrow> 's \<Rightarrow> u64 \<times> 's) option"
  l_create :: "('s \<Rightarrow> u64 \<times> 's) option"
  l_destroy :: "(u64 \<Rightarrow> 's \<Rightarrow> 's) option"
  l_select :: "(u64 \<Rightarrow> string \<Rightarrow> u64 \<Rightarrow> 's \<Rightarrow> 's) option"

definition dump_order ::
    "(u64 \<Rightarrow> nat \<Rightarrow> 'z hmem_scheme \<Rightarrow> u64 \<times> 'z hmem_scheme) option \<Rightarrow> u64 \<Rightarrow> nat \<Rightarrow> string \<Rightarrow> 'z hmem_scheme \<Rightarrow>
     (line list \<times> 'z hmem_scheme) option" where
  "dump_order cg it n tag s = (case cg of
       None \<Rightarrow> Some ([NoIterator tag], s)
     | Some get \<Rightarrow>
         if it = 0 then Some ([NoIterator tag], s)
         else let (a, s1) = get it n s in
              if a = 0 then Some ([NullList], s1)
              else do { es \<leftarrow> arr_elems a s1; ls \<leftarrow> rank_lines tag 0 es s1; Some (ls, s1) })"

subsection \<open>The keys of the environment\<close>

text \<open>The pieces of \<open>WETYPE_INPUT\<close>: the copy holds 1023 bytes, there are 64 static input objects.\<close>

definition input_pieces :: "string option \<Rightarrow> string list" where
  "input_pieces e =
     take 64 (strtok_all (CHR '';'') (snprintf_s 1024 (case e of None \<Rightarrow> ''d nihao'' | Some i \<Rightarrow> i)))"

fun process_pieces :: "(u64 \<Rightarrow> string \<Rightarrow> 's \<Rightarrow> int \<times> 's) \<Rightarrow> u64 \<Rightarrow> string list \<Rightarrow> 's \<Rightarrow> line list \<times> 's" where
  "process_pieces pi sd [] s = ([], s)"
| "process_pieces pi sd (p # ps) s =
     (let (r, s1) = pi sd p s; (ls, s2) = process_pieces pi sd ps s1 in (InputResult p r # ls, s2))"

text \<open>The candidates of the last iterator.\<close>

definition print_candidates ::
    "(u64 \<Rightarrow> nat \<Rightarrow> 'z cand_env_scheme \<Rightarrow> u64 \<times> 'z cand_env_scheme) \<Rightarrow> 'z cand_env_scheme \<Rightarrow>
     (line list \<times> 'z cand_env_scheme) option" where
  "print_candidates get s =
     (let (a, s1) = get (last_iterator s) 10 s in
      if a = 0 then Some ([NullList], s1)
      else do {
        arr \<leftarrow> get_arr a s1;
        es \<leftarrow> arr_elems a s1;
        ls \<leftarrow> collect (\<lambda>c. map_option (\<lambda>l. [l]) (dump_obj c s1)) es;
        Some (Candidates (sint (alen arr)) # ls, s1)
      })"

text \<open>Everything up to the test of learning; \<open>quiet\<close> says that \<open>WETYPE_NO_CAND\<close> or
  \<open>WETYPE_TEST_LEARN\<close> is set.\<close>

definition type_and_dump ::
    "'z cand_env_scheme lib \<Rightarrow> string option \<Rightarrow> bool \<Rightarrow> u64 \<Rightarrow> 'z cand_env_scheme \<Rightarrow>
     (line list \<times> 'z cand_env_scheme) option" where
  "type_and_dump lib e quiet sd s = (case l_input lib of
       None \<Rightarrow> Some ([], s)
     | Some pi \<Rightarrow>
         if sint sd \<le> 0 then Some ([], s)
         else do {
           let (ls, s1) = process_pieces pi sd (input_pieces e) s;
           ds \<leftarrow> dump_all_objs s1;
           (cs, s2) \<leftarrow> (case l_get_n lib of
               None \<Rightarrow> Some ([], s1)
             | Some get \<Rightarrow> if quiet then Some ([], s1) else print_candidates get s1);
           Some (ls @ ds @ cs, s2)
         })"

subsection \<open>The test of learning\<close>

text \<open>Pressing and releasing one key, and the word: the first letter is written out, the others are a
  loop.\<close>

definition tap :: "(u64 \<Rightarrow> string \<Rightarrow> 's \<Rightarrow> int \<times> 's) \<Rightarrow> u64 \<Rightarrow> char \<Rightarrow> 's \<Rightarrow> 's" where
  "tap pi sd c s = snd (pi sd (snprintf_s 8 (''u '' @ [c])) (snd (pi sd (snprintf_s 8 (''d '' @ [c])) s)))"

definition type_nihao :: "(u64 \<Rightarrow> string \<Rightarrow> 's \<Rightarrow> int \<times> 's) \<Rightarrow> u64 \<Rightarrow> 's \<Rightarrow> 's" where
  "type_nihao pi sd s =
     (let s1 = snd (pi sd ''d n'' s); s2 = snd (pi sd ''u n'' s1)
      in fold (tap pi sd) ''ihao'' s2)"

text \<open>The candidate that is selected, two characters of three bytes.\<close>

definition TARGET :: string where
  "TARGET = [CHR 0xE6, CHR 0x8B, CHR 0x9F, CHR 0xE5, CHR 0xA5, CHR 0xBD]"

text \<open>The loop over the first list: the last candidate with this text and an identifier is taken;
  what the field \<open>id\<close> holds is used as it is.\<close>

fun find_target :: "nat \<Rightarrow> u64 list \<Rightarrow> u64 \<Rightarrow> 'z hmem_scheme \<Rightarrow> (line list \<times> u64) option" where
  "find_target i [] sel s = Some ([], sel)"
| "find_target i (c # cs) sel s = do {
     t \<leftarrow> cand_text c s;
     sel1 \<leftarrow> (if t = Some TARGET then do {
         ob \<leftarrow> get_obj c s;
         Some (case obj_get ob ''id'' of
             Some f \<Rightarrow> if fval f \<noteq> 0 then fval f else sel
           | None \<Rightarrow> sel)
       } else Some sel);
     (ls, r) \<leftarrow> find_target (Suc i) cs sel1 s;
     Some (Rank ''A'' i t # ls, r)
   }"

text \<open>How it ends: with an exit code, or it runs to its end.\<close>

datatype 's learned = Exit int "line list" 's | Finished "line list" 's

definition learn_second ::
    "'z cand_env_scheme lib \<Rightarrow> (u64 \<Rightarrow> string \<Rightarrow> 'z cand_env_scheme \<Rightarrow> int \<times> 'z cand_env_scheme) \<Rightarrow>
     ('z cand_env_scheme \<Rightarrow> u64 \<times> 'z cand_env_scheme) \<Rightarrow> line list \<Rightarrow> 'z cand_env_scheme \<Rightarrow>
     'z cand_env_scheme learned option" where
  "learn_second lib pi create ls s =
     (let (sd2, s1) = create s in
      if sint sd2 \<le> 0 then Some (Exit 4 ls s1)
      else
        let s2 = type_nihao pi sd2 s1 in
        do { (os, s3) \<leftarrow> dump_order (l_get_n lib) (last_iterator s2) 10 ''B'' s2; Some (Finished (ls @ os) s3) })"

text \<open>\<open>process_input\<close> is not tested here: calling it when it is missing is a call of a null pointer.\<close>

definition test_learn :: "'z cand_env_scheme lib \<Rightarrow> u64 \<Rightarrow> 'z cand_env_scheme \<Rightarrow> 'z cand_env_scheme learned option" where
  "test_learn lib sd s = (case (l_get_n lib, l_create lib, l_destroy lib, l_select lib) of
       (Some get, Some create, Some destroy, Some select) \<Rightarrow>
         (case l_input lib of
            None \<Rightarrow> None
          | Some pi \<Rightarrow>
              let s1 = type_nihao pi sd s; (a, s2) = get (last_iterator s1) 10 s1 in
              if a = 0 then Some (Exit 5 [] s2)
              else do {
                es \<leftarrow> arr_elems a s2;
                (ls, sel) \<leftarrow> find_target 0 es 0 s2;
                if sel = 0 then Some (Exit 6 ls s2)
                else do {
                  ok \<leftarrow> is_jbytes sel s2;
                  if \<not> ok then Some (Exit 7 ls s2)
                  else do {
                    b \<leftarrow> get_bytes sel s2;
                    if sint (blen b) \<le> 0 then Some (Exit 7 ls s2)
                    else learn_second lib pi create ls (destroy sd (select sd TARGET sel s2))
                  }
                }
              })
     | _ \<Rightarrow> Some (Exit 3 [] s))"

text \<open>The rest of \<open>main\<close> when the session is there and the daemon is off.\<close>

definition one_shot ::
    "'z cand_env_scheme lib \<Rightarrow> (string \<Rightarrow> string option) \<Rightarrow> u64 \<Rightarrow> 'z cand_env_scheme \<Rightarrow> (int \<times> line list \<times> 'z cand_env_scheme) option" where
  "one_shot lib getenv sd s = do {
     let s1 = (case l_listen lib of None \<Rightarrow> s | Some f \<Rightarrow> f sd s);
     let learn = (getenv ''WETYPE_TEST_LEARN'' \<noteq> None);
     (ls, s2) \<leftarrow> type_and_dump lib (getenv ''WETYPE_INPUT'') (getenv ''WETYPE_NO_CAND'' \<noteq> None \<or> learn) sd s1;
     if \<not> learn then Some (0, ls, s2)
     else do {
       r \<leftarrow> test_learn lib sd s2;
       Some (case r of Exit c os s3 \<Rightarrow> (c, ls @ os, s3) | Finished os s3 \<Rightarrow> (0, ls @ os, s3))
     }
   }"

subsection \<open>The whole of \<open>main\<close>\<close>

text \<open>The library and the functions called before there is a session.\<close>

record 's entry =
  e_loads :: bool
  e_onload :: "('s \<Rightarrow> int \<times> 's) option"
  e_init :: "('s \<Rightarrow> int \<times> 's) option"
  e_config :: "('s \<Rightarrow> int \<times> 's) option"

datatype 's main_end = Return int "line list" 's | Daemon u64 's

text \<open>From \<open>JNI_OnLoad\<close> to the dictionaries. \<open>getenv\<close> gives the text of a variable, \<open>envp\<close> its address.\<close>

definition set_up ::
    "(string \<Rightarrow> u64) \<Rightarrow> (string \<Rightarrow> u64) \<Rightarrow> (nat \<Rightarrow> u64) \<Rightarrow> (string \<Rightarrow> u64 option) \<Rightarrow> (string \<Rightarrow> string option) \<Rightarrow>
     'z cand_env_scheme entry \<Rightarrow> ('z cand_env_scheme \<Rightarrow> int \<times> 'z cand_env_scheme) \<Rightarrow> 'z cand_env_scheme \<Rightarrow>
     'z cand_env_scheme option" where
  "set_up at lit paths envp getenv ent init s = do {
     let s1 = (case e_onload ent of None \<Rightarrow> s | Some f \<Rightarrow> snd (f s));
     s2 \<leftarrow> build_initinfo at lit envp s1;
     let s3 = snd (init s2);
     case e_config ent of
       None \<Rightarrow> Some s3
     | Some cd \<Rightarrow> do {
         c \<leftarrow> config_dicts at paths (getenv ''WETYPE_DICT_DIR'') (getenv ''WETYPE_SKIP_DICTS'') (getenv ''WETYPE_WORK_DIR'') s3;
         Some (snd (cd c))
       }
   }"

text \<open>The session, and what is done with it.\<close>

definition open_session ::
    "(string \<Rightarrow> u64) \<Rightarrow> (string \<Rightarrow> u64) \<Rightarrow> (string \<Rightarrow> string option) \<Rightarrow> bool \<Rightarrow> 'z cand_env_scheme lib \<Rightarrow> 'z cand_env_scheme \<Rightarrow>
     'z cand_env_scheme main_end option" where
  "open_session at lit getenv daemon lib s = (case l_create lib of
       None \<Rightarrow> Some (Return 0 [] s)
     | Some create \<Rightarrow> do {
         s1 \<leftarrow> build_sesscfg at lit (getenv ''WETYPE_KB'') s;
         let (sd, s2) = create s1;
         if daemon then Some (Daemon sd s2)
         else do { (c, ls, s3) \<leftarrow> one_shot lib getenv sd s2; Some (Return c ls s3) }
       })"

definition harness_main ::
    "(string \<Rightarrow> u64) \<Rightarrow> (string \<Rightarrow> u64) \<Rightarrow> (nat \<Rightarrow> u64) \<Rightarrow> (string \<Rightarrow> u64 option) \<Rightarrow> (string \<Rightarrow> string option) \<Rightarrow>
     string list \<Rightarrow> 'z cand_env_scheme entry \<Rightarrow> 'z cand_env_scheme lib \<Rightarrow> 'z cand_env_scheme \<Rightarrow>
     'z cand_env_scheme main_end option" where
  "harness_main at lit paths envp getenv argv ent lib s =
     (let s0 = s\<lparr>daemon_mode := daemon_arg argv\<rparr> in
      if \<not> e_loads ent then Some (Return 1 [] s0)
      else case e_init ent of
          None \<Rightarrow> Some (Return 1 [] s0)
        | Some init \<Rightarrow> do {
            s1 \<leftarrow> set_up at lit paths envp getenv ent init s0;
            open_session at lit getenv (daemon_arg argv) lib s1
          })"

subsection \<open>The dump lists the live objects\<close>

lemma collect_some: "(\<And>x. x \<in> set xs \<Longrightarrow> f x \<noteq> None) \<Longrightarrow> collect f xs \<noteq> None"
  by (induction xs) auto

lemma collect_eq: "collect f xs = Some ys \<Longrightarrow> ys = concat (map (\<lambda>x. the (f x)) xs) \<and> (\<forall>x \<in> set xs. f x \<noteq> None)"
  by (induction xs arbitrary: ys) auto

text \<open>What the dump needs: objects in the registry are live, and their strings are strings.\<close>

definition dump_ready :: "'z hreg_scheme \<Rightarrow> bool" where
  "dump_ready s \<longleftrightarrow> (\<forall>i < regn s. rk (slots s ! i) = R_JOBJ \<and> rp (slots s ! i) \<noteq> 0 \<longrightarrow>
     (\<exists>ob. get_obj (rp (slots s ! i)) s = Some ob \<and>
        (\<forall>f \<in> set (jfields ob). ftype f = CHR ''s'' \<longrightarrow> str_at (fval f) s \<noteq> None)))"

definition dumped :: "'z hreg_scheme \<Rightarrow> nat \<Rightarrow> bool" where
  "dumped s i \<longleftrightarrow> rk (slots s ! i) = R_JOBJ \<and> rp (slots s ! i) \<noteq> 0 \<and>
     (\<exists>ob. get_obj (rp (slots s ! i)) s = Some ob \<and> jfields ob \<noteq> [])"

definition obj_index :: "line \<Rightarrow> nat" where
  "obj_index l = (case l of ObjLine i c fs \<Rightarrow> i | _ \<Rightarrow> 0)"

lemma brief_field_some: "(ftype f = CHR ''s'' \<Longrightarrow> str_at (fval f) s \<noteq> None) \<Longrightarrow> brief_field f s \<noteq> None"
  by (auto simp: brief_field_def split: option.split)

lemma dump_slot_cases:
  assumes "dump_ready s" and "i < regn s"
  shows "\<exists>ls. dump_slot s i = Some ls \<and> map obj_index ls = (if dumped s i then [i] else [])"
proof (cases "rk (slots s ! i) \<noteq> R_JOBJ \<or> rp (slots s ! i) = 0")
  case True
  then show ?thesis by (auto simp: dump_slot_def dumped_def)
next
  case False
  then obtain ob where ob: "get_obj (rp (slots s ! i)) s = Some ob"
    "\<And>f. f \<in> set (jfields ob) \<Longrightarrow> ftype f = CHR ''s'' \<Longrightarrow> str_at (fval f) s \<noteq> None"
    using assms by (auto simp: dump_ready_def)
  have "collect (\<lambda>f. brief_field f s) (jfields ob) \<noteq> None"
    by (rule collect_some) (rule brief_field_some, rule ob(2))
  then show ?thesis using False ob(1) by (auto simp: dump_slot_def dumped_def obj_index_def Let_def)
qed

text \<open>The dump reads only live blocks and prints each registered object with fields once, in the
  order of the registry.\<close>

lemma dump_lists_objects:
  assumes r: "dump_ready s"
  shows "\<exists>ls. dump_all_objs s = Some ls \<and> map obj_index ls = filter (dumped s) [0..<regn s]"
proof -
  have "\<exists>ls. collect (dump_slot s) is = Some ls \<and> map obj_index ls = filter (dumped s) is"
    if "set is \<subseteq> {0..<regn s}" for "is"
    using that
  proof (induction "is")
    case Nil
    then show ?case by simp
  next
    case (Cons i js)
    then obtain ls where ls: "collect (dump_slot s) js = Some ls" "map obj_index ls = filter (dumped s) js" by auto
    obtain l where "dump_slot s i = Some l" "map obj_index l = (if dumped s i then [i] else [])"
      using dump_slot_cases [OF r, of i] Cons.prems by auto
    then show ?case using ls by simp
  qed
  then show ?thesis by (simp add: dump_all_objs_def)
qed

subsection \<open>The test of learning\<close>

text \<open>Both sessions get the same ten events: press and release of the letters of \<open>nihao\<close>.\<close>

lemma nihao_events:
  "type_nihao pi sd s = fold (\<lambda>k s. snd (pi sd k s))
     (concat (map (\<lambda>c. [''d '' @ [c], ''u '' @ [c]]) ''nihao'')) s"
  by (simp add: type_nihao_def tap_def snprintf_s_def Let_def)

text \<open>The identifiers of the candidates with the text, in order.\<close>

definition target_ids :: "u64 list \<Rightarrow> 'z hmem_scheme \<Rightarrow> u64 list" where
  "target_ids cs s = concat (map (\<lambda>c.
     if cand_text c s = Some (Some TARGET)
     then (case Option.bind (get_obj c s) (\<lambda>ob. map_option fval (obj_get ob ''id'')) of
         None \<Rightarrow> [] | Some v \<Rightarrow> if v = 0 then [] else [v])
     else []) cs)"

lemma target_ids_simps:
  "target_ids [] s = []"
  "target_ids (c # cs) s =
     (if cand_text c s = Some (Some TARGET)
      then (case Option.bind (get_obj c s) (\<lambda>ob. map_option fval (obj_get ob ''id'')) of
          None \<Rightarrow> [] | Some v \<Rightarrow> if v = 0 then [] else [v]) else []) @ target_ids cs s"
  by (simp_all add: target_ids_def)

text \<open>The loop prints the texts by rank and selects the last such identifier.\<close>

lemma find_target_spec:
  "find_target i cs sel s = Some (ls, r) \<Longrightarrow>
   rank_lines ''A'' i cs s = Some ls \<and> r = last (sel # target_ids cs s)"
proof (induction cs arbitrary: i sel ls)
  case Nil
  then show ?case by (simp add: target_ids_simps)
next
  case (Cons c cs)
  obtain t where t: "cand_text c s = Some t" using Cons.prems by (cases "cand_text c s") auto
  show ?case
  proof (cases "t = Some TARGET")
    case False
    then obtain ls1 where "find_target (Suc i) cs sel s = Some (ls1, r)" "ls = Rank ''A'' i t # ls1"
      using Cons.prems t by (auto split: bind_splits prod.split_asm)
    then show ?thesis using Cons.IH t False by (simp add: target_ids_simps)
  next
    case True
    obtain ob where ob: "get_obj c s = Some ob" using Cons.prems t True by (cases "get_obj c s") auto
    let ?v = "case obj_get ob ''id'' of Some f \<Rightarrow> if fval f \<noteq> 0 then fval f else sel | None \<Rightarrow> sel"
    obtain ls1 where f: "find_target (Suc i) cs ?v s = Some (ls1, r)" "ls = Rank ''A'' i t # ls1"
      using Cons.prems t True ob by (auto split: bind_splits prod.split_asm)
    have "r = last (?v # target_ids cs s)" "rank_lines ''A'' (Suc i) cs s = Some ls1" using Cons.IH [OF f(1)] by simp_all
    moreover have "Option.bind (get_obj c s) (\<lambda>ob. map_option fval (obj_get ob ''id'')) = map_option fval (obj_get ob ''id'')"
      by (simp only: ob Option.bind.simps)
    ultimately show ?thesis using f(2) t True by (auto simp: target_ids_simps split: option.split)
  qed
qed

text \<open>When the test runs to its end, the first list had a candidate with the text, the identifier of the
  last such one was passed on, the first session was destroyed before the second was made, and
  the second got the same keys.\<close>

lemma learn_finished:
  assumes "test_learn lib sd s = Some (Finished ls s')"
  shows "\<exists>get create destroy select pi a s2 es sel sd2 s3 ls1 os.
    l_get_n lib = Some get \<and> l_create lib = Some create \<and> l_destroy lib = Some destroy \<and> l_select lib = Some select \<and>
    l_input lib = Some pi \<and>
    (let s1 = type_nihao pi sd s in get (last_iterator s1) 10 s1 = (a, s2)) \<and> arr_elems a s2 = Some es \<and>
    target_ids es s2 \<noteq> [] \<and> sel = last (target_ids es s2) \<and> is_jbytes sel s2 = Some True \<and>
    create (destroy sd (select sd TARGET sel s2)) = (sd2, s3) \<and> 0 < sint sd2 \<and>
    rank_lines ''A'' 0 es s2 = Some ls1 \<and>
    (let s4 = type_nihao pi sd2 s3 in dump_order (Some get) (last_iterator s4) 10 ''B'' s4 = Some (os, s')) \<and> ls = ls1 @ os"
proof -
  obtain get create destroy select pi where l: "l_get_n lib = Some get" "l_create lib = Some create"
    "l_destroy lib = Some destroy" "l_select lib = Some select" "l_input lib = Some pi"
    using assms by (auto simp: test_learn_def split: option.split_asm)
  let ?s1 = "type_nihao pi sd s"
  obtain a s2 where g: "get (last_iterator ?s1) 10 ?s1 = (a, s2)" by fastforce
  have a: "a \<noteq> 0" using assms l g by (auto simp: test_learn_def Let_def)
  obtain es where es: "arr_elems a s2 = Some es" using assms l g a by (auto simp: test_learn_def Let_def)
  obtain ls1 sel where f: "find_target 0 es 0 s2 = Some (ls1, sel)" using assms l g a es by (auto simp: test_learn_def Let_def)
  have sel: "sel \<noteq> 0" using assms l g a es f by (auto simp: test_learn_def Let_def)
  have j: "is_jbytes sel s2 = Some True"
    using assms l g a es f sel by (auto simp: test_learn_def Let_def split: bind_splits if_split_asm)
  have second: "learn_second lib pi create ls1 (destroy sd (select sd TARGET sel s2)) = Some (Finished ls s')"
    using assms l g a es f sel j by (auto simp: test_learn_def Let_def split: bind_splits if_split_asm)
  obtain sd2 s3 where c: "create (destroy sd (select sd TARGET sel s2)) = (sd2, s3)" by fastforce
  have "0 < sint sd2" using second c by (auto simp: learn_second_def Let_def split: if_split_asm)
  moreover from this obtain os where "dump_order (Some get) (last_iterator (type_nihao pi sd2 s3)) 10 ''B'' (type_nihao pi sd2 s3) = Some (os, s')"
    "ls = ls1 @ os" using second c l(1) by (auto simp: learn_second_def Let_def split: bind_splits prod.split_asm)
  moreover have "rank_lines ''A'' 0 es s2 = Some ls1" "sel = last (0 # target_ids es s2)" using find_target_spec [OF f] by simp_all
  moreover from this sel have "target_ids es s2 \<noteq> []" "sel = last (target_ids es s2)" by (auto split: if_split_asm)
  ultimately show ?thesis using l g es j c unfolding Let_def by blast
qed

text \<open>Without \<open>process_input\<close> the test calls a null pointer.\<close>

lemma learn_without_input:
  assumes "l_get_n lib \<noteq> None" and "l_create lib \<noteq> None" and "l_destroy lib \<noteq> None" and "l_select lib \<noteq> None"
    and "l_input lib = None" and "getenv ''WETYPE_TEST_LEARN'' \<noteq> None"
  shows "one_shot lib getenv sd s = None"
  using assms by (auto simp: one_shot_def type_and_dump_def test_learn_def Let_def)

text \<open>At most 64 pieces are typed, and none of them is empty or holds a separator.\<close>

lemma strtok_pieces: "t \<in> set (strtok_all d e) \<Longrightarrow> t \<noteq> [] \<and> d \<notin> set t"
proof (induction d e rule: strtok_all.induct)
  case (1 d s)
  let ?t = "dropWhile (\<lambda>c. c = d) s"
  have ne: "?t \<noteq> []" using 1(2) by (auto simp: strtok_all.simps [of d s] Let_def split: if_split_asm)
  then have h: "hd ?t \<noteq> d" using hd_dropWhile [of "\<lambda>c. c = d" s] by simp
  have "t = takeWhile (\<lambda>c. c \<noteq> d) ?t \<or> t \<in> set (strtok_all d (dropWhile (\<lambda>c. c \<noteq> d) ?t))"
    using 1(2) unfolding strtok_all.simps [of d s] Let_def if_not_P [OF ne] by simp
  then show ?case
  proof
    assume "t = takeWhile (\<lambda>c. c \<noteq> d) ?t"
    then show ?thesis using ne h by (cases ?t) (auto dest: set_takeWhileD)
  qed (use 1(1) ne in auto)
qed

lemma pieces_bounded:
  "length (input_pieces e) \<le> 64 \<and> (\<forall>t \<in> set (input_pieces e). t \<noteq> [] \<and> CHR '';'' \<notin> set t)"
  by (auto simp: input_pieces_def dest!: in_set_takeD strtok_pieces)

subsection \<open>Exit status\<close>

lemma learn_status: "test_learn lib sd s = Some (Exit c ls s') \<Longrightarrow> c \<in> {3, 4, 5, 6, 7}"
  by (auto simp: test_learn_def learn_second_def Let_def split: option.split_asm prod.split_asm if_split_asm bind_splits)

lemma one_shot_status:
  assumes "one_shot lib getenv sd s = Some (c, ls, s')"
  shows "c \<in> {0, 3, 4, 5, 6, 7} \<and> (c \<noteq> 0 \<longrightarrow> getenv ''WETYPE_TEST_LEARN'' \<noteq> None)"
proof -
  let ?s1 = "case l_listen lib of None \<Rightarrow> s | Some f \<Rightarrow> f sd s"
  let ?learn = "getenv ''WETYPE_TEST_LEARN'' \<noteq> None"
  obtain x where t: "type_and_dump lib (getenv ''WETYPE_INPUT'') (getenv ''WETYPE_NO_CAND'' \<noteq> None \<or> ?learn) sd ?s1 = Some x"
    using assms unfolding one_shot_def Let_def
    by (cases "type_and_dump lib (getenv ''WETYPE_INPUT'') (getenv ''WETYPE_NO_CAND'' \<noteq> None \<or> ?learn) sd ?s1") auto
  obtain ls1 s2 where x: "x = (ls1, s2)" by fastforce
  show ?thesis
  proof (cases ?learn)
    case False
    then show ?thesis using assms t x unfolding one_shot_def Let_def by simp
  next
    case True
    then obtain r where r: "test_learn lib sd s2 = Some r" using assms t x unfolding one_shot_def Let_def
      by (cases "test_learn lib sd s2") auto
    then have "(c, ls, s') = (case r of Exit c os s3 \<Rightarrow> (c, ls1 @ os, s3) | Finished os s3 \<Rightarrow> (0, ls1 @ os, s3))"
      using assms t x True unfolding one_shot_def Let_def by simp
    then show ?thesis using True r by (cases r) (auto dest: learn_status)
  qed
qed

text \<open>The status is 1 exactly when the library cannot be loaded or has no \<open>initialize\<close>; the daemon is
  entered only when asked for and with a session; every other status is one of the test of learning.\<close>

lemma open_session_status:
  assumes "open_session at lit getenv dm lib s = Some r"
  shows "case r of
      Return c ls s' \<Rightarrow> c \<in> {0, 3, 4, 5, 6, 7} \<and> (c \<noteq> 0 \<longrightarrow> getenv ''WETYPE_TEST_LEARN'' \<noteq> None)
    | Daemon sd s' \<Rightarrow> dm \<and> l_create lib \<noteq> None"
proof (cases "l_create lib")
  case None
  then show ?thesis using assms by (auto simp: open_session_def)
next
  case (Some create)
  then obtain s1 where s1: "build_sesscfg at lit (getenv ''WETYPE_KB'') s = Some s1"
    using assms by (cases "build_sesscfg at lit (getenv ''WETYPE_KB'') s") (auto simp: open_session_def)
  obtain sd s2 where c: "create s1 = (sd, s2)" by fastforce
  show ?thesis
  proof (cases dm)
    case True
    then show ?thesis using assms Some s1 c by (auto simp: open_session_def)
  next
    case False
    then obtain x where x: "one_shot lib getenv sd s2 = Some x" "r = (case x of (c, ls, s3) \<Rightarrow> Return c ls s3)"
      using assms Some s1 c by (cases "one_shot lib getenv sd s2") (auto simp: open_session_def)
    then show ?thesis using one_shot_status by (cases x) fastforce
  qed
qed

lemma main_status:
  assumes "harness_main at lit paths envp getenv argv ent lib s = Some r"
  shows "case r of
      Return c ls s' \<Rightarrow> (c = 1 \<longleftrightarrow> \<not> e_loads ent \<or> e_init ent = None) \<and> c \<in> {0, 1, 3, 4, 5, 6, 7} \<and>
        (c \<notin> {0, 1} \<longrightarrow> getenv ''WETYPE_TEST_LEARN'' \<noteq> None)
    | Daemon sd s' \<Rightarrow> daemon_arg argv \<and> l_create lib \<noteq> None \<and> e_init ent \<noteq> None \<and> e_loads ent"
proof (cases "\<not> e_loads ent \<or> e_init ent = None")
  case True
  then have "r = Return 1 [] (s\<lparr>daemon_mode := daemon_arg argv\<rparr>)"
    using assms by (cases "e_loads ent") (simp_all add: harness_main_def)
  then show ?thesis using True by simp
next
  case False
  then obtain init where i: "e_init ent = Some init" "e_loads ent" by auto
  let ?u = "set_up at lit paths envp getenv ent init (s\<lparr>daemon_mode := daemon_arg argv\<rparr>)"
  obtain s1 where "?u = Some s1" using assms i by (cases ?u) (auto simp: harness_main_def)
  then have "open_session at lit getenv (daemon_arg argv) lib s1 = Some r" using assms i by (simp add: harness_main_def)
  from open_session_status [OF this] show ?thesis using i by (auto split: main_end.split)
qed

end
