(* ===== verification/Type_Commit.thy ===== *)
theory Type_Commit
  imports Protocol
begin

text \<open>
  From the reply of the daemon to the committed text: the candidate line goes through the reader of the
  pipe and the handler of the oldest command, and the space commits what the engine ranked first.
\<close>

lemma render_no_newline:
  assumes "list_all (\<lambda>it. LF \<notin> set (snd it)) items"
  shows "LF \<notin> set (render_reply (CAND sp items))"
proof -
  have "LF \<notin> set (show_int n)" for n
    using dec_string_digit [of LF "nat (- n)"] dec_string_digit [of LF "nat n"]
    by (auto simp: show_int_def LF_def digit_def)
  then show ?thesis using assms by (auto simp: list_all_iff render_item_def LF_def TAB_def COLON_def)
qed

lemma one_line_read:
  assumes "palive s" and "rbuf s = []" and "LF \<notin> set l"
  shows "on_event cf (FromEngine (l @ [LF])) s =
    line_loop cf (length l) (onLine cf l s)"
proof -
  have e: "s\<lparr>rbuf := []\<rparr> = s" using assms(2) by (cases s) simp
  have "\<forall>x \<in> set l. x \<noteq> LF" using assms(3) by auto
  then have "takeWhile (\<lambda>c. c \<noteq> LF) (l @ [LF]) = l" "dropWhile (\<lambda>c. c \<noteq> LF) (l @ [LF]) = [LF]"
    by (simp_all add: takeWhile_append2 dropWhile_append2)
  then show ?thesis using assms(1,2) by (simp add: on_event_def onReadable_def Let_def e)
qed

lemma line_loop_empty: "LF \<notin> set (rbuf s) \<Longrightarrow> line_loop cf k s = s"
  by (cases k) simp_all

text \<open>The whole of a full selection.\<close>

lemma commitCandidate_full:
  assumes c: "core_inv s" and cur: "candidatesCurrent s" and i: "0 \<le> i" "i < int (length (cands s))"
    and p: "covers s ! nat i \<le> 0 \<or> int (length (buf s)) \<le> covers s ! nat i"
  shows "buf (commitCandidate cf ic i s) = [] \<and> outp (commitCandidate cf ic i s) = outp s @ [Commit ic (cands s ! nat i)] \<and>
    \<not> pendingSpace (commitCandidate cf ic i s)"
proof -
  have np: "\<not> pendingSpace s" using c cur by (auto simp: core_inv_def)
  let ?b = "send cf (select_line i) NoHandler s"
  have cb: "core_inv ?b" using after_send [OF c good_select] unfolding after_def by blast
  have len: "i < int (length (covers s))" using c i by (simp add: core_inv_def index_inv_def)
  have "commitCandidate cf ic i s = commitText cf ic (cands s ! nat i) ?b"
    using cur i p len unfolding commitCandidate_def Let_def by auto
  then show ?thesis
    using commitText_effect(1,3,5) [OF cb] send_sel(1,5) [OF c good_select, of cf i NoHandler] np by simp
qed

text \<open>What is left of the letters when a candidate with this cover length is committed.\<close>

definition rest_of :: "int \<Rightarrow> string \<Rightarrow> string" where
  "rest_of cover t = (if 0 < cover \<and> cover < int (length t) then drop (nat cover) t else [])"

lemma commitCandidate_rest:
  assumes c: "core_inv s" and cur: "candidatesCurrent s" and i: "0 \<le> i" "i < int (length (cands s))"
  shows "buf (commitCandidate cf ic i s) = rest_of (covers s ! nat i) (buf s) \<and>
    outp (commitCandidate cf ic i s) = outp s @ [Commit ic (cands s ! nat i)] \<and> \<not> pendingSpace (commitCandidate cf ic i s)"
  using commitCandidate_full [OF assms, of cf ic] commitCandidate_partial [OF assms, of cf ic]
  by (simp add: rest_of_def) linarith

lemma first_page:
  assumes "cands s \<noteq> []" and "windowStart s = 0" and "selected s = 0"
  shows "snd (normalizePage s) = s"
proof -
  have "1 \<le> int (length (cands s))" using assms(1) by (cases "cands s") simp_all
  then have "\<not> min (pageSize s) (int (length (cands s))) < 1" using pageSize_range [of s] assms(1) by (simp add: min_def)
  then have "snd (normalizePage s) = s\<lparr>windowStart := 0, selected := 0\<rparr>"
    using assms pageSize_range [of s] by (simp add: normalizePage_def clamp_def Let_def)
  also have "\<dots> = s" using assms(2,3) by (cases s) simp
  finally show ?thesis .
qed

lemma space_commits:
  assumes c: "core_inv s" and np: "\<not> pendingSpace s" and d: "deref (icRef s) s = Some ic" and b: "buf s \<noteq> []"
    and cur: "candidatesCurrent s" "cands s \<noteq> []" and p: "windowStart s = 0" "selected s = 0"
  shows "let s' = snd (processKey cf ic (press SP) s) in
    buf s' = rest_of (covers s ! 0) (buf s) \<and> outp s' = outp s @ [Commit ic (cands s ! 0)] \<and> \<not> pendingSpace s'"
proof -
  have e: "s\<lparr>icRef := Some ic\<rparr> = s" using deref_some [OF d] by (cases s) simp
  have n: "\<not> is_lower (Ascii SP)" "\<not> is_upper (Ascii SP)" "\<not> code_in 49 57 (Ascii SP)" "\<not> ownsPunctuation SP" "\<not> code_in 48 57 (Ascii SP)"
    by (simp_all add: is_lower_def is_upper_def code_in_def SP_def owned_cases punct_table_def DQ_def SQ_def)
  let ?u = "idle_prepare cf ic (Ascii SP) s"
  have nz: "snd (normalizePage s) = s" using cur(2) p by (rule first_page)
  obtain ch where ch: "normalizePage s = (ch, s)" using nz by (cases "normalizePage s") auto
  obtain pn where ui: "updateUI cf ic s = s\<lparr>renderedPageSize := pageSize s, panels := pn\<rparr>"
    unfolding updateUI_eq nz Let_def by blast
  have u: "?u = (if ch then updateUI cf ic s else s)" using n(5) by (simp add: idle_prepare_def ch is_kp_def)
  have us: "core_inv ?u" using idle_prepare_after [OF c np] by (simp add: after_def)
  have "snd (processKey cf ic (press SP) s) = commitCandidate cf ic 0 ?u"
    using d e np n b cur p u ui
    by (simp add: processKey_def press_def idle_key_def idle_dispatch_def idle_prepare_sel the_char_def)
      (simp add: SP_def)
  moreover have "candidatesCurrent ?u" "cands ?u = cands s" "covers ?u = covers s" "buf ?u = buf s" "outp ?u = outp s"
    using cur u by simp_all
  ultimately show ?thesis using commitCandidate_rest [OF us, of 0 cf ic] cur(2) by (simp add: Let_def)
qed

text \<open>The reply to the oldest command, when that is the batch of the letters as they are.\<close>

definition shown_list :: "conf \<Rightarrow> nat \<Rightarrow> (int \<times> string) list \<Rightarrow> addon \<Rightarrow> addon" where
  "shown_list cf ic l s = updateUI cf ic (s\<lparr>cands := map snd l, covers := map fst l, candidatesCurrent := True,
     windowStart := 0, selected := 0\<rparr>)"

lemma current_reply:
  assumes "deref (icRef s) s = Some ic" and "parse_reply (spansEnabled s) resp = l" and "starts CAND_TAB resp"
  shows "cand_reply cf (icRef s) (epoch s) (buf s) (revision s) resp s =
    (if pendingSpace s then
       (if l = [] then fallbackPending cf ic (shown_list cf ic l s)
        else let d = disarmPending (shown_list cf ic l s) in drainQueued cf ic (commitCandidate cf ic (selected d) d))
     else shown_list cf ic l s)"
proof -
  have "resp \<noteq> ''SKIP''" "resp \<noteq> ''EMPTY''" using assms(3) by (auto simp: starts_def CAND_TAB_def)
  then show ?thesis using assms by (simp add: cand_reply_def shown_list_def Let_def)
qed

lemma shown_list_first:
  assumes "l \<noteq> []"
  shows "windowStart (shown_list cf ic l s) = 0" and "selected (shown_list cf ic l s) = 0"
proof -
  let ?a = "s\<lparr>cands := map snd l, covers := map fst l, candidatesCurrent := True, windowStart := 0, selected := 0\<rparr>"
  have "snd (normalizePage ?a) = ?a" using assms by (intro first_page) simp_all
  then show "windowStart (shown_list cf ic l s) = 0" "selected (shown_list cf ic l s) = 0"
    by (simp_all add: shown_list_def updateUI_eq Let_def)
qed

lemma shown_list_weak: "core_inv s \<Longrightarrow> weak_inv (shown_list cf ic l s)"
  unfolding shown_list_def
  by (rule weak_calm [OF _ calm_updateUI]) (auto simp: core_inv_def weak_inv_def pipe_inv_def wire_inv_def index_inv_def)

lemma drain_nothing: "queued s = [] \<Longrightarrow> \<not> draining s \<Longrightarrow> drainQueued cf ic s = s"
  by (cases s) (simp add: drainQueued_def)

lemma shown_list_sel [simp]:
  "buf (shown_list cf ic l s) = buf s" "outp (shown_list cf ic l s) = outp s" "cands (shown_list cf ic l s) = map snd l"
  "covers (shown_list cf ic l s) = map fst l" "candidatesCurrent (shown_list cf ic l s)" "queued (shown_list cf ic l s) = queued s"
  "draining (shown_list cf ic l s) = draining s" "icRef (shown_list cf ic l s) = icRef s" "ic_live (shown_list cf ic l s) = ic_live s"
  "pendingSpace (shown_list cf ic l s) = pendingSpace s" "rbuf (shown_list cf ic l s) = rbuf s"
  by (simp_all add: shown_list_def)

text \<open>Nothing of the step reads from the pipe.\<close>

lemma send_rbuf: "letters (buf s) \<Longrightarrow> good_line l \<Longrightarrow> rbuf s = [] \<Longrightarrow> rbuf (send cf l h s) = []"
  using calm_inv(5) [OF send_calm [of s l cf h]] by simp

lemma commitCandidate_rbuf:
  assumes l: "letters (buf s)" and r: "rbuf s = []"
  shows "rbuf (commitCandidate cf ic i s) = []"
proof -
  have t: "rbuf (commitText cf ic t u) = []" if "rbuf u = []" for t u
    using send_rbuf [OF _ good_C(1), of "(no_cands ((commitString ic t (remember cf ic t u))\<lparr>revision := revision u + 1, buf := []\<rparr>))\<lparr>recoveryTried := False\<rparr>" cf NoHandler] that
    by (simp add: commitText_def Let_def no_cands_def commitString_def remember_def)
  have p: "rbuf (send cf (select_line i) h (no_cands ((commitString ic t (remember cf ic t s))\<lparr>revision := n, buf := drop k (buf s)\<rparr>))) = []" for h t n k
    using l letters_part(2) r by (intro send_rbuf good_select) (simp_all add: no_cands_def commitString_def remember_def)
  have "rbuf (send cf (select_line i) NoHandler s) = []" using send_rbuf [OF l good_select r] .
  then show ?thesis using r t p by (auto simp: commitCandidate_def Let_def commitString_def remember_def)
qed

lemma disarm_sel: "buf (disarmPending s) = buf s" "rbuf (disarmPending s) = rbuf s"
  by (simp_all add: disarmPending_def)

lemma waiting_commits:
  assumes c: "core_inv s" and d: "\<not> draining s" and q: "queued s = []" and l: "l \<noteq> []" and r: "rbuf s = []"
  shows "let e = disarmPending (shown_list cf ic l s); s' = drainQueued cf ic (commitCandidate cf ic (selected e) e) in
    buf s' = rest_of (fst (hd l)) (buf s) \<and> outp s' = outp s @ [Commit ic (snd (hd l))] \<and> \<not> pendingSpace s' \<and>
    rbuf s' = []"
proof -
  let ?e = "disarmPending (shown_list cf ic l s)"
  let ?x = "commitCandidate cf ic 0 ?e"
  have ce: "core_inv ?e" by (rule disarm_core [OF shown_list_weak [OF c]])
  have e: "selected ?e = 0" "buf ?e = buf s" "outp ?e = outp s" "cands ?e = map snd l" "covers ?e = map fst l" "candidatesCurrent ?e"
    "queued ?e = []" "\<not> draining ?e"
    using shown_list_first [OF l] q d by (simp_all add: disarmPending_def)
  have "after ?e ?x" by (rule commitCandidate_after [OF ce])
  then have x: "queued ?x = []" "\<not> draining ?x" "core_inv ?x" using e(7,8) by (auto simp: after_def)
  have "buf ?x = rest_of (fst (hd l)) (buf s) \<and> outp ?x = outp s @ [Commit ic (snd (hd l))]"
    using commitCandidate_rest [OF ce e(6), of 0 cf ic] l e by (simp add: hd_conv_nth)
  moreover have "\<not> pendingSpace ?x" using commitCandidate_rest [OF ce e(6), of 0 cf ic] l e by simp
  moreover have "rbuf ?x = []" using core_letters [OF c] e(2) r by (intro commitCandidate_rbuf) (simp_all add: disarm_sel)
  ultimately show ?thesis using drain_nothing [OF x(1,2)] e(1) by (simp add: Let_def)
qed

text \<open>The line of the reply, up to its handler.\<close>

lemma reply_line:
  assumes "palive s" and "pstate s = Ready" and "rbuf s = []" and "pending s = h # hs" and "l \<noteq> []" and "LF \<notin> set l"
  shows "on_event cf (FromEngine (l @ [LF])) s =
    line_loop cf (length l) (run_reply cf h l (s\<lparr>pending := hs, answered := answered s + 1\<rparr>))"
  using one_line_read [OF assms(1,3,6), of cf] assms(2,4,5) by (simp add: onLine_def)

text \<open>The handler of the batch, whether or not a space waits.\<close>

definition batch_reply :: "conf \<Rightarrow> nat \<Rightarrow> string \<Rightarrow> handler list \<Rightarrow> addon \<Rightarrow> addon" where
  "batch_reply cf ic l hs s = (let a = s\<lparr>pending := hs, answered := answered s + 1\<rparr> in
     cand_reply cf (Some ic) (epoch a) (buf a) (revision a) l a)"

lemma batch_shown:
  assumes i: "addon_inv s" and r: "pstate s = Ready" "pending s = h # hs" "rbuf s = []" and q: "queued s = []"
    and d: "icRef s = Some ic" "ic_live s ic" and p: "parse_reply (spansEnabled s) l = ps" "starts CAND_TAB l" "ps \<noteq> []"
  shows "let b = batch_reply cf ic l hs s in rbuf b = [] \<and>
    (if pendingSpace s then buf b = rest_of (fst (hd ps)) (buf s) \<and> outp b = outp s @ [Commit ic (snd (hd ps))] \<and> \<not> pendingSpace b
     else core_inv b \<and> \<not> pendingSpace b \<and> deref (icRef b) b = Some ic \<and> buf b = buf s \<and> outp b = outp s \<and> candidatesCurrent b \<and>
       cands b = map snd ps \<and> covers b = map fst ps \<and> windowStart b = 0 \<and> selected b = 0)"
proof -
  let ?a = "s\<lparr>pending := hs, answered := answered s + 1\<rparr>"
  have ia: "addon_inv ?a" by (rule answer_inv [OF i r(1,2)])
  then have c: "core_inv ?a" and nd: "\<not> draining ?a" by (simp_all add: addon_inv_def)
  have "deref (icRef ?a) ?a = Some ic" using d by (simp add: deref_def)
  then have e: "batch_reply cf ic l hs s = (if pendingSpace ?a then
       let e = disarmPending (shown_list cf ic ps ?a) in drainQueued cf ic (commitCandidate cf ic (selected e) e)
     else shown_list cf ic ps ?a)"
    using current_reply [of ?a ic l ps cf] p d(1) unfolding batch_reply_def Let_def by simp
  show ?thesis
  proof (cases "pendingSpace s")
    case True
    then show ?thesis using waiting_commits [OF c nd _ p(3), of cf ic] q r(3) unfolding e Let_def by simp
  next
    case False
    have "core_inv (shown_list cf ic ps ?a)" using shown_list_weak [OF c] False by (simp add: weak_inv_def core_inv_def)
    then show ?thesis using False shown_list_first [OF p(3)] r(3) d unfolding e Let_def by (simp add: deref_def)
  qed
qed

text \<open>Typing, the reply of the daemon, and the text that is committed.\<close>

text \<open>C26. The first candidate is what a space commits. After any events, when the oldest
  unanswered command is the batch for the letters as they are and the daemon answers it with a
  list, then the space commits the first text of the list to the context of the composition and
  nothing else: pressed after the reply, or pressed before it and still waiting (then the reply
  itself commits). The letters that the cover length of this candidate leaves over stay as the
  composition; without spans, or when the cover is the whole, nothing stays.\<close>

theorem first_candidate_committed:
  assumes "a = reached cf results live page es" and "pstate a = Ready" and "rbuf a = []" and "queued a = []"
    and "pending a = CandHandler (Some ic) (epoch a) (buf a) (revision a) # hs"
    and "icRef a = Some ic" and "ic_live a ic" and "buf a \<noteq> []"
    and "items \<noteq> []" and "list_all (\<lambda>it. snd it \<noteq> [] \<and> TAB \<notin> set (snd it) \<and> LF \<notin> set (snd it)) items"
    and "b = on_event cf (FromEngine (render_reply (CAND (spansEnabled a) items) @ [LF])) a"
    and "c = (if pendingSpace a then b else on_event cf (KeyEvent ic (press SP)) b)"
  shows "outp c = outp a @ [Commit ic (snd (hd items))] \<and>
    buf c = rest_of (if spansEnabled a then fst (hd items) else 0) (buf a) \<and> \<not> pendingSpace c"
proof -
  let ?l = "render_reply (CAND (spansEnabled a) items)"
  let ?ps = "map (\<lambda>it. (if spansEnabled a then fst it else 0, snd it)) items"
  have i: "addon_inv a" unfolding assms(1) by (rule reached_inv)
  then have alive: "palive a" using assms(2) by (auto simp: addon_inv_def core_inv_def pipe_inv_def split: if_split_asm)
  have texts: "list_all (\<lambda>it. snd it \<noteq> [] \<and> TAB \<notin> set (snd it)) items" "list_all (\<lambda>it. LF \<notin> set (snd it)) items"
    using assms(10) by (simp_all add: list_all_iff)
  have ps: "parse_reply (spansEnabled a) ?l = ?ps" "?ps \<noteq> []" using line_parsed [OF texts(1) assms(9)] assms(9) by simp_all
  have cand: "starts CAND_TAB ?l" "?l \<noteq> []" using assms(9) by (cases items; simp add: starts_def CAND_TAB_def render_item_def)+
  have "run_reply cf (CandHandler (Some ic) (epoch a) (buf a) (revision a)) ?l (a\<lparr>pending := hs, answered := answered a + 1\<rparr>) =
      batch_reply cf ic ?l hs a"
    by (simp add: run_reply_def batch_reply_def Let_def)
  moreover note batch = batch_shown [OF i assms(2,5,3,4,6,7) ps(1) cand(1) ps(2), of cf, unfolded Let_def]
  ultimately have b: "b = batch_reply cf ic ?l hs a"
    unfolding assms(11) reply_line [OF alive assms(2,3,5) cand(2) render_no_newline [OF texts(2)]]
    by (simp add: line_loop_empty)
  have h: "fst (hd ?ps) = (if spansEnabled a then fst (hd items) else 0)" "snd (hd ?ps) = snd (hd items)"
    using assms(9) by (simp_all add: list.map_sel)
  show ?thesis
  proof (cases "pendingSpace a")
    case True
    then show ?thesis using batch h by (simp add: assms(12) b)
  next
    case False
    then have "core_inv b" "\<not> pendingSpace b" "deref (icRef b) b = Some ic" "buf b = buf a" "outp b = outp a" "candidatesCurrent b"
      "cands b = map snd ?ps" "covers b = map fst ?ps" "windowStart b = 0" "selected b = 0"
      using batch by (simp_all only: b if_False simp_thms)
    then show ?thesis
      using space_commits [of b ic cf] assms(8,9) False h by (simp add: assms(12) on_event_def Let_def hd_conv_nth)
  qed
qed

definition typed_n :: addon where
  "typed_n = reached plain_conf [] (\<lambda>_. True) 5
     [FromEngine (''READY'' @ [LF]), KeyEvent 0 (press (CHR ''n'')), FromEngine (''OK'' @ LF # ''OK'' @ [LF])]"

definition batch_facts ::
    "addon \<Rightarrow> (proc_state \<times> string \<times> key_event list \<times> nat option \<times> bool) \<times> (handler list \<times> nat \<times> string \<times> nat) \<times> bool \<times> bool" where
  "batch_facts a = ((pstate a, rbuf a, queued a, icRef a, ic_live a 0), (pending a, epoch a, buf a, revision a),
     pendingSpace a, spansEnabled a)"

lemma typed_n_facts:
  "batch_facts typed_n = ((Ready, [], [], Some 0, True), ([CandHandler (Some 0) 1 ''n'' 2], 1, ''n'', 2), False, True)"
  by code_simp

theorem first_candidate_committed_witness:
  "\<exists>b. b = on_event plain_conf (FromEngine (render_reply (CAND True [(1, ''you''), (1, ''new'')]) @ [LF])) typed_n \<and>
     (let c = on_event plain_conf (KeyEvent 0 (press SP)) b in outp c = outp typed_n @ [Commit 0 ''you''] \<and> buf c = [])"
proof -
  let ?i = "[(1, ''you''), (1, ''new'')] :: (int \<times> string) list"
  have t: "list_all (\<lambda>it. snd it \<noteq> [] \<and> TAB \<notin> set (snd it) \<and> LF \<notin> set (snd it)) ?i" by (simp add: TAB_def LF_def)
  show ?thesis
    using first_candidate_committed [OF typed_n_def _ _ _ _ _ _ _ _ t refl refl, of 0 "[]"] typed_n_facts
    by (simp add: Let_def rest_of_def batch_facts_def)
qed

end
