(* ===== verification/Trace_Lines.thy ===== *)
theory Trace_Lines
  imports Alloc_Props Proto_Out
begin

text \<open>
  What the allocation tracer prints (\<open>harness/malloc_trace.c\<close>): the lines of the periodic report with
  the first bytes of large blocks, and the walk along the frame pointers. Every line is built in a
  buffer of 512 bytes with an offset that grows by what \<open>snprintf\<close> returns, which is the length of the
  text and not of what fitted. The lemmas show that everything fits, so the offset never leaves
  the buffer and no line is cut.
\<close>

subsection \<open>Numbers\<close>

definition hex_digit :: "nat \<Rightarrow> char" where
  "hex_digit d = (if d < 10 then char_of (48 + d) else char_of (87 + d))"

fun hex_string :: "nat \<Rightarrow> string" where
  "hex_string n = (if n < 16 then [hex_digit n] else hex_string (n div 16) @ [hex_digit (n mod 16)])"

declare hex_string.simps [simp del]

text \<open>\<open>%#lx\<close>, without prefix for zero.\<close>

definition show_hex :: "u64 \<Rightarrow> string" where
  "show_hex w = (if w = 0 then ''0'' else ''0x'' @ hex_string (unat w))"

definition show_nat :: "u64 \<Rightarrow> string" where "show_nat w = dec_string (unat w)"

lemma hex_string_length: "n < 16 ^ Suc k \<Longrightarrow> length (hex_string n) \<le> Suc k"
proof (induction n arbitrary: k rule: hex_string.induct)
  case (1 n)
  show ?case
  proof (cases "n < 16")
    case True
    then show ?thesis by (subst hex_string.simps) simp
  next
    case False
    then obtain j where j: "k = Suc j" using 1(2) by (cases k) auto
    then have "n div 16 < 16 ^ Suc j" using 1(2) by (simp add: less_mult_imp_div_less)
    then have "length (hex_string (n div 16)) \<le> Suc j" using 1(1) False by auto
    then show ?thesis using False j by (subst hex_string.simps) simp
  qed
qed

lemma show_hex_length: "length (show_hex w) \<le> 18"
  using hex_string_length [of "unat w" 15] unat_u64 [of w] by (simp add: show_hex_def)

lemma show_nat_length: "length (show_nat w) \<le> 20"
  using dec_string_length [of "unat w" 19] unat_u64 [of w] by (simp add: show_nat_def)

lemma show_sint_length: "length (show_int (sint (w :: u64))) \<le> 20"
proof -
  have "- (2 ^ 63) \<le> sint w" "sint w < 2 ^ 63" using sint_range_size [of w] by (simp_all add: word_size)
  then have "\<bar>sint w\<bar> < 10 ^ Suc 18" by simp
  then show ?thesis using show_int_length [of "sint w" 18] by simp
qed

subsection \<open>A line in its buffer\<close>

definition LINE :: nat where "LINE = 512"

text \<open>The buffer up to its terminator and the offset; \<open>g\<close> bytes are kept back.\<close>

fun put :: "nat \<Rightarrow> string \<Rightarrow> string \<times> nat \<Rightarrow> string \<times> nat" where
  "put g t (l, off) = (take off l @ snprintf_s (LINE - off - g) t, off + length t)"

text \<open>The offset is the length of the text so far, and the buffer holds all of it.\<close>

definition kept :: "string \<Rightarrow> string \<times> nat \<Rightarrow> bool" where
  "kept t x \<longleftrightarrow> take (snd x) (fst x) = t \<and> snd x = length t"

lemma put_kept:
  assumes "kept l x" and "length l + length t + g < LINE"
  shows "kept (l @ t) (put g t x)" and "fst (put g t x) = l @ t" and "snd (put g t x) = length (l @ t)"
  using assms by (cases x; simp add: kept_def snprintf_s_def)+

lemma kept_start: "kept [] (l, 0)"
  by (simp add: kept_def)

subsection \<open>The report\<close>

definition totals :: "report \<Rightarrow> string" where
  "totals r = ''[mtrace] live='' @ show_nat (r_kb r) @ ''KB objs='' @ show_nat (r_objs r) @ '' mallocs='' @ show_nat (r_mallocs r) @
     '' frees='' @ show_nat (r_frees r) @ '' bins:''"

definition bin_text :: "u64 \<Rightarrow> string" where "bin_text b = CHR '' '' # show_int (sint b)"

fun put_bins :: "u64 list \<Rightarrow> string \<times> nat \<Rightarrow> string \<times> nat" where
  "put_bins [] x = x"
| "put_bins (b # bs) x = (if snd x < LINE - 24 then put_bins bs (put 0 (bin_text b) x) else x)"

definition totals_line :: "report \<Rightarrow> string" where
  "totals_line r = fst (put 0 [LF] (put_bins (r_bins r) (put 0 (totals r) ([], 0))))"

fun site_text :: "u64 \<times> u64 \<times> u64 \<Rightarrow> string" where
  "site_text (pc, kb, cnt) = ''[mtrace]   pc='' @ show_hex pc @ '' live='' @ show_nat kb @ ''KB cnt='' @ show_nat cnt @ [LF]"

definition site_line :: "u64 \<times> u64 \<times> u64 \<Rightarrow> string" where
  "site_line e = snprintf_s LINE (site_text e)"

lemma put_bins_kept:
  assumes "kept l x" and "length l + 21 * length bs < LINE - 24"
  shows "kept (l @ concat (map bin_text bs)) (put_bins bs x)"
  using assms
proof (induction bs arbitrary: l x)
  case (Cons b bs)
  have b: "length (bin_text b) \<le> 21" using show_sint_length [of b] by (simp add: bin_text_def)
  have "snd x < LINE - 24" using Cons.prems by (simp add: kept_def)
  moreover have "kept (l @ bin_text b) (put 0 (bin_text b) x)" using Cons.prems b by (intro put_kept) simp_all
  then have "kept ((l @ bin_text b) @ concat (map bin_text bs)) (put_bins bs (put 0 (bin_text b) x))"
    using Cons.prems b by (intro Cons.IH) simp_all
  ultimately show ?case by simp
qed simp

text \<open>The line of the totals is complete, with every bin of the histogram.\<close>

lemma totals_line_complete:
  assumes "length (r_bins r) = NBIN"
  shows "totals_line r = totals r @ concat (map bin_text (r_bins r)) @ [LF] \<and> length (totals_line r) < LINE"
proof -
  have t: "length (totals r) \<le> 124"
    using show_nat_length [of "r_kb r"] show_nat_length [of "r_objs r"] show_nat_length [of "r_mallocs r"] show_nat_length [of "r_frees r"]
    by (simp add: totals_def)
  have k: "kept ([] @ totals r) (put 0 (totals r) ([], 0))" using t by (intro put_kept kept_start) (simp add: LINE_def)
  have bins: "length (concat (map bin_text bs)) \<le> 21 * length bs" for bs
    by (induction bs) (use show_sint_length in \<open>auto simp: bin_text_def intro: add_mono\<close>)
  have "kept (([] @ totals r) @ concat (map bin_text (r_bins r))) (put_bins (r_bins r) (put 0 (totals r) ([], 0)))"
    using t assms by (intro put_bins_kept [OF k]) (simp add: LINE_def NBIN_def)
  then have "totals_line r = (([] @ totals r) @ concat (map bin_text (r_bins r))) @ [LF]"
    unfolding totals_line_def using t bins [of "r_bins r"] assms by (intro put_kept) (simp_all add: LINE_def NBIN_def)
  then show ?thesis using t bins [of "r_bins r"] assms by (simp add: LINE_def NBIN_def)
qed

lemma site_line_complete: "site_line e = site_text e"
proof -
  obtain pc kb cnt where e: "e = (pc, kb, cnt)" by (cases e)
  have "length (site_text e) < LINE"
    using show_hex_length [of pc] show_nat_length [of kb] show_nat_length [of cnt] by (simp add: e LINE_def)
  then show ?thesis by (simp add: site_line_def snprintf_s_id)
qed

subsection \<open>The first bytes of a large block\<close>

definition byte_text :: "8 word \<Rightarrow> string" where
  "byte_text c =
     (if 32 \<le> c \<and> c < 127 then [char_of (unat c)]
      else if c \<noteq> 0 then '' <'' @ [hex_digit (unat c div 16), hex_digit (unat c mod 16)] @ ''>''
      else [CHR '' '', CHR 0x5C, CHR ''0''])"

text \<open>At most 40 bytes, while the offset is below 440; \<open>k\<close> are left.\<close>

fun put_bytes :: "(u64 \<Rightarrow> 8 word) \<Rightarrow> u64 \<Rightarrow> nat \<Rightarrow> string \<times> nat \<Rightarrow> string \<times> nat" where
  "put_bytes mem q 0 x = x"
| "put_bytes mem q (Suc k) x = (if snd x < 440 then put_bytes mem (q + 1) k (put 1 (byte_text (mem q)) x) else x)"

fun big_head :: "u64 \<times> u64 \<times> u64 \<Rightarrow> string" where
  "big_head (pc, q, n) = ''[mtraceBIG] pc='' @ show_hex pc @ '' n='' @ show_nat n @ '' head:''"

definition big_line :: "(u64 \<Rightarrow> 8 word) \<Rightarrow> u64 \<times> u64 \<times> u64 \<Rightarrow> string option" where
  "big_line mem e =
     (if fst (snd e) = 0 then None
      else Some (fst (put 1 [LF] (put_bytes mem (fst (snd e)) 40 (put 0 (big_head e) ([], 0))))))"

text \<open>Everything a report prints.\<close>

definition report_lines :: "(u64 \<Rightarrow> 8 word) \<Rightarrow> report \<Rightarrow> string list" where
  "report_lines mem r = totals_line r # map site_line (r_top r) @ List.map_filter (big_line mem) (r_big r)"

lemma byte_text_length: "length (byte_text c) \<le> 5"
  by (simp add: byte_text_def)

fun head_bytes :: "(u64 \<Rightarrow> 8 word) \<Rightarrow> u64 \<Rightarrow> nat \<Rightarrow> 8 word list" where
  "head_bytes mem q 0 = []"
| "head_bytes mem q (Suc k) = mem q # head_bytes mem (q + 1) k"

lemma put_bytes_kept:
  assumes "kept l x" and "length l + 5 * k < 440"
  shows "kept (l @ concat (map byte_text (head_bytes mem q k))) (put_bytes mem q k x)"
  using assms
proof (induction k arbitrary: l x q)
  case (Suc k)
  have "snd x < 440" using Suc.prems by (simp add: kept_def)
  moreover have "kept (l @ byte_text (mem q)) (put 1 (byte_text (mem q)) x)"
    using Suc.prems byte_text_length [of "mem q"] by (intro put_kept) (simp_all add: LINE_def)
  then have "kept ((l @ byte_text (mem q)) @ concat (map byte_text (head_bytes mem (q + 1) k)))
      (put_bytes mem (q + 1) k (put 1 (byte_text (mem q)) x))"
    using Suc.prems byte_text_length [of "mem q"] by (intro Suc.IH) simp_all
  ultimately show ?case by simp
qed simp

lemma bytes_length: "length (concat (map byte_text (head_bytes mem q k))) \<le> 5 * k"
  by (induction k arbitrary: q) (use byte_text_length in \<open>auto intro: add_mono\<close>)

lemma big_line_complete:
  assumes "fst (snd e) \<noteq> 0"
  shows "big_line mem e = Some (big_head e @ concat (map byte_text (head_bytes mem (fst (snd e)) 40)) @ [LF])"
proof -
  obtain pc q n where e: "e = (pc, q, n)" by (cases e)
  have h: "length (big_head e) \<le> 62" using show_hex_length [of pc] show_nat_length [of n] by (simp add: e)
  have k: "kept ([] @ big_head e) (put 0 (big_head e) ([], 0))" using h by (intro put_kept kept_start) (simp add: LINE_def)
  have "kept (([] @ big_head e) @ concat (map byte_text (head_bytes mem q 40))) (put_bytes mem q 40 (put 0 (big_head e) ([], 0)))"
    using h by (intro put_bytes_kept [OF k]) simp
  then have "fst (put 1 [LF] (put_bytes mem q 40 (put 0 (big_head e) ([], 0)))) =
      (([] @ big_head e) @ concat (map byte_text (head_bytes mem q 40))) @ [LF]"
    using h bytes_length [of mem q 40] by (intro put_kept) (simp_all add: LINE_def)
  then show ?thesis using assms unfolding big_line_def by (simp add: e)
qed

subsection \<open>The walk along the frame pointers\<close>

text \<open>A frame holds the pointer to the next one and the return address. The chain must grow, so the
  walk ends; it takes at most 16 frames. \<open>k\<close> are left.\<close>

fun bt_frames :: "(u64 \<Rightarrow> u64) \<Rightarrow> nat \<Rightarrow> u64 \<Rightarrow> string \<times> nat \<Rightarrow> string \<times> nat" where
  "bt_frames word 0 fp x = x"
| "bt_frames word (Suc k) fp x =
     (if fp = 0 then x
      else if word (fp + 8) < 0x1000 then x
      else
        let y = put 1 (CHR '' '' # show_hex (word (fp + 8))) x in
        if 400 < snd y then y
        else if word fp \<le> fp then y
        else bt_frames word k (word fp) y)"

definition bt_walk :: "(u64 \<Rightarrow> u64) \<Rightarrow> u64 \<Rightarrow> string list" where
  "bt_walk word fp =
     (let l = ''[mtraceBT] size>=BT_MIN:'' @ [LF]
      in [l, fst (put 1 [LF] (bt_frames word 16 fp (l, 0)))])"

text \<open>The return addresses it means to print.\<close>

fun return_addresses :: "(u64 \<Rightarrow> u64) \<Rightarrow> nat \<Rightarrow> u64 \<Rightarrow> u64 list" where
  "return_addresses word 0 fp = []"
| "return_addresses word (Suc k) fp =
     (if fp = 0 \<or> word (fp + 8) < 0x1000 then []
      else word (fp + 8) # (if word fp \<le> fp then [] else return_addresses word k (word fp)))"

lemma return_addresses_length: "length (return_addresses word k fp) \<le> k"
  by (induction k arbitrary: fp) auto

definition address_text :: "u64 list \<Rightarrow> string" where
  "address_text as = concat (map (\<lambda>a. CHR '' '' # show_hex a) as)"

lemma address_text_length: "length (address_text as) \<le> 19 * length as"
  by (induction as) (use show_hex_length in \<open>auto simp: address_text_def intro: add_mono\<close>)

lemma bt_frames_kept:
  assumes "kept l x" and "length l + 19 * k \<le> 400"
  shows "kept (l @ address_text (return_addresses word k fp)) (bt_frames word k fp x)"
  using assms
proof (induction k arbitrary: l x fp)
  case (Suc k)
  let ?t = "CHR '' '' # show_hex (word (fp + 8))"
  let ?y = "put 1 ?t x"
  have t: "length ?t \<le> 19" using show_hex_length [of "word (fp + 8)"] by simp
  have y: "kept (l @ ?t) ?y" "snd ?y = length (l @ ?t)" using put_kept(1,3) [OF Suc.prems(1), of ?t 1] Suc.prems(2) t by (simp_all add: LINE_def)
  have "kept ((l @ ?t) @ address_text (return_addresses word k (word fp))) (bt_frames word k (word fp) ?y)"
    using Suc.prems t by (intro Suc.IH y) simp
  then show ?case using Suc.prems t y by (simp add: Let_def address_text_def)
qed (simp add: address_text_def)

lemma bt_walk_complete:
  "tl (bt_walk word fp) = [address_text (return_addresses word 16 fp) @ [LF]]"
proof -
  have k: "kept ([] @ address_text (return_addresses word 16 fp)) (bt_frames word 16 fp (l, 0))" for l
    by (intro bt_frames_kept kept_start) simp
  have "length (address_text (return_addresses word 16 fp)) \<le> 19 * 16"
    using address_text_length [of "return_addresses word 16 fp"] return_addresses_length [of word 16 fp] by linarith
  then have "fst (put 1 [LF] (bt_frames word 16 fp (l, 0))) = ([] @ address_text (return_addresses word 16 fp)) @ [LF]" for l
    by (intro put_kept k) (simp add: LINE_def)
  then show ?thesis by (simp add: bt_walk_def Let_def)
qed

end
