(* ===== verification/Spec2Isabelle.thy ===== *)
theory Spec2Isabelle
  imports Gc_Runs Env_Table Cand_Queue Cmd_Reader Protocol Alloc_Props Startup_Props Scan_Props Jni_Canned Android_Shim Addon_Launch Pipe_Sync
    Proto_Out Harness_Main Type_Commit Trace_Lines
begin

text \<open>
  Verification of the WeType input method for Linux.

  THE PROGRAM. The Android engine of the WeType input method (a JNI library) runs in a process of
  its own, the harness (\<open>harness/jinterop.c\<close>), which pretends to be a Java virtual machine: it
  hands the engine a fake \<open>JNIEnv\<close> (\<open>harness/jni.h\<close> gives the order of its slots), keeps the fake Java
  objects on its own heap and collects them after a grace period. In daemon mode the harness reads
  command lines from a pipe (\<open>B keys\<close>, \<open>S index\<close>, \<open>C\<close>, ...), drives the engine, waits for the
  candidates that the engine's threads deliver through the JNI hooks, and answers each command with
  one line. The Fcitx5 addon (\<open>fcitx5-wetype/src/wetype.cpp\<close> with \<open>punctuation.h\<close>, \<open>glossary.h\<close> and
  \<open>harness_log.h\<close>) starts the harness, sends it the typed letters, and shows and commits the
  candidates. Both ends keep no message identifiers: a reply belongs to the oldest unanswered
  command. Beside the two ends there are the stand-in for \<open>libandroid.so\<close> that the engine library
  needs (\<open>shim/libandroid.c\<close>), and two libraries that can be preloaded into the harness to find
  leaks: the allocation tracer (\<open>harness/malloc_trace.c\<close>) and its extension with a search for the owners
  of a block (\<open>scripts/mtrace2_heapscan.c\<close>).

  THE THEORIES, in the order of the code.

  Shared: \<open>Prelude\<close> (words, C strings, decimal numbers as \<open>strtol\<close>, \<open>atoi\<close> and \<open>printf\<close> treat
  them, the locales \<open>intern_table\<close>, \<open>cell_store\<close> and \<open>bounded_queue\<close>).

  Harness, memory: \<open>Harness_Heap\<close> (\<open>JObj\<close>, \<open>JArr\<close>, \<open>JBytes\<close> as blocks of a heap that maps addresses
  to blocks; every dereference and every \<open>free\<close> of a block that is not there is \<open>None\<close>, so a result
  \<open>Some\<close> means no use after free and no double free); \<open>Registry\<close> (\<open>reg_add\<close>, \<open>reg_pin\<close>,
  \<open>reg_release\<close>, \<open>reg_sweep\<close> over the array \<open>g_reg\<close>); \<open>Gc_Runs\<close> (any sequence of calls, sweeps and
  releases).

  Harness, JNI: \<open>Jni_Env\<close> (the \<open>F_...\<close> functions: classes, identifiers, fields, strings, arrays);
  \<open>Env_Table\<close> (\<open>build_env\<close>, \<open>build_vm\<close> and the two interface structures); \<open>Jni_Canned\<close> (the functions that
  answer with a constant, and the slots without a function).

  Harness, start-up: \<open>Startup\<close> (the static objects of \<open>main\<close> and \<open>build_sesscfg_nested\<close>, the table
  \<open>g_dict_table\<close> and the dictionary records); \<open>Startup_Props\<close> (what the engine reads from them through
  the JNI functions); \<open>Harness_Main\<close> (\<open>main\<close>: arguments, order of the start-up, and the run without the
  daemon with its dumps and the test of learning).

  Harness, daemon: \<open>Cand_Queue\<close> (the hooks that pick up candidate events and the queue of 32);
  \<open>Cmd_Reader\<close> (\<open>cmd_fill\<close>, \<open>cmd_read\<close>, \<open>cmd_next_is_batch\<close>); \<open>Daemon_Wait\<close>
  (\<open>daemon_wait_cand\<close>); \<open>Daemon_Fetch\<close> (\<open>daemon_fetch_cands\<close>); \<open>Daemon\<close> (\<open>run_daemon\<close>, a function per
  command); \<open>Daemon_Props\<close> and \<open>Daemon_Runs\<close> (its properties).

  Addon: \<open>Pinyin\<close> (\<open>segmentPinyin\<close>); \<open>Punctuation\<close> (\<open>punctuation.h\<close> and the history per context);
  \<open>Addon_Files\<close> (\<open>glossary.h\<close>, \<open>harness_log.h\<close>); \<open>Addon_State\<close> (the members of \<open>EngineProc\<close> and
  \<open>WeTypeEngine\<close>, page and panel); \<open>Engine_Proc\<close> (\<open>start\<close>, \<open>stop\<close>, \<open>send\<close>, \<open>die\<close> and the functions
  they call back into, with the locale \<open>handlers\<close>); \<open>Addon_Keys\<close> (\<open>processKey\<close> and everything below
  it); \<open>Addon_Events\<close> (replies, timers, focus, clicks; \<open>on_event\<close> is the reaction to one event);
  \<open>Addon_Props\<close> (its invariant); \<open>Addon_Launch\<close> (\<open>resolveDirs\<close>, \<open>prepareHarnessLog\<close>, and the system calls of
  \<open>start\<close> and \<open>stop\<close>: descriptors, environment, arguments, waiting).

  Tools: \<open>Alloc_Trace\<close> and \<open>Alloc_Props\<close> (the allocation tracer: headers, counters, call sites, reports);
  \<open>Trace_Lines\<close> (the text of its reports, and the walk along the frame pointers);
  \<open>Heap_Scan\<close> and \<open>Scan_Props\<close> (the tracer with the registry of live blocks and the search for owners,
  whose counting part is the state of \<open>Alloc_Trace\<close>); \<open>Android_Shim\<close> (looper and assets).

  Both: \<open>Protocol\<close> (the text of the replies on both sides, and the pairing of commands and replies);
  \<open>Addon_Sync\<close> (which texts the engine can hold after the commands of the addon, and that the composition
  is always one of them); \<open>Pipe_Sync\<close> (the same for the record of the daemon, and both together);
  \<open>Type_Commit\<close> (from the line of a reply to the text that the space commits); \<open>Proto_Out\<close> (the pieces in
  which replies are written).

  HOW THE STATE CORRESPONDS. A global or member of the code is the record field of the same name
  (with the trailing underscore dropped; \<open>pendingSpace\<close> is \<open>pending_\<close> of the engine class and
  \<open>pending\<close> that of \<open>EngineProc\<close>). Pointers are 64-bit words, C integers words of their width, C++
  \<open>int\<close> indices integers with the range proved. Ghost fields: \<open>dels\<close> (iterators given back to the
  engine), \<open>leaked\<close> (iterators that fell out of the full queue, or that were taken without \<open>candidate_get_n\<close>), \<open>out\<close> and \<open>outp\<close> (what was printed and committed), \<open>wire\<close> and \<open>answered\<close> (commands written
  to the running engine process and the replies seen), \<open>stuck\<close>, \<open>real_calls\<close> (the calls of a tracer to the
  real allocator), \<open>prints\<close> and \<open>reports\<close> (what the tools print).

  PARAMETERS. The engine library is a record of functions on the state of the harness
  (\<open>engine\<close>), of which the theorems assume at most that it keeps the heap invariants and changes the daemon's
  variables only by queueing events with new iterators, any number of them: when the queue of 32 is full the
  oldest falls out (\<open>engine_ok\<close>, \<open>queued_after\<close>); the events that arrive before each pass of the wait loop, and
  its clock, are the list \<open>obs\<close>; results of
  \<open>pipe\<close>, \<open>fork\<close> and \<open>write\<close> are the list \<open>env\<close>; the input of the daemon is a list of chunks; keys are a
  datatype that keeps ASCII keysyms and the ones the addon names apart; the text of a key, the fields
  of a context and the UTF-8 check are data of the events and of \<open>conf\<close>. The answers of the real
  allocator, of \<open>rename\<close> when the log is rotated, of \<open>pipe2\<close>, \<open>fork\<close>, \<open>access\<close>, \<open>open\<close> and \<open>waitpid\<close> in the launch, the environment, the addresses
  of static objects (\<open>at\<close>) and literals (\<open>lit\<close>), and the memory, stack and loaded libraries that the search
  for owners looks at (\<open>world\<close>) are arguments.

  WHAT THE THEOREMS SHOW.
  Memory (\<open>Registry\<close>, \<open>Gc_Runs\<close>, \<open>Jni_Env\<close>): the sweep and explicit release free exactly what they
  should, once; an object with a global reference stays live through any releases but those of start-up
  objects; fields, strings and arrays read what was written, within bounds; as lemmas, the contents of the two
  JNI tables (\<open>jni_tables\<close>) and ways in which the code falls short (a released start-up object,
  the cache of missing objects, a string that a field outlives).
  Start-up: the engine reads exactly the switches and nested objects that the configuration means, and the
  dictionaries in their order; as lemmas, the exit status of \<open>main\<close>, what its dump lists and what the
  test of learning selects, and that the arguments of the addon start the daemon.
  Daemon: the reader returns the lines however the input is cut; the wait returns, by a quiet
  window or the deadline, and accounts for every iterator, and a match can be lost to a later event; over a whole
  run every iterator is deleted once, queued, not arrived, or was dropped by the full queue (\<open>full_queue_drops\<close>); there is exactly one reply
  per command; the record of typed letters follows the composition; the loop ends with \<open>BYE\<close>.
  Addon: the waiting handlers are always those of the unanswered commands; indices stay inside the
  candidates; callbacks nest at most two deep; a waiting space is always resolved; stale replies change
  nothing; punctuation and its pairing; the display; the dictionary; the log grows beyond its ceiling only by what
  is written while renaming fails; a launch leaks no descriptor, and wires the pipes right when the addon has its
  own standard descriptors open.
  Tools: the counters of the tracer are those of the live blocks and the real allocator is not disturbed,
  over any run that stays clear of two defects (lemmas \<open>boot_block_resized\<close>, \<open>huge_request\<close>); the lines of its reports are never cut (lemmas); the search for owners prints what a
  plain reference says, whatever is registered, and beside stale entries (\<open>stale_block\<close>) that is less than every
  pointer; with the search the tracer behaves as without.
  Both: a candidate line is parsed into what was printed; commands and replies pair up for every
  reachable state of the addon; and the letters the daemon has recorded are the composition the addon
  shows, through failed writes, restarts and merged batches. The candidate the engine ranks first is what
  the space commits, pressed before or after the reply, and the letters it does not cover stay.

  BOUNDS AND FUEL. \<open>daemon_loop\<close> gets the length of the input plus one, and each turn consumes at least
  a newline (\<open>daemon_says_bye\<close>: it never runs out). \<open>cmd_read\<close>, \<open>coalesce\<close> and \<open>seg_loop\<close> terminate by
  the input left. \<open>wait_loop\<close> ends with the list of observations (\<open>wait_cand_returns\<close> says which lists
  suffice). \<open>drain_loop\<close> gets the number of queued keys and \<open>line_loop\<close> the number of bytes
  received, and each turn uses one up. The bisection of the search ends with its interval; the tables of
  the tools are probed 16 and 64 times, as in the code. \<open>stop\<close> polls 100 times. \<open>run_lost\<close> is bounded by the depth 2, and
  \<open>callbacks_bounded\<close> shows that the bound is never reached.

  LIMITS OF THE MODEL. \<open>atoi\<close> and \<open>strtol\<close> compute in unbounded integers: for numbers outside the range of the C
  type the result of \<open>atoi\<close> is undefined in C (in practice its low 32 bits), and the model answers with the
  number written. The search for owners reads memory through total functions (\<open>world\<close>), while the memory of
  a stale entry may be unmapped in reality. Theorems about the pipe take lines of fewer than 512 bytes where they
  say so; a longer replay is cut (\<open>long_replay_cut\<close>).

  NOT MODELLED. Logging, and the fixed texts around printed values; loading the library and looking up its
  symbols (which of them are there is an argument), and the waits between the keys of the one-shot run;
  the addresses of loaded modules that \<open>main\<close> prints; the line \<open>Q\<close> that \<open>stop\<close> writes before it closes
  the pipe; layout hints and text formats of the panel; the destructors; how the
  compiler finds the call site of the tracer. \<open>engine.c\<close> and \<open>probe.c\<close> are experiments that load a
  library and print. The C++ wrappers and type declarations of \<open>jni.h\<close>, a public header, are not used by
  the harness. Threads: the queue of candidate events is taken under its mutex, which is one step of the
  model; data races outside the mutexes are not modelled, and the atomics of the tools are sequential.
\<close>

subsection \<open>The addon starts the daemon\<close>

text \<open>What the harness sees of the arguments with which the addon starts it, directly or under the
  emulator: daemon mode, the library in the engine directory, no logging.\<close>

definition harness_args :: "dirs \<Rightarrow> string list" where
  "harness_args d = drop (if d_qemu d = [] then 1 else 4) (child_argv d)"

lemma launch_is_daemon:
  "daemon_arg (harness_args d) \<and> jni_lib (harness_args d) = d_eng d @ ''/lib/libwxhld_jni.so'' \<and> g_verbose (harness_args d) = 0"
  by (simp add: harness_args_def child_argv_def daemon_arg_def jni_lib_def g_verbose_def Let_def)

end
